(* ===== verification/Prelude.thy ===== *)
theory Prelude
  imports Main "HOL-Library.Word"
begin

text \<open>
  Shared vocabulary of the development: the faults a run of the program can end in, the
  result type of every fallible operation with its sequencing function, bounds-checked
  vector access, and the theorem collections the component theories fill.

  A call of \<open>myAssert\<close> (src/common/util.cpp) or \<open>CondPanic\<close> (src/fiber/include/utils.hpp)
  whose condition is false ends the process; an out-of-range \<open>vector::operator[]\<close>, a call
  through a null pointer and an erase of the past-the-end iterator are undefined behaviour; a
  boost archive that does not parse throws an exception nobody catches; a loop may not end
  (\<open>NoReturn\<close>). Each of these is a constructor of \<open>fault\<close>, so that no branch of the source disappears in the totality of HOL.
\<close>

datatype fault =
    AssertFailed
  | OutOfBounds
  | NullDeref
  | BadErase
  | ArchiveError
  | DivByZero
  | NoReturn

type_synonym 'a res = "fault + 'a"

named_theorems res_simps "rewriting of results of fallible operations"
named_theorems inv_intros "an operation keeps the invariant of its component"
named_theorems frame_simps "an operation leaves a field of the state alone"

subsection \<open>Sequencing of fallible operations\<close>

fun bindR :: "'a res \<Rightarrow> ('a \<Rightarrow> 'b res) \<Rightarrow> 'b res" where
  "bindR (Inl e) f = Inl e"
| "bindR (Inr x) f = f x"

lemma bindR_cong [fundef_cong]:
  "m = m' \<Longrightarrow> (\<And>x. m' = Inr x \<Longrightarrow> f x = f' x) \<Longrightarrow> bindR m f = bindR m' f'"
  by (cases m') auto

lemma bindR_eq_Inr [res_simps]:
  "bindR m f = Inr y \<longleftrightarrow> (\<exists>x. m = Inr x \<and> f x = Inr y)"
  by (cases m) auto

lemma bindR_eq_Inl [res_simps]:
  "bindR m f = Inl e \<longleftrightarrow> m = Inl e \<or> (\<exists>x. m = Inr x \<and> f x = Inl e)"
  by (cases m) auto

lemma Inr_pairD: "x = Inr (r, t) \<Longrightarrow> x = Inr (a, b) \<Longrightarrow> r = a \<and> t = b"
  by simp

lemma bindR_InrE:
  assumes "bindR m f = Inr y"
  obtains x where "m = Inr x" and "f x = Inr y"
  using assms by (auto simp: res_simps)

definition guardR :: "fault \<Rightarrow> bool \<Rightarrow> unit res" where
  "guardR e c = (if c then Inr () else Inl e)"

lemma guardR_simps [simp]: "guardR e True = Inr ()" "guardR e False = Inl e"
  by (simp_all add: guardR_def)

lemma if_Inl_eq_Inr [res_simps]:
  "(if c then m else Inl e) = Inr y \<longleftrightarrow> c \<and> m = Inr y"
  "(if c then Inl e else m) = Inr y \<longleftrightarrow> \<not> c \<and> m = Inr y"
  by auto

lemma guardR_eq [res_simps]:
  "guardR e c = Inr u \<longleftrightarrow> c"
  "guardR e c = Inl e' \<longleftrightarrow> \<not> c \<and> e' = e"
  by (auto simp: guardR_def)

lemma bindR_guard [simp]: "bindR (guardR e c) f = (if c then f () else Inl e)"
  by (simp add: guardR_def)

subsection \<open>Vectors\<close>

text \<open>
  \<open>std::vector::operator[]\<close> with an index of type \<open>int\<close>: a read or a write outside the
  vector is undefined behaviour, the fault \<open>OutOfBounds\<close>.
\<close>

definition vec_at :: "'a list \<Rightarrow> int \<Rightarrow> 'a res" where
  "vec_at xs i = (if 0 \<le> i \<and> i < int (length xs) then Inr (xs ! nat i) else Inl OutOfBounds)"

definition vec_put :: "'a list \<Rightarrow> int \<Rightarrow> 'a \<Rightarrow> 'a list res" where
  "vec_put xs i v =
     (if 0 \<le> i \<and> i < int (length xs) then Inr (xs[nat i := v]) else Inl OutOfBounds)"

lemma vec_at_Inr [res_simps]:
  "vec_at xs i = Inr x \<longleftrightarrow> 0 \<le> i \<and> i < int (length xs) \<and> x = xs ! nat i"
  by (auto simp: vec_at_def)

lemma vec_at_Inl [res_simps]:
  "vec_at xs i = Inl e \<longleftrightarrow> \<not> (0 \<le> i \<and> i < int (length xs)) \<and> e = OutOfBounds"
  by (auto simp: vec_at_def)

lemma vec_put_Inr [res_simps]:
  "vec_put xs i v = Inr ys \<longleftrightarrow> 0 \<le> i \<and> i < int (length xs) \<and> ys = xs[nat i := v]"
  by (auto simp: vec_put_def)

lemma vec_put_Inl [res_simps]:
  "vec_put xs i v = Inl e \<longleftrightarrow> \<not> (0 \<le> i \<and> i < int (length xs)) \<and> e = OutOfBounds"
  by (auto simp: vec_put_def)

lemma vec_at_inside: "0 \<le> i \<Longrightarrow> i < int (length xs) \<Longrightarrow> vec_at xs i = Inr (xs ! nat i)"
  by (simp add: vec_at_def)

lemma vec_put_inside: "0 \<le> i \<Longrightarrow> i < int (length xs) \<Longrightarrow> vec_put xs i v = Inr (xs[nat i := v])"
  by (simp add: vec_put_def)

lemma vec_at_nat: "n < length xs \<Longrightarrow> vec_at xs (int n) = Inr (xs ! n)"
  by (simp add: vec_at_def)

subsection \<open>Folding a fallible operation over a list\<close>

fun foldR :: "('a \<Rightarrow> 's \<Rightarrow> 's res) \<Rightarrow> 'a list \<Rightarrow> 's \<Rightarrow> 's res" where
  "foldR f [] s = Inr s"
| "foldR f (x # xs) s = bindR (f x s) (foldR f xs)"

lemma foldR_append: "foldR f (xs @ ys) s = bindR (foldR f xs s) (foldR f ys)"
proof (induction xs arbitrary: s)
  case (Cons x xs)
  then show ?case by (cases "f x s") simp_all
qed simp

lemma foldR_invariant:
  assumes "foldR f xs s = Inr t" and "P s"
    and "\<And>x s t. x \<in> set xs \<Longrightarrow> P s \<Longrightarrow> f x s = Inr t \<Longrightarrow> P t"
  shows "P t"
  using assms
proof (induction xs arbitrary: s)
  case (Cons x xs)
  from Cons.prems(1) obtain u where u: "f x s = Inr u" "foldR f xs u = Inr t"
    by (auto simp: res_simps)
  have "P u" using Cons.prems(2) Cons.prems(3) [of x s u] u(1) by simp
  with u(2) show ?case using Cons.IH Cons.prems(3) by (meson list.set_intros(2))
qed simp

text \<open>
  \<open>mapR\<close> runs a fallible function over a list and collects the results, stopping at the
  first fault.
\<close>

fun mapR :: "('a \<Rightarrow> 'b res) \<Rightarrow> 'a list \<Rightarrow> 'b list res" where
  "mapR f [] = Inr []"
| "mapR f (x # xs) = bindR (f x) (\<lambda>y. bindR (mapR f xs) (\<lambda>ys. Inr (y # ys)))"

lemma mapR_total: "(\<And>x. x \<in> set xs \<Longrightarrow> f x = Inr (g x)) \<Longrightarrow> mapR f xs = Inr (map g xs)"
  by (induction xs) auto

lemma mapR_Inr_iff: "mapR f xs = Inr ys \<longleftrightarrow> list_all2 (\<lambda>x y. f x = Inr y) xs ys"
  by (induction xs arbitrary: ys) (auto simp: res_simps list_all2_Cons1)

lemma mapR_Inr_nth:
  "mapR f xs = Inr ys \<Longrightarrow> length ys = length xs \<and> (\<forall>i < length xs. f (xs ! i) = Inr (ys ! i))"
  by (simp add: mapR_Inr_iff list_all2_conv_all_nth)

subsection \<open>Lists\<close>

lemma nth_append_last: "(xs @ [x]) ! length xs = x"
  by simp

lemma last_nth_length: "xs \<noteq> [] \<Longrightarrow> last xs = xs ! (length xs - 1)"
  by (rule last_conv_nth)

subsection \<open>Systems that run\<close>

text \<open>The states a system reaches, and the two contracts of the proofs about them: an invariant, and a simulation
  of the system by another one.\<close>

inductive reached :: "('s \<Rightarrow> bool) \<Rightarrow> ('s \<Rightarrow> 's \<Rightarrow> bool) \<Rightarrow> 's \<Rightarrow> bool" for start stp where
  first: "start s \<Longrightarrow> reached start stp s"
| onward: "reached start stp s \<Longrightarrow> stp s t \<Longrightarrow> reached start stp t"

lemma reached_many: "stp\<^sup>*\<^sup>* s t \<Longrightarrow> reached start stp s \<Longrightarrow> reached start stp t"
  by (induction rule: rtranclp_induct) (auto intro: reached.onward)

locale step_invariant =
  fixes start :: "'s \<Rightarrow> bool" and stp :: "'s \<Rightarrow> 's \<Rightarrow> bool" and holds :: "'s \<Rightarrow> bool"
  assumes start_law: "start s \<Longrightarrow> holds s"
    and step_law: "stp s t \<Longrightarrow> holds s \<Longrightarrow> holds t"
begin

lemma always: "reached start stp s \<Longrightarrow> holds s"
  by (induction rule: reached.induct) (auto intro: start_law step_law)

end

locale simulation = step_invariant start stp holds
  for start :: "'s \<Rightarrow> bool" and stp :: "'s \<Rightarrow> 's \<Rightarrow> bool" and holds :: "'s \<Rightarrow> bool" +
  fixes astart :: "'a \<Rightarrow> bool" and astp :: "'a \<Rightarrow> 'a \<Rightarrow> bool" and rel :: "'s \<Rightarrow> 'a \<Rightarrow> bool"
  assumes start_sim: "start s \<Longrightarrow> \<exists>a. reached astart astp a \<and> rel s a"
    and step_sim: "stp s t \<Longrightarrow> holds s \<Longrightarrow> rel s a \<Longrightarrow> \<exists>b. astp\<^sup>*\<^sup>* a b \<and> rel t b"
begin

text \<open>Every state of the system stands for a reachable one of the other.\<close>

lemma simulated: "reached start stp s \<Longrightarrow> \<exists>a. reached astart astp a \<and> rel s a"
proof (induction rule: reached.induct)
  case (first s)
  then show ?case by (rule start_sim)
next
  case (onward s t)
  then obtain a where a: "reached astart astp a" "rel s a" by blast
  from step_sim [OF onward.hyps(2) always [OF onward.hyps(1)] a(2)] reached_many [OF _ a(1)] show ?case by blast
qed

end

end
