(* ===== verification/Common.thy ===== *)
theory Common
  imports Prelude
begin

text \<open>
  src/common: the helpers every other part of the program includes. \<open>Op\<close> is the command a
  client sends through the log, \<open>LockQueue\<close> the channel between the raft node and the server
  and between the server's apply loop and its waiting requests, \<open>myAssert\<close> the assertion that
  ends the process, \<open>getReleasePort\<close> the search for a free port. The mutex and the condition
  variable of \<open>LockQueue\<close> make each of its operations atomic; the model is the sequence of
  these atomic operations.
\<close>

subsection \<open>Assertions, reply codes and time constants\<close>

definition myAssert :: "bool \<Rightarrow> unit res" where
  "myAssert c = guardR AssertFailed c"

lemma myAssert_eq [res_simps]:
  "myAssert c = Inr u \<longleftrightarrow> c"
  "myAssert c = Inl e \<longleftrightarrow> \<not> c \<and> e = AssertFailed"
  by (auto simp: myAssert_def res_simps)

lemma myAssert_simps [simp]: "myAssert True = Inr ()" "myAssert False = Inl AssertFailed"
  by (simp_all add: myAssert_def)

lemma bindR_myAssert [simp]: "bindR (myAssert c) f = (if c then f () else Inl AssertFailed)"
  by (simp add: myAssert_def)

definition OK :: string where "OK = ''OK''"
definition ErrNoKey :: string where "ErrNoKey = ''ErrNoKey''"
definition ErrWrongLeader :: string where "ErrWrongLeader = ''ErrWrongLeader''"

lemma reply_codes_distinct [simp]:
  "OK \<noteq> ErrNoKey" "ErrNoKey \<noteq> OK" "OK \<noteq> ErrWrongLeader" "ErrWrongLeader \<noteq> OK"
  "ErrNoKey \<noteq> ErrWrongLeader" "ErrWrongLeader \<noteq> ErrNoKey"
  "OK \<noteq> []" "ErrNoKey \<noteq> []" "ErrWrongLeader \<noteq> []"
  by (simp_all add: OK_def ErrNoKey_def ErrWrongLeader_def)

definition HeartBeatTimeout :: int where "HeartBeatTimeout = 25"
definition minRandomizedElectionTime :: int where "minRandomizedElectionTime = 300"
definition maxRandomizedElectionTime :: int where "maxRandomizedElectionTime = 500"

text \<open>
  \<open>getRandomizedElectionTimeout\<close> draws from \<open>uniform_int_distribution(300, 500)\<close>: the values
  it can return.
\<close>

definition isElectionTimeout :: "int \<Rightarrow> bool" where
  "isElectionTimeout r \<longleftrightarrow> minRandomizedElectionTime \<le> r \<and> r \<le> maxRandomizedElectionTime"

subsection \<open>The client command\<close>

record Op =
  operation :: string
  key :: string
  opvalue :: string
  clientId :: string
  requestId :: int

text \<open>A default-constructed \<open>Op\<close>; its \<open>requestId\<close> is uninitialised in the source, here 0.\<close>

definition emptyOp :: Op where
  "emptyOp = \<lparr>operation = [], key = [], opvalue = [], clientId = [], requestId = 0\<rparr>"

subsection \<open>LockQueue\<close>

record 'a LockQueue =
  m_queue :: "'a list"

definition newLockQueue :: "'a LockQueue" where
  "newLockQueue = \<lparr>m_queue = []\<rparr>"

definition Push :: "'a \<Rightarrow> 'a LockQueue \<Rightarrow> 'a LockQueue" where
  "Push data q = q\<lparr>m_queue := m_queue q @ [data]\<rparr>"

text \<open>\<open>pop\<close> blocks while the queue is empty: \<open>None\<close>.\<close>

definition pop :: "'a LockQueue \<Rightarrow> ('a \<times> 'a LockQueue) option" where
  "pop q = (case m_queue q of [] \<Rightarrow> None | data # rest \<Rightarrow> Some (data, q\<lparr>m_queue := rest\<rparr>))"

text \<open>
  \<open>timeoutPop\<close> waits on the condition variable until the queue is not empty or a wait reports
  a timeout. The second argument lists the wake-ups it sees: what other threads pushed before
  the wake-up, and whether \<open>wait_until\<close> returned \<open>timeout\<close>. The result is \<open>None\<close> while it is
  still waiting; otherwise the element it returned, if any, and the queue. A wake-up by
  timeout returns false without another look at the queue.
\<close>

fun timeoutPop ::
  "'a LockQueue \<Rightarrow> ('a list \<times> bool) list \<Rightarrow> ('a option \<times> 'a LockQueue) option" where
  "timeoutPop q ws =
     (case m_queue q of
        data # rest \<Rightarrow> Some (Some data, q\<lparr>m_queue := rest\<rparr>)
      | [] \<Rightarrow>
          (case ws of
             [] \<Rightarrow> None
           | (pushed, timedout) # ws' \<Rightarrow>
               (let q' = q\<lparr>m_queue := m_queue q @ pushed\<rparr>
                in if timedout then Some (None, q') else timeoutPop q' ws')))"

declare timeoutPop.simps [simp del]

subsection \<open>The channel contract\<close>

fun popn :: "('q \<Rightarrow> ('a \<times> 'q) option) \<Rightarrow> nat \<Rightarrow> 'q \<Rightarrow> ('a list \<times> 'q) option" where
  "popn pp 0 q = Some ([], q)"
| "popn pp (Suc n) q =
     (case pp q of
        None \<Rightarrow> None
      | Some (x, q') \<Rightarrow> map_option (\<lambda>(xs, r). (x # xs, r)) (popn pp n q'))"

text \<open>
  What a client of a channel relies on: an element is read once, in the order of the pushes,
  and a read of an empty channel waits.
\<close>

locale fifo_channel =
  fixes push :: "'a \<Rightarrow> 'q \<Rightarrow> 'q"
    and take_one :: "'q \<Rightarrow> ('a \<times> 'q) option"
    and contents :: "'q \<Rightarrow> 'a list"
  assumes contents_push: "contents (push x q) = contents q @ [x]"
    and take_empty: "contents q = [] \<Longrightarrow> take_one q = None"
    and take_front: "contents q = x # xs \<Longrightarrow> \<exists>q'. take_one q = Some (x, q') \<and> contents q' = xs"
begin

lemma contents_pushes: "contents (fold push xs q) = contents q @ xs"
  by (induction xs arbitrary: q) (simp_all add: contents_push)

lemma drain:
  "contents q = xs @ ys \<Longrightarrow>
     \<exists>q'. popn take_one (length xs) q = Some (xs, q') \<and> contents q' = ys"
proof (induction xs arbitrary: q)
  case (Cons x xs)
  then obtain q1 where "take_one q = Some (x, q1)" "contents q1 = xs @ ys"
    using take_front [of q x "xs @ ys"] by auto
  with Cons.IH [of q1] show ?case by auto
qed simp

lemma fifo_order:
  "contents q = [] \<Longrightarrow>
     \<exists>q'. popn take_one (length xs) (fold push xs q) = Some (xs, q') \<and> contents q' = []"
  using drain [of "fold push xs q" xs "[]"] by (simp add: contents_pushes)

lemma waits_iff_empty: "take_one q = None \<longleftrightarrow> contents q = []"
  using take_empty take_front by (cases "contents q") fastforce+

end

interpretation lq: fifo_channel Push pop m_queue
  by unfold_locales (auto simp: Push_def pop_def)

text \<open>\<open>timeoutPop\<close> against the channel: it returns the front element, or gives up.\<close>

lemma timeoutPop_ready:
  "m_queue q = x # xs \<Longrightarrow> timeoutPop q ws = Some (Some x, q\<lparr>m_queue := xs\<rparr>)"
  by (simp add: timeoutPop.simps)

lemma timeoutPop_empty:
  "m_queue q = [] \<Longrightarrow> timeoutPop q [] = None"
  "m_queue q = [] \<Longrightarrow>
     timeoutPop q ((pushed, True) # ws) = Some (None, q\<lparr>m_queue := pushed\<rparr>)"
  "m_queue q = [] \<Longrightarrow>
     timeoutPop q ((pushed, False) # ws) = timeoutPop (q\<lparr>m_queue := pushed\<rparr>) ws"
  by (simp_all add: timeoutPop.simps [of q])

lemma timeoutPop_conserves:
  assumes "timeoutPop q ws = Some (r, q')"
  shows "\<exists>n. m_queue q @ concat (map fst (take n ws)) =
           (case r of None \<Rightarrow> [] | Some x \<Rightarrow> [x]) @ m_queue q'"
  using assms
proof (induction q ws rule: timeoutPop.induct)
  case (1 q ws)
  show ?case
  proof (cases "m_queue q")
    case (Cons x xs)
    with "1.prems" have "r = Some x" "m_queue q' = xs" by (auto simp: timeoutPop_ready)
    with Cons show ?thesis by (intro exI [of _ 0]) simp
  next
    case Nil
    with "1.prems" obtain p b ws' where ws: "ws = (p, b) # ws'"
      by (cases ws) (auto simp: timeoutPop_empty)
    show ?thesis
    proof (cases b)
      case True
      with "1.prems" Nil ws show ?thesis
        by (intro exI [of _ "Suc 0"]) (auto simp: timeoutPop_empty)
    next
      case False
      with "1.prems" Nil ws have "timeoutPop (q\<lparr>m_queue := p\<rparr>) ws' = Some (r, q')"
        by (simp add: timeoutPop_empty)
      with "1.IH" [OF Nil ws, of p b "q\<lparr>m_queue := m_queue q @ p\<rparr>"] False Nil obtain n where
        "p @ concat (map fst (take n ws')) = (case r of None \<Rightarrow> [] | Some x \<Rightarrow> [x]) @ m_queue q'"
        by auto
      then show ?thesis using Nil ws by (intro exI [of _ "Suc n"]) simp
    qed
  qed
qed

subsection \<open>Free ports\<close>

text \<open>
  \<open>isReleasePort\<close> binds a socket to the port; whether the kernel lets it is the argument
  \<open>free\<close>. The port is a \<open>short\<close>: the increment wraps at 16 bits.
\<close>

function port_loop :: "(16 word \<Rightarrow> bool) \<Rightarrow> 16 word \<Rightarrow> nat \<Rightarrow> 16 word \<times> nat" where
  "port_loop free port num =
     (if \<not> free port \<and> num < 30 then port_loop free (port + 1) (num + 1) else (port, num))"
  by pat_completeness auto
termination
  by (relation "measure (\<lambda>(free, port, num). 30 - num)") auto

declare port_loop.simps [simp del]

definition getReleasePort :: "(16 word \<Rightarrow> bool) \<Rightarrow> 16 word \<Rightarrow> bool \<times> 16 word" where
  "getReleasePort free port =
     (let (p, num) = port_loop free port 0
      in if num \<ge> 30 then (False, -1) else (True, p))"

lemma port_loop_result:
  assumes "num \<le> 30"
  shows "\<exists>k. num + k \<le> 30 \<and> port_loop free port num = (port + of_nat k, num + k) \<and>
           (\<forall>j < k. \<not> free (port + of_nat j)) \<and> (num + k < 30 \<longrightarrow> free (port + of_nat k))"
  using assms
proof (induction free port num rule: port_loop.induct)
  case (1 free port num)
  show ?case
  proof (cases "\<not> free port \<and> num < 30")
    case True
    with "1.IH" obtain k where k: "num + 1 + k \<le> 30"
      "port_loop free (port + 1) (num + 1) = (port + 1 + of_nat k, num + 1 + k)"
      "\<forall>j < k. \<not> free (port + 1 + of_nat j)" "num + 1 + k < 30 \<longrightarrow> free (port + 1 + of_nat k)"
      by (metis Suc_eq_plus1 Suc_leI)
    have shift: "port + of_nat (Suc n) = port + 1 + of_nat n" for n
      by simp
    have "\<not> free (port + of_nat j)" if "j < Suc k" for j
      using that True k(3) by (cases j) (simp_all only: shift, auto)
    with k True show ?thesis
      by (intro exI [of _ "Suc k"], unfold shift) (auto simp: port_loop.simps [of free port num])
  next
    case False
    with "1.prems" show ?thesis
      by (intro exI [of _ 0]) (auto simp: port_loop.simps [of free port num])
  qed
qed

end
