(* ===== verification/Persist.thy ===== *)
theory Persist
  imports Common
begin

text \<open>
  src/raftCore/Persister.cpp: the two files a node writes, one with the raft state and one with
  the snapshot of the database. A file is its content on disk, \<open>None\<close> when it does not exist;
  an output stream is open or closed and holds what was written and not yet flushed. The flush
  happens when the stream is closed; closing is the only moment the code forces.
\<close>

record ofstream =
  is_open :: bool
  buffer :: string

record Persister =
  m_raftStateFile :: "string option"
  m_snapshotFile :: "string option"
  m_raftStateOutStream :: ofstream
  m_snapshotOutStream :: ofstream
  m_raftStateSize :: int

subsection \<open>Streams\<close>

text \<open>
  \<open>ofstream::open\<close> with its default mode truncates the file; so do the explicit
  \<open>ios::out | ios::trunc\<close> of the clear functions. Opening an open stream fails and changes
  nothing. \<open>operator>>\<close> into a string skips white space and reads up to the next white space.
\<close>

definition isspace :: "char \<Rightarrow> bool" where
  "isspace c \<longleftrightarrow> c \<in> set [CHR '' '', CHR 0x09, CHR 0x0A, CHR 0x0B, CHR 0x0C, CHR 0x0D]"

definition read_token :: "string \<Rightarrow> string" where
  "read_token s = takeWhile (\<lambda>c. \<not> isspace c) (dropWhile isspace s)"

definition open_trunc :: "string option \<Rightarrow> ofstream \<Rightarrow> string option \<times> ofstream" where
  "open_trunc f st = (if is_open st then (f, st) else (Some [], \<lparr>is_open = True, buffer = []\<rparr>))"

definition close_stream :: "string option \<Rightarrow> ofstream \<Rightarrow> string option \<times> ofstream" where
  "close_stream f st =
     (if is_open st then (map_option (\<lambda>d. d @ buffer st) f, \<lparr>is_open = False, buffer = []\<rparr>)
      else (f, st))"

definition write_stream :: "string \<Rightarrow> ofstream \<Rightarrow> ofstream" where
  "write_stream d st = (if is_open st then st\<lparr>buffer := buffer st @ d\<rparr> else st)"

subsection \<open>The operations\<close>

text \<open>
  The constructor truncates both files before it opens the output streams, whatever an earlier
  run left in them.
\<close>

definition Persister_ctor :: "string option \<Rightarrow> string option \<Rightarrow> Persister" where
  "Persister_ctor oldRaft oldSnap =
     (let raftFile = Some []; snapFile = Some [];
          (raftFile', raftOut) = open_trunc raftFile \<lparr>is_open = False, buffer = []\<rparr>;
          (snapFile', snapOut) = open_trunc snapFile \<lparr>is_open = False, buffer = []\<rparr>
      in \<lparr>m_raftStateFile = raftFile', m_snapshotFile = snapFile',
          m_raftStateOutStream = raftOut, m_snapshotOutStream = snapOut, m_raftStateSize = 0\<rparr>)"

definition clearRaftState :: "Persister \<Rightarrow> Persister" where
  "clearRaftState p =
     (let (f1, s1) = close_stream (m_raftStateFile p) (m_raftStateOutStream p);
          (f2, s2) = open_trunc f1 s1
      in p\<lparr>m_raftStateSize := 0, m_raftStateFile := f2, m_raftStateOutStream := s2\<rparr>)"

definition clearSnapshot :: "Persister \<Rightarrow> Persister" where
  "clearSnapshot p =
     (let (f1, s1) = close_stream (m_snapshotFile p) (m_snapshotOutStream p);
          (f2, s2) = open_trunc f1 s1
      in p\<lparr>m_snapshotFile := f2, m_snapshotOutStream := s2\<rparr>)"

definition clearRaftStateAndSnapshot :: "Persister \<Rightarrow> Persister" where
  "clearRaftStateAndSnapshot p = clearSnapshot (clearRaftState p)"

definition Save :: "string \<Rightarrow> string \<Rightarrow> Persister \<Rightarrow> Persister" where
  "Save raftState snapshot p =
     (let p1 = clearRaftStateAndSnapshot p
      in p1\<lparr>m_raftStateOutStream := write_stream raftState (m_raftStateOutStream p1),
            m_snapshotOutStream := write_stream snapshot (m_snapshotOutStream p1)\<rparr>)"

definition SaveRaftState :: "string \<Rightarrow> Persister \<Rightarrow> Persister" where
  "SaveRaftState data p =
     (let p1 = clearRaftState p
      in p1\<lparr>m_raftStateOutStream := write_stream data (m_raftStateOutStream p1),
            m_raftStateSize := m_raftStateSize p1 + int (length data)\<rparr>)"

definition RaftStateSize :: "Persister \<Rightarrow> int" where
  "RaftStateSize p = m_raftStateSize p"

text \<open>
  \<open>ReadSnapshot\<close> closes the stream, reads one token of the file and, on every path out,
  opens the stream again, which truncates the file.
\<close>

definition ReadSnapshot :: "Persister \<Rightarrow> string \<times> Persister" where
  "ReadSnapshot p =
     (let (f1, s1) = close_stream (m_snapshotFile p) (m_snapshotOutStream p);
          snapshot = (case f1 of None \<Rightarrow> [] | Some d \<Rightarrow> read_token d);
          (f2, s2) = open_trunc f1 s1
      in (snapshot, p\<lparr>m_snapshotFile := f2, m_snapshotOutStream := s2\<rparr>))"

text \<open>\<open>ReadRaftState\<close> reads the file next to the open stream: only what is on disk.\<close>

definition ReadRaftState :: "Persister \<Rightarrow> string" where
  "ReadRaftState p = (case m_raftStateFile p of None \<Rightarrow> [] | Some d \<Rightarrow> read_token d)"

definition Persister_dtor :: "Persister \<Rightarrow> Persister" where
  "Persister_dtor p =
     (let (f1, s1) = close_stream (m_raftStateFile p) (m_raftStateOutStream p);
          (f2, s2) = close_stream (m_snapshotFile p) (m_snapshotOutStream p)
      in p\<lparr>m_raftStateFile := f1, m_raftStateOutStream := s1,
           m_snapshotFile := f2, m_snapshotOutStream := s2\<rparr>)"

subsection \<open>What the streams and files hold\<close>

lemmas stream_defs = open_trunc_def close_stream_def write_stream_def

definition persister_wf :: "Persister \<Rightarrow> bool" where
  "persister_wf p \<longleftrightarrow>
     is_open (m_raftStateOutStream p) \<and> is_open (m_snapshotOutStream p) \<and>
     m_raftStateFile p \<noteq> None \<and> m_snapshotFile p \<noteq> None"

text \<open>
  The content a file will have once its stream is closed: what a process that stops now
  leaves behind.
\<close>

definition raft_content :: "Persister \<Rightarrow> string" where
  "raft_content p = (case m_raftStateFile p of None \<Rightarrow> [] | Some d \<Rightarrow> d) @ buffer (m_raftStateOutStream p)"

definition snapshot_content :: "Persister \<Rightarrow> string" where
  "snapshot_content p = (case m_snapshotFile p of None \<Rightarrow> [] | Some d \<Rightarrow> d) @ buffer (m_snapshotOutStream p)"

lemma persister_wf_ctor [inv_intros]: "persister_wf (Persister_ctor r s)"
  by (simp add: persister_wf_def Persister_ctor_def stream_defs Let_def)

lemma persister_wf_Save [inv_intros]: "persister_wf (Save r s p)"
  by (simp add: persister_wf_def Save_def clearRaftStateAndSnapshot_def clearRaftState_def
      clearSnapshot_def stream_defs Let_def split: if_splits prod.splits)

lemma persister_wf_SaveRaftState [inv_intros]: "persister_wf p \<Longrightarrow> persister_wf (SaveRaftState d p)"
  by (simp add: persister_wf_def SaveRaftState_def clearRaftState_def stream_defs Let_def
      split: if_splits prod.splits)

lemma persister_wf_ReadSnapshot [inv_intros]: "persister_wf p \<Longrightarrow> persister_wf (snd (ReadSnapshot p))"
  by (auto simp: persister_wf_def ReadSnapshot_def stream_defs Let_def split: prod.splits)

lemma content_ctor [simp]:
  "raft_content (Persister_ctor r s) = []" "snapshot_content (Persister_ctor r s) = []"
  by (simp_all add: Persister_ctor_def raft_content_def snapshot_content_def stream_defs)

lemma content_Save [simp]:
  "raft_content (Save r s p) = r" "snapshot_content (Save r s p) = s"
  by (simp_all add: Save_def clearRaftStateAndSnapshot_def clearRaftState_def clearSnapshot_def
      raft_content_def snapshot_content_def stream_defs Let_def split: prod.splits)

lemma content_SaveRaftState [simp]:
  "raft_content (SaveRaftState d p) = d" "snapshot_content (SaveRaftState d p) = snapshot_content p"
  by (simp_all add: SaveRaftState_def clearRaftState_def raft_content_def snapshot_content_def
      stream_defs Let_def split: prod.splits)

lemma content_ReadSnapshot:
  assumes "persister_wf p"
  shows "fst (ReadSnapshot p) = read_token (snapshot_content p)"
    and "snapshot_content (snd (ReadSnapshot p)) = []"
    and "raft_content (snd (ReadSnapshot p)) = raft_content p"
  using assms
  by (auto simp: persister_wf_def ReadSnapshot_def raft_content_def snapshot_content_def
      stream_defs Let_def)

lemma size_Save [simp]: "RaftStateSize (Save r s p) = 0"
  by (simp add: Save_def clearRaftStateAndSnapshot_def clearRaftState_def clearSnapshot_def
      RaftStateSize_def Let_def split: prod.splits)

lemma size_SaveRaftState [simp]: "RaftStateSize (SaveRaftState d p) = int (length d)"
  by (simp add: SaveRaftState_def clearRaftState_def RaftStateSize_def Let_def split: prod.splits)

lemma read_token_no_space: "\<forall>c \<in> set s. \<not> isspace c \<Longrightarrow> read_token s = s"
  by (cases s) (auto simp: read_token_def)

lemma read_token_cut:
  assumes "\<forall>c \<in> set w. \<not> isspace c" and "w \<noteq> []" and "isspace b"
  shows "read_token (w @ b # rest) = w"
proof -
  have "dropWhile isspace (w @ b # rest) = w @ b # rest"
    using assms(1,2) by (cases w) auto
  then show ?thesis using assms(1,3) by (simp add: read_token_def takeWhile_append2)
qed

lemma read_token_Nil [simp]: "read_token [] = []"
  by (simp add: read_token_def)

end
