(* ===== verification/RaftState.thy ===== *)
theory RaftState
  imports Persist
begin

text \<open>
  The raft node's data (raft.h, ApplyMsg.h, the messages of raftRPC.proto as raftRPC.pb.h
  declares them) and its queries: the last index and term, the translation between log indices
  and positions of \<open>m_logs\<close>, the state the node persists. Indices and terms are \<open>int\<close>s; they
  grow by one per command or election and stay far from the bounds of the 32-bit type. The
  mutex \<open>m_mtx\<close> makes every handler atomic, so a handler is one function on the node's state.
\<close>

subsection \<open>Messages\<close>

record LogEntry =
  command :: string
  logterm :: int
  logindex :: int

record AppendEntriesArgs =
  aea_term :: int
  aea_leaderid :: int
  aea_prevlogindex :: int
  aea_prevlogterm :: int
  aea_entries :: "LogEntry list"
  aea_leadercommit :: int

record AppendEntriesReply =
  aer_term :: int
  aer_success :: bool
  aer_updatenextindex :: int
  aer_appstate :: int

record RequestVoteArgs =
  rva_term :: int
  rva_candidateid :: int
  rva_lastlogindex :: int
  rva_lastlogterm :: int

record RequestVoteReply =
  rvr_term :: int
  rvr_votegranted :: bool
  rvr_votestate :: int

record InstallSnapshotRequest =
  isr_leaderid :: int
  isr_term :: int
  isr_lastsnapshotincludeindex :: int
  isr_lastsnapshotincludeterm :: int
  isr_data :: string

record InstallSnapShotResponse =
  isp_term :: int

text \<open>The replies a server or a caller starts from: protobuf's default values.\<close>

definition newAppendEntriesReply :: AppendEntriesReply where
  "newAppendEntriesReply =
     \<lparr>aer_term = 0, aer_success = False, aer_updatenextindex = 0, aer_appstate = 0\<rparr>"

definition newRequestVoteReply :: RequestVoteReply where
  "newRequestVoteReply = \<lparr>rvr_term = 0, rvr_votegranted = False, rvr_votestate = 0\<rparr>"

definition newInstallSnapShotResponse :: InstallSnapShotResponse where
  "newInstallSnapShotResponse = \<lparr>isp_term = 0\<rparr>"

definition Disconnected :: int where "Disconnected = 0"
definition AppNormal :: int where "AppNormal = 1"
definition Killed :: int where "Killed = 0"
definition Voted :: int where "Voted = 1"
definition Expire :: int where "Expire = 2"
definition Normal :: int where "Normal = 3"

subsection \<open>Messages to the server\<close>

record ApplyMsg =
  CommandValid :: bool
  Command :: string
  CommandIndex :: int
  SnapShotValid :: bool
  Snapshot_data :: string
  SnapshotTerm :: int
  SnapshotIndex :: int

definition newApplyMsg :: ApplyMsg where
  "newApplyMsg = \<lparr>CommandValid = False, Command = [], CommandIndex = -1, SnapShotValid = False,
     Snapshot_data = [], SnapshotTerm = -1, SnapshotIndex = -1\<rparr>"

subsection \<open>The node\<close>

datatype Status = Follower | Candidate | Leader

text \<open>
  The peers are connections; the handlers use their number and address them by index.
  \<open>applyChan\<close> is the queue shared with the server.
\<close>

record Raft =
  m_peers_size :: nat
  m_persister :: Persister
  m_me :: int
  m_currentTerm :: int
  m_votedFor :: int
  m_logs :: "LogEntry list"
  m_commitIndex :: int
  m_lastApplied :: int
  m_nextIndex :: "int list"
  m_matchIndex :: "int list"
  m_status :: Status
  applyChan :: "ApplyMsg LockQueue"
  m_lastResetElectionTime :: int
  m_lastResetHeartBeatTime :: int
  m_lastSnapshotIncludeIndex :: int
  m_lastSnapshotIncludeTerm :: int

record BoostPersistRaftNode =
  bp_currentTerm :: int
  bp_votedFor :: int
  bp_lastSnapshotIncludeIndex :: int
  bp_lastSnapshotIncludeTerm :: int
  bp_logs :: "string list"

text \<open>
  The encoders of protobuf and boost are not part of the repository: parameters. \<open>ParseEntry\<close>
  is \<open>LogEntry::ParseFromString\<close> on a fresh entry, whose result flag the code ignores;
  \<open>iaRaft\<close> is \<open>text_iarchive >> node\<close>, \<open>None\<close> when it throws \<open>archive_exception\<close>.
\<close>

record raft_codec =
  SerializeEntry :: "LogEntry \<Rightarrow> string"
  ParseEntry :: "string \<Rightarrow> LogEntry"
  oaRaft :: "BoostPersistRaftNode \<Rightarrow> string"
  iaRaft :: "string \<Rightarrow> BoostPersistRaftNode option"
  oaOp :: "Op \<Rightarrow> string"
  iaOp :: "string \<Rightarrow> Op option"

subsection \<open>Queries of the log\<close>

definition getLastLogIndexAndTerm :: "Raft \<Rightarrow> int \<times> int" where
  "getLastLogIndexAndTerm s =
     (if m_logs s = [] then (m_lastSnapshotIncludeIndex s, m_lastSnapshotIncludeTerm s)
      else let e = m_logs s ! (length (m_logs s) - 1) in (logindex e, logterm e))"

definition getLastLogIndex :: "Raft \<Rightarrow> int" where
  "getLastLogIndex s = fst (getLastLogIndexAndTerm s)"

definition getLastLogTerm :: "Raft \<Rightarrow> int" where
  "getLastLogTerm s = snd (getLastLogIndexAndTerm s)"

definition getNewCommandIndex :: "Raft \<Rightarrow> int" where
  "getNewCommandIndex s = getLastLogIndex s + 1"

definition getSlicesIndexFromLogIndex :: "Raft \<Rightarrow> int \<Rightarrow> int res" where
  "getSlicesIndexFromLogIndex s i =
     bindR (myAssert (i > m_lastSnapshotIncludeIndex s)) (\<lambda>_.
     bindR (myAssert (i \<le> getLastLogIndex s)) (\<lambda>_.
     Inr (i - m_lastSnapshotIncludeIndex s - 1)))"

definition getLogTermFromLogIndex :: "Raft \<Rightarrow> int \<Rightarrow> int res" where
  "getLogTermFromLogIndex s i =
     bindR (myAssert (i \<ge> m_lastSnapshotIncludeIndex s)) (\<lambda>_.
     bindR (myAssert (i \<le> getLastLogIndex s)) (\<lambda>_.
     if i = m_lastSnapshotIncludeIndex s then Inr (m_lastSnapshotIncludeTerm s)
     else bindR (getSlicesIndexFromLogIndex s i) (\<lambda>j.
          bindR (vec_at (m_logs s) j) (\<lambda>e. Inr (logterm e)))))"

definition matchLog :: "Raft \<Rightarrow> int \<Rightarrow> int \<Rightarrow> bool res" where
  "matchLog s logIndex logTerm =
     bindR (myAssert (logIndex \<ge> m_lastSnapshotIncludeIndex s \<and> logIndex \<le> getLastLogIndex s)) (\<lambda>_.
     bindR (getLogTermFromLogIndex s logIndex) (\<lambda>t. Inr (logTerm = t)))"

definition UpToDate :: "Raft \<Rightarrow> int \<Rightarrow> int \<Rightarrow> bool" where
  "UpToDate s idx trm =
     (let (lastIndex, lastTerm) = getLastLogIndexAndTerm s
      in trm > lastTerm \<or> (trm = lastTerm \<and> idx \<ge> lastIndex))"

definition getPrevLogInfo :: "Raft \<Rightarrow> int \<Rightarrow> (int \<times> int) res" where
  "getPrevLogInfo s server =
     bindR (vec_at (m_nextIndex s) server) (\<lambda>nextIndex.
     if nextIndex = m_lastSnapshotIncludeIndex s + 1
     then Inr (m_lastSnapshotIncludeIndex s, m_lastSnapshotIncludeTerm s)
     else bindR (getSlicesIndexFromLogIndex s (nextIndex - 1)) (\<lambda>j.
          bindR (vec_at (m_logs s) j) (\<lambda>e. Inr (nextIndex - 1, logterm e))))"

definition GetState :: "Raft \<Rightarrow> int \<times> bool" where
  "GetState s = (m_currentTerm s, m_status s = Leader)"

definition GetRaftStateSize :: "Raft \<Rightarrow> int" where
  "GetRaftStateSize s = RaftStateSize (m_persister s)"

subsection \<open>Persistence\<close>

definition persistData :: "raft_codec \<Rightarrow> Raft \<Rightarrow> string" where
  "persistData C s =
     oaRaft C \<lparr>bp_currentTerm = m_currentTerm s, bp_votedFor = m_votedFor s,
       bp_lastSnapshotIncludeIndex = m_lastSnapshotIncludeIndex s,
       bp_lastSnapshotIncludeTerm = m_lastSnapshotIncludeTerm s,
       bp_logs = map (SerializeEntry C) (m_logs s)\<rparr>"

definition persist :: "raft_codec \<Rightarrow> Raft \<Rightarrow> Raft" where
  "persist C s = s\<lparr>m_persister := SaveRaftState (persistData C s) (m_persister s)\<rparr>"

definition readPersist :: "raft_codec \<Rightarrow> string \<Rightarrow> Raft \<Rightarrow> Raft res" where
  "readPersist C data s =
     (if data = [] then Inr s
      else case iaRaft C data of
             None \<Rightarrow> Inl ArchiveError
           | Some b \<Rightarrow>
               Inr (s\<lparr>m_currentTerm := bp_currentTerm b, m_votedFor := bp_votedFor b,
                  m_lastSnapshotIncludeIndex := bp_lastSnapshotIncludeIndex b,
                  m_lastSnapshotIncludeTerm := bp_lastSnapshotIncludeTerm b,
                  m_logs := map (ParseEntry C) (bp_logs b)\<rparr>))"

text \<open>
  \<open>Raft::init\<close>: the first part, under the mutex, sets the state and reads the persisted one;
  the second starts the two tickers and the apply thread. The object's vectors start empty.
\<close>

definition raft_init :: "raft_codec \<Rightarrow> nat \<Rightarrow> int \<Rightarrow> Persister \<Rightarrow> ApplyMsg LockQueue \<Rightarrow> int \<Rightarrow> Raft res" where
  "raft_init C peers me persister applyCh now =
     (let s0 = \<lparr>m_peers_size = peers, m_persister = persister, m_me = me, m_currentTerm = 0,
                m_votedFor = -1, m_logs = [], m_commitIndex = 0, m_lastApplied = 0,
                m_nextIndex = replicate peers 0, m_matchIndex = replicate peers 0,
                m_status = Follower, applyChan = applyCh, m_lastResetElectionTime = now,
                m_lastResetHeartBeatTime = now, m_lastSnapshotIncludeIndex = 0,
                m_lastSnapshotIncludeTerm = 0\<rparr>
      in bindR (readPersist C (ReadRaftState persister) s0) (\<lambda>s.
         Inr (if m_lastSnapshotIncludeIndex s > 0
              then s\<lparr>m_lastApplied := m_lastSnapshotIncludeIndex s\<rparr> else s)))"

subsection \<open>The log and its indices\<close>

text \<open>
  \<open>log_wf\<close>: the entries carry consecutive indices, the first one after the snapshot. Every
  index computation of the node relies on it.
\<close>

definition log_wf :: "Raft \<Rightarrow> bool" where
  "log_wf s \<longleftrightarrow>
     (\<forall>j < length (m_logs s). logindex (m_logs s ! j) = m_lastSnapshotIncludeIndex s + 1 + int j)"

definition term_at :: "Raft \<Rightarrow> int \<Rightarrow> int" where
  "term_at s i =
     (if i = m_lastSnapshotIncludeIndex s then m_lastSnapshotIncludeTerm s
      else logterm (m_logs s ! nat (i - m_lastSnapshotIncludeIndex s - 1)))"

definition entry_at :: "Raft \<Rightarrow> int \<Rightarrow> LogEntry" where
  "entry_at s i = m_logs s ! nat (i - m_lastSnapshotIncludeIndex s - 1)"

text \<open>
  \<open>raft_wf\<close>: the node's invariant. Every entry the server was told to apply and every
  committed entry is in the log or in the snapshot, and the leader's vectors have one slot for
  each peer.
\<close>

definition raft_wf :: "Raft \<Rightarrow> bool" where
  "raft_wf s \<longleftrightarrow>
     log_wf s \<and> 0 \<le> m_lastSnapshotIncludeIndex s \<and>
     m_lastSnapshotIncludeIndex s \<le> m_lastApplied s \<and>
     m_commitIndex s \<le> getLastLogIndex s \<and>
     length (m_nextIndex s) = m_peers_size s \<and> length (m_matchIndex s) = m_peers_size s \<and>
     0 \<le> m_me s \<and> m_me s < int (m_peers_size s) \<and> persister_wf (m_persister s)"

lemma getLastLogIndex_wf:
  "log_wf s \<Longrightarrow> getLastLogIndex s = m_lastSnapshotIncludeIndex s + int (length (m_logs s))"
  by (cases "m_logs s" rule: rev_cases)
    (auto simp: log_wf_def getLastLogIndex_def getLastLogIndexAndTerm_def Let_def nth_append)

lemma getLastLogTerm_wf: "log_wf s \<Longrightarrow> getLastLogTerm s = term_at s (getLastLogIndex s)"
  by (cases "m_logs s" rule: rev_cases)
    (auto simp: getLastLogIndex_wf term_at_def getLastLogTerm_def getLastLogIndexAndTerm_def Let_def)

lemma getSlices_eq [res_simps]:
  "getSlicesIndexFromLogIndex s i = Inr j \<longleftrightarrow>
     m_lastSnapshotIncludeIndex s < i \<and> i \<le> getLastLogIndex s \<and>
     j = i - m_lastSnapshotIncludeIndex s - 1"
  by (auto simp: getSlicesIndexFromLogIndex_def)

lemma getSlices_inside:
  "m_lastSnapshotIncludeIndex s < i \<Longrightarrow> i \<le> getLastLogIndex s \<Longrightarrow>
     getSlicesIndexFromLogIndex s i = Inr (i - m_lastSnapshotIncludeIndex s - 1)"
  by (simp add: getSlices_eq)

text \<open>With consecutive indices a position the translation returns is inside the vector.\<close>

lemma slice_in_range:
  "log_wf s \<Longrightarrow> m_lastSnapshotIncludeIndex s < i \<Longrightarrow> i \<le> getLastLogIndex s \<Longrightarrow>
     0 \<le> i - m_lastSnapshotIncludeIndex s - 1 \<and>
     i - m_lastSnapshotIncludeIndex s - 1 < int (length (m_logs s))"
  by (simp add: getLastLogIndex_wf)

lemma slice_vec_at:
  "log_wf s \<Longrightarrow> m_lastSnapshotIncludeIndex s < i \<Longrightarrow> i \<le> getLastLogIndex s \<Longrightarrow>
     vec_at (m_logs s) (i - m_lastSnapshotIncludeIndex s - 1) = Inr (entry_at s i)"
  using slice_in_range [of s i] by (simp add: vec_at_def entry_at_def)

lemma entry_at_index:
  "log_wf s \<Longrightarrow> m_lastSnapshotIncludeIndex s < i \<Longrightarrow> i \<le> getLastLogIndex s \<Longrightarrow>
     logindex (entry_at s i) = i"
  using slice_in_range [of s i] by (simp add: log_wf_def entry_at_def)

lemma getLogTerm_wf:
  assumes "log_wf s"
  shows "getLogTermFromLogIndex s i =
           (if m_lastSnapshotIncludeIndex s \<le> i \<and> i \<le> getLastLogIndex s then Inr (term_at s i)
            else Inl AssertFailed)"
proof -
  consider (out) "\<not> (m_lastSnapshotIncludeIndex s \<le> i \<and> i \<le> getLastLogIndex s)"
    | (snap) "i = m_lastSnapshotIncludeIndex s" "i \<le> getLastLogIndex s"
    | (log) "m_lastSnapshotIncludeIndex s < i" "i \<le> getLastLogIndex s"
    by linarith
  then show ?thesis
  proof cases
    case log
    then show ?thesis
      by (simp add: getLogTermFromLogIndex_def getSlices_inside slice_vec_at [OF assms] entry_at_def
          term_at_def)
  qed (auto simp: getLogTermFromLogIndex_def term_at_def)
qed

lemma matchLog_wf:
  assumes "log_wf s"
  shows "matchLog s i t =
           (if m_lastSnapshotIncludeIndex s \<le> i \<and> i \<le> getLastLogIndex s
            then Inr (t = term_at s i) else Inl AssertFailed)"
  by (simp add: matchLog_def getLogTerm_wf [OF assms])

subsection \<open>Persisting changes the persister only\<close>

lemma persist_frame [simp]:
  "m_peers_size (persist C s) = m_peers_size s" "m_me (persist C s) = m_me s"
  "m_currentTerm (persist C s) = m_currentTerm s" "m_votedFor (persist C s) = m_votedFor s"
  "m_logs (persist C s) = m_logs s" "m_commitIndex (persist C s) = m_commitIndex s"
  "m_lastApplied (persist C s) = m_lastApplied s" "m_nextIndex (persist C s) = m_nextIndex s"
  "m_matchIndex (persist C s) = m_matchIndex s" "m_status (persist C s) = m_status s"
  "applyChan (persist C s) = applyChan s"
  "m_lastResetElectionTime (persist C s) = m_lastResetElectionTime s"
  "m_lastResetHeartBeatTime (persist C s) = m_lastResetHeartBeatTime s"
  "m_lastSnapshotIncludeIndex (persist C s) = m_lastSnapshotIncludeIndex s"
  "m_lastSnapshotIncludeTerm (persist C s) = m_lastSnapshotIncludeTerm s"
  "m_persister (persist C s) = SaveRaftState (persistData C s) (m_persister s)"
  by (simp_all add: persist_def)

lemma log_queries_cong:
  assumes "m_logs s = m_logs t" "m_lastSnapshotIncludeIndex s = m_lastSnapshotIncludeIndex t"
    "m_lastSnapshotIncludeTerm s = m_lastSnapshotIncludeTerm t"
  shows "getLastLogIndexAndTerm s = getLastLogIndexAndTerm t"
    "getLastLogIndex s = getLastLogIndex t" "log_wf s = log_wf t" "term_at s = term_at t"
    "entry_at s = entry_at t"
  using assms
  by (auto simp: getLastLogIndexAndTerm_def getLastLogIndex_def log_wf_def term_at_def entry_at_def
      fun_eq_iff)

text \<open>The log queries read the log and the snapshot position only.\<close>

lemma log_queries_update [simp]:
  "getLastLogIndexAndTerm (s\<lparr>m_status := x0\<rparr>) = getLastLogIndexAndTerm s"
  "getLastLogIndexAndTerm (s\<lparr>m_currentTerm := x1\<rparr>) = getLastLogIndexAndTerm s"
  "getLastLogIndexAndTerm (s\<lparr>m_votedFor := x2\<rparr>) = getLastLogIndexAndTerm s"
  "getLastLogIndexAndTerm (s\<lparr>m_commitIndex := x3\<rparr>) = getLastLogIndexAndTerm s"
  "getLastLogIndexAndTerm (s\<lparr>m_lastApplied := x4\<rparr>) = getLastLogIndexAndTerm s"
  "getLastLogIndexAndTerm (s\<lparr>m_nextIndex := x5\<rparr>) = getLastLogIndexAndTerm s"
  "getLastLogIndexAndTerm (s\<lparr>m_matchIndex := x6\<rparr>) = getLastLogIndexAndTerm s"
  "getLastLogIndexAndTerm (s\<lparr>applyChan := x7\<rparr>) = getLastLogIndexAndTerm s"
  "getLastLogIndexAndTerm (s\<lparr>m_lastResetElectionTime := x8\<rparr>) = getLastLogIndexAndTerm s"
  "getLastLogIndexAndTerm (s\<lparr>m_lastResetHeartBeatTime := x9\<rparr>) = getLastLogIndexAndTerm s"
  "getLastLogIndexAndTerm (s\<lparr>m_persister := x10\<rparr>) = getLastLogIndexAndTerm s"
  "getLastLogIndex (s\<lparr>m_status := x0\<rparr>) = getLastLogIndex s"
  "getLastLogIndex (s\<lparr>m_currentTerm := x1\<rparr>) = getLastLogIndex s"
  "getLastLogIndex (s\<lparr>m_votedFor := x2\<rparr>) = getLastLogIndex s"
  "getLastLogIndex (s\<lparr>m_commitIndex := x3\<rparr>) = getLastLogIndex s"
  "getLastLogIndex (s\<lparr>m_lastApplied := x4\<rparr>) = getLastLogIndex s"
  "getLastLogIndex (s\<lparr>m_nextIndex := x5\<rparr>) = getLastLogIndex s"
  "getLastLogIndex (s\<lparr>m_matchIndex := x6\<rparr>) = getLastLogIndex s"
  "getLastLogIndex (s\<lparr>applyChan := x7\<rparr>) = getLastLogIndex s"
  "getLastLogIndex (s\<lparr>m_lastResetElectionTime := x8\<rparr>) = getLastLogIndex s"
  "getLastLogIndex (s\<lparr>m_lastResetHeartBeatTime := x9\<rparr>) = getLastLogIndex s"
  "getLastLogIndex (s\<lparr>m_persister := x10\<rparr>) = getLastLogIndex s"
  "getLastLogTerm (s\<lparr>m_status := x0\<rparr>) = getLastLogTerm s"
  "getLastLogTerm (s\<lparr>m_currentTerm := x1\<rparr>) = getLastLogTerm s"
  "getLastLogTerm (s\<lparr>m_votedFor := x2\<rparr>) = getLastLogTerm s"
  "getLastLogTerm (s\<lparr>m_commitIndex := x3\<rparr>) = getLastLogTerm s"
  "getLastLogTerm (s\<lparr>m_lastApplied := x4\<rparr>) = getLastLogTerm s"
  "getLastLogTerm (s\<lparr>m_nextIndex := x5\<rparr>) = getLastLogTerm s"
  "getLastLogTerm (s\<lparr>m_matchIndex := x6\<rparr>) = getLastLogTerm s"
  "getLastLogTerm (s\<lparr>applyChan := x7\<rparr>) = getLastLogTerm s"
  "getLastLogTerm (s\<lparr>m_lastResetElectionTime := x8\<rparr>) = getLastLogTerm s"
  "getLastLogTerm (s\<lparr>m_lastResetHeartBeatTime := x9\<rparr>) = getLastLogTerm s"
  "getLastLogTerm (s\<lparr>m_persister := x10\<rparr>) = getLastLogTerm s"
  "log_wf (s\<lparr>m_status := x0\<rparr>) = log_wf s"
  "log_wf (s\<lparr>m_currentTerm := x1\<rparr>) = log_wf s"
  "log_wf (s\<lparr>m_votedFor := x2\<rparr>) = log_wf s"
  "log_wf (s\<lparr>m_commitIndex := x3\<rparr>) = log_wf s"
  "log_wf (s\<lparr>m_lastApplied := x4\<rparr>) = log_wf s"
  "log_wf (s\<lparr>m_nextIndex := x5\<rparr>) = log_wf s"
  "log_wf (s\<lparr>m_matchIndex := x6\<rparr>) = log_wf s"
  "log_wf (s\<lparr>applyChan := x7\<rparr>) = log_wf s"
  "log_wf (s\<lparr>m_lastResetElectionTime := x8\<rparr>) = log_wf s"
  "log_wf (s\<lparr>m_lastResetHeartBeatTime := x9\<rparr>) = log_wf s"
  "log_wf (s\<lparr>m_persister := x10\<rparr>) = log_wf s"
  "term_at (s\<lparr>m_status := x0\<rparr>) = term_at s"
  "term_at (s\<lparr>m_currentTerm := x1\<rparr>) = term_at s"
  "term_at (s\<lparr>m_votedFor := x2\<rparr>) = term_at s"
  "term_at (s\<lparr>m_commitIndex := x3\<rparr>) = term_at s"
  "term_at (s\<lparr>m_lastApplied := x4\<rparr>) = term_at s"
  "term_at (s\<lparr>m_nextIndex := x5\<rparr>) = term_at s"
  "term_at (s\<lparr>m_matchIndex := x6\<rparr>) = term_at s"
  "term_at (s\<lparr>applyChan := x7\<rparr>) = term_at s"
  "term_at (s\<lparr>m_lastResetElectionTime := x8\<rparr>) = term_at s"
  "term_at (s\<lparr>m_lastResetHeartBeatTime := x9\<rparr>) = term_at s"
  "term_at (s\<lparr>m_persister := x10\<rparr>) = term_at s"
  "entry_at (s\<lparr>m_status := x0\<rparr>) = entry_at s"
  "entry_at (s\<lparr>m_currentTerm := x1\<rparr>) = entry_at s"
  "entry_at (s\<lparr>m_votedFor := x2\<rparr>) = entry_at s"
  "entry_at (s\<lparr>m_commitIndex := x3\<rparr>) = entry_at s"
  "entry_at (s\<lparr>m_lastApplied := x4\<rparr>) = entry_at s"
  "entry_at (s\<lparr>m_nextIndex := x5\<rparr>) = entry_at s"
  "entry_at (s\<lparr>m_matchIndex := x6\<rparr>) = entry_at s"
  "entry_at (s\<lparr>applyChan := x7\<rparr>) = entry_at s"
  "entry_at (s\<lparr>m_lastResetElectionTime := x8\<rparr>) = entry_at s"
  "entry_at (s\<lparr>m_lastResetHeartBeatTime := x9\<rparr>) = entry_at s"
  "entry_at (s\<lparr>m_persister := x10\<rparr>) = entry_at s"
  by (simp_all add: getLastLogIndexAndTerm_def getLastLogIndex_def getLastLogTerm_def log_wf_def
      term_at_def entry_at_def fun_eq_iff)

lemma persist_log_queries [simp]:
  "getLastLogIndexAndTerm (persist C s) = getLastLogIndexAndTerm s"
  "getLastLogIndex (persist C s) = getLastLogIndex s"
  "log_wf (persist C s) = log_wf s"
  "term_at (persist C s) = term_at s"
  by (rule log_queries_cong; simp)+

lemma raft_wf_persist [simp]: "raft_wf (persist C s) = raft_wf s" if "persister_wf (m_persister s)"
  using that by (simp add: raft_wf_def persister_wf_SaveRaftState)

lemma raft_wf_persistI [inv_intros]: "raft_wf s \<Longrightarrow> raft_wf (persist C s)"
  by (simp add: raft_wf_def persister_wf_SaveRaftState)

subsection \<open>The initial state\<close>

lemma raft_init_fresh:
  "raft_init C peers me (Persister_ctor r sn) ch now =
     Inr \<lparr>m_peers_size = peers, m_persister = Persister_ctor r sn, m_me = me, m_currentTerm = 0,
          m_votedFor = -1, m_logs = [], m_commitIndex = 0, m_lastApplied = 0,
          m_nextIndex = replicate peers 0, m_matchIndex = replicate peers 0,
          m_status = Follower, applyChan = ch, m_lastResetElectionTime = now,
          m_lastResetHeartBeatTime = now, m_lastSnapshotIncludeIndex = 0,
          m_lastSnapshotIncludeTerm = 0\<rparr>"
proof -
  have "ReadRaftState (Persister_ctor r sn) = []"
    by (simp add: ReadRaftState_def Persister_ctor_def stream_defs)
  then show ?thesis by (simp add: raft_init_def readPersist_def Let_def)
qed

lemma raft_wf_init:
  assumes "raft_init C peers me (Persister_ctor r sn) ch now = Inr s" and "0 \<le> me" "me < int peers"
  shows "raft_wf s"
  using assms
  by (auto simp: raft_init_fresh raft_wf_def log_wf_def getLastLogIndex_def
      getLastLogIndexAndTerm_def persister_wf_ctor)

subsection \<open>A node for concrete runs\<close>

text \<open>
  \<open>codec0\<close> stands for the encoders in the closed examples; \<open>node0 n me\<close> is node \<open>me\<close> of a fresh
  cluster of \<open>n\<close> nodes after \<open>raft_init\<close>.
\<close>

definition codec0 :: raft_codec where
  "codec0 = \<lparr>SerializeEntry = command, ParseEntry = (\<lambda>s. \<lparr>command = s, logterm = 0, logindex = 0\<rparr>),
     oaRaft = (\<lambda>b. ''22''), iaRaft = (\<lambda>s. None), oaOp = key,
     iaOp = (\<lambda>s. Some \<lparr>operation = ''Put'', key = s, opvalue = ''v'', clientId = ''c'', requestId = 1\<rparr>)\<rparr>"

definition node0 :: "nat \<Rightarrow> int \<Rightarrow> Raft" where
  "node0 n me = \<lparr>m_peers_size = n, m_persister = Persister_ctor None None, m_me = me,
     m_currentTerm = 0, m_votedFor = -1, m_logs = [], m_commitIndex = 0, m_lastApplied = 0,
     m_nextIndex = replicate n 0, m_matchIndex = replicate n 0, m_status = Follower,
     applyChan = newLockQueue, m_lastResetElectionTime = 0, m_lastResetHeartBeatTime = 0,
     m_lastSnapshotIncludeIndex = 0, m_lastSnapshotIncludeTerm = 0\<rparr>"

lemma node0_init: "raft_init C n me (Persister_ctor None None) newLockQueue 0 = Inr (node0 n me)"
  by (simp add: raft_init_fresh node0_def)

lemma raft_wf_node0: "0 \<le> me \<Longrightarrow> me < int n \<Longrightarrow> raft_wf (node0 n me)"
  by (rule raft_wf_init [OF node0_init])

text \<open>The message for a command.\<close>

definition cmd_msg :: "string \<Rightarrow> int \<Rightarrow> ApplyMsg" where
  "cmd_msg cmd i = newApplyMsg\<lparr>CommandValid := True, Command := cmd, CommandIndex := i\<rparr>"

lemma cmd_msg_simps [simp]: "CommandValid (cmd_msg c i)" "\<not> SnapShotValid (cmd_msg c i)"
  "Command (cmd_msg c i) = c" "CommandIndex (cmd_msg c i) = i"
  by (simp_all add: cmd_msg_def newApplyMsg_def)

end
