(* ===== verification/RaftFollower.thy ===== *)
theory RaftFollower
  imports RaftState
begin

text \<open>
  raft.cpp: the handlers a node runs for the calls of other nodes, \<open>AppendEntries1\<close>,
  \<open>RequestVote\<close> and \<open>InstallSnapshot\<close>, each with the reply it fills and the state it leaves.
  \<open>now\<close> is the value of the clock the handler reads. A \<open>DEFER\<close> block runs on every path that
  returns after it, so its \<open>persist\<close> is applied to the state of that path; a failed
  \<open>myAssert\<close> ends the process and runs no destructor.
\<close>

subsection \<open>AppendEntries\<close>

text \<open>One round of the loop over the received entries.\<close>

definition ae_entry :: "LogEntry \<Rightarrow> Raft \<Rightarrow> Raft res" where
  "ae_entry log s =
     (if logindex log > getLastLogIndex s then Inr (s\<lparr>m_logs := m_logs s @ [log]\<rparr>)
      else
        bindR (getSlicesIndexFromLogIndex s (logindex log)) (\<lambda>j.
        bindR (vec_at (m_logs s) j) (\<lambda>e.
        bindR (myAssert (\<not> (logterm e = logterm log \<and> command e \<noteq> command log))) (\<lambda>_.
        bindR (getLogTermFromLogIndex s (logindex log)) (\<lambda>t.
        bindR (vec_at (m_logs s) t) (\<lambda>e'.
        if logterm e' \<noteq> logterm log
        then bindR (vec_put (m_logs s) t (e'\<lparr>logterm := logterm log\<rparr>)) (\<lambda>ls. Inr (s\<lparr>m_logs := ls\<rparr>))
        else Inr s))))))"

text \<open>
  The scan that looks for the last index whose term differs from the term at \<open>prev\<close>; \<open>upd\<close> is
  the value of \<open>updatenextindex\<close> set before the loop.
\<close>

function conflict_scan :: "Raft \<Rightarrow> int \<Rightarrow> int \<Rightarrow> int \<Rightarrow> int res" where
  "conflict_scan s prev index upd =
     (if index \<ge> m_lastSnapshotIncludeIndex s then
        bindR (getLogTermFromLogIndex s index) (\<lambda>t.
        bindR (getLogTermFromLogIndex s prev) (\<lambda>tp.
        if t \<noteq> tp then Inr (index + 1) else conflict_scan s prev (index - 1) upd))
      else Inr upd)"
  by pat_completeness auto
termination
  by (relation "measure (\<lambda>(s, prev, index, upd). nat (index - m_lastSnapshotIncludeIndex s + 1))")
    auto

declare conflict_scan.simps [simp del]

text \<open>The part after the term check, on the state that has already become a follower.\<close>

definition ae_log ::
  "AppendEntriesArgs \<Rightarrow> AppendEntriesReply \<Rightarrow> Raft \<Rightarrow> (AppendEntriesReply \<times> Raft) res" where
  "ae_log args reply s =
     (let prev = aea_prevlogindex args in
      if prev > getLastLogIndex s then
        Inr (reply\<lparr>aer_success := False, aer_term := m_currentTerm s,
                   aer_updatenextindex := getLastLogTerm s + 1\<rparr>, s)
      else if prev < m_lastSnapshotIncludeIndex s then
        Inr (reply\<lparr>aer_success := False, aer_term := m_currentTerm s,
                   aer_updatenextindex := m_lastSnapshotIncludeIndex s + 1\<rparr>, s)
      else
        bindR (matchLog s prev (aea_prevlogterm args)) (\<lambda>matches.
        if matches then
          bindR (foldR ae_entry (aea_entries args) s) (\<lambda>s1.
          bindR (myAssert (getLastLogIndex s1 \<ge> prev + int (length (aea_entries args)))) (\<lambda>_.
          let s2 = (if aea_leadercommit args > m_commitIndex s1
                    then s1\<lparr>m_commitIndex := min (aea_leadercommit args) (getLastLogIndex s1)\<rparr>
                    else s1) in
          bindR (myAssert (getLastLogIndex s2 \<ge> m_commitIndex s2)) (\<lambda>_.
          Inr (reply\<lparr>aer_success := True, aer_term := m_currentTerm s2\<rparr>, s2))))
        else
          bindR (conflict_scan s prev prev prev) (\<lambda>upd.
          Inr (reply\<lparr>aer_updatenextindex := upd, aer_success := False,
                     aer_term := m_currentTerm s\<rparr>, s))))"

definition AppendEntries1 ::
  "raft_codec \<Rightarrow> int \<Rightarrow> AppendEntriesArgs \<Rightarrow> AppendEntriesReply \<Rightarrow> Raft \<Rightarrow>
     (AppendEntriesReply \<times> Raft) res" where
  "AppendEntries1 C now args reply0 s0 =
     (let reply = reply0\<lparr>aer_appstate := AppNormal\<rparr> in
      if aea_term args < m_currentTerm s0 then
        Inr (reply\<lparr>aer_success := False, aer_term := m_currentTerm s0,
                   aer_updatenextindex := -100\<rparr>, s0)
      else
        let s1 = (if aea_term args > m_currentTerm s0
                  then s0\<lparr>m_status := Follower, m_currentTerm := aea_term args, m_votedFor := -1\<rparr>
                  else s0) in
        bindR (myAssert (aea_term args = m_currentTerm s1)) (\<lambda>_.
        let s2 = s1\<lparr>m_status := Follower, m_lastResetElectionTime := now\<rparr> in
        bindR (ae_log args reply s2) (\<lambda>(reply', s'). Inr (reply', persist C s'))))"

subsection \<open>RequestVote\<close>

definition RequestVote ::
  "raft_codec \<Rightarrow> int \<Rightarrow> RequestVoteArgs \<Rightarrow> RequestVoteReply \<Rightarrow> Raft \<Rightarrow>
     (RequestVoteReply \<times> Raft) res" where
  "RequestVote C now args reply s0 =
     (if rva_term args < m_currentTerm s0 then
        Inr (reply\<lparr>rvr_term := m_currentTerm s0, rvr_votestate := Expire, rvr_votegranted := False\<rparr>,
             persist C s0)
      else
        let s1 = (if rva_term args > m_currentTerm s0
                  then s0\<lparr>m_status := Follower, m_currentTerm := rva_term args, m_votedFor := -1\<rparr>
                  else s0) in
        bindR (myAssert (rva_term args = m_currentTerm s1)) (\<lambda>_.
        if \<not> UpToDate s1 (rva_lastlogindex args) (rva_lastlogterm args) then
          Inr (reply\<lparr>rvr_term := m_currentTerm s1, rvr_votestate := Voted, rvr_votegranted := False\<rparr>,
               persist C s1)
        else if m_votedFor s1 \<noteq> -1 \<and> m_votedFor s1 \<noteq> rva_candidateid args then
          Inr (reply\<lparr>rvr_term := m_currentTerm s1, rvr_votestate := Voted, rvr_votegranted := False\<rparr>,
               persist C s1)
        else
          let s2 = s1\<lparr>m_votedFor := rva_candidateid args, m_lastResetElectionTime := now\<rparr> in
          Inr (reply\<lparr>rvr_term := m_currentTerm s2, rvr_votestate := Normal, rvr_votegranted := True\<rparr>,
               persist C s2)))"

subsection \<open>InstallSnapshot\<close>

text \<open>
  \<open>vector::erase\<close> of the first \<open>n\<close> elements; a range past the end is undefined behaviour.
\<close>

definition erase_front :: "'a list \<Rightarrow> int \<Rightarrow> 'a list res" where
  "erase_front xs n = (if 0 \<le> n \<and> n \<le> int (length xs) then Inr (drop (nat n) xs) else Inl BadErase)"

definition InstallSnapshot ::
  "raft_codec \<Rightarrow> int \<Rightarrow> InstallSnapshotRequest \<Rightarrow> InstallSnapShotResponse \<Rightarrow> Raft \<Rightarrow>
     (InstallSnapShotResponse \<times> Raft) res" where
  "InstallSnapshot C now args reply s0 =
     (if isr_term args < m_currentTerm s0 then Inr (reply\<lparr>isp_term := m_currentTerm s0\<rparr>, s0)
      else
        let s1 = (if isr_term args > m_currentTerm s0
                  then persist C (s0\<lparr>m_currentTerm := isr_term args, m_votedFor := -1,
                                     m_status := Follower\<rparr>)
                  else s0);
            s2 = s1\<lparr>m_status := Follower, m_lastResetElectionTime := now\<rparr>;
            idx = isr_lastsnapshotincludeindex args
        in if idx \<le> m_lastSnapshotIncludeIndex s2 then Inr (reply, s2)
           else
             bindR (if getLastLogIndex s2 > idx
                    then bindR (getSlicesIndexFromLogIndex s2 idx) (\<lambda>j. erase_front (m_logs s2) (j + 1))
                    else Inr []) (\<lambda>logs.
             let s3 = s2\<lparr>m_logs := logs, m_commitIndex := max (m_commitIndex s2) idx,
                         m_lastApplied := max (m_lastApplied s2) idx,
                         m_lastSnapshotIncludeIndex := idx,
                         m_lastSnapshotIncludeTerm := isr_lastsnapshotincludeterm args\<rparr>;
                 msg = newApplyMsg\<lparr>SnapShotValid := True, Snapshot_data := isr_data args,
                         SnapshotTerm := isr_lastsnapshotincludeterm args, SnapshotIndex := idx\<rparr>;
                 s4 = s3\<lparr>applyChan := Push msg (applyChan s3)\<rparr>
             in Inr (reply\<lparr>isp_term := m_currentTerm s3\<rparr>,
                     s4\<lparr>m_persister := Save (persistData C s4) (isr_data args) (m_persister s4)\<rparr>)))"

definition CondInstallSnapshot :: "int \<Rightarrow> int \<Rightarrow> string \<Rightarrow> bool" where
  "CondInstallSnapshot lastIncludedTerm lastIncludedIndex snapshot = True"

subsection \<open>Terms and votes\<close>

text \<open>
  \<open>vote_keeps\<close>: from \<open>s\<close> to \<open>t\<close> the term does not go back, and within a term a vote that was
  given is not taken back.
\<close>

definition vote_keeps :: "Raft \<Rightarrow> Raft \<Rightarrow> bool" where
  "vote_keeps s t \<longleftrightarrow>
     m_currentTerm s < m_currentTerm t \<or>
     (m_currentTerm s = m_currentTerm t \<and> (m_votedFor t = m_votedFor s \<or> m_votedFor s = -1))"

lemma vote_keeps_refl [simp]: "vote_keeps s s"
  by (simp add: vote_keeps_def)

lemma vote_keeps_trans: "vote_keeps s t \<Longrightarrow> vote_keeps t u \<Longrightarrow> vote_keeps s u"
  by (auto simp: vote_keeps_def)

lemma vote_keeps_persist [simp]: "vote_keeps s (persist C t) = vote_keeps s t"
  by (simp add: vote_keeps_def)

lemma RequestVote_vote_keeps:
  "RequestVote C now args reply s = Inr (r, t) \<Longrightarrow> vote_keeps s t"
  by (auto simp: RequestVote_def vote_keeps_def Let_def split: if_splits)

lemma RequestVote_total: "\<exists>r t. RequestVote C now args reply s = Inr (r, t)"
  by (auto simp: RequestVote_def Let_def)

lemma RequestVote_reply_term:
  assumes "RequestVote C now args reply s = Inr (r, t)"
  shows "rvr_term r = m_currentTerm t" and "rva_term args \<le> m_currentTerm t"
  using assms by (auto simp: RequestVote_def Let_def split: if_splits)

text \<open>What a granted vote means.\<close>

lemma RequestVote_granted:
  assumes "RequestVote C now args reply s = Inr (r, t)" and "rvr_votegranted r"
  shows "m_currentTerm t = rva_term args \<and> m_votedFor t = rva_candidateid args \<and>
         UpToDate s (rva_lastlogindex args) (rva_lastlogterm args) \<and>
         (m_currentTerm s = rva_term args \<longrightarrow>
            m_votedFor s = -1 \<or> m_votedFor s = rva_candidateid args)"
  using assms
  by (auto simp: RequestVote_def Let_def UpToDate_def getLastLogIndexAndTerm_def split: if_splits)

lemma RequestVote_frame:
  assumes "RequestVote C now args reply s = Inr (r, t)"
  shows "m_logs t = m_logs s" "m_commitIndex t = m_commitIndex s" "m_lastApplied t = m_lastApplied s"
    "m_lastSnapshotIncludeIndex t = m_lastSnapshotIncludeIndex s"
    "m_lastSnapshotIncludeTerm t = m_lastSnapshotIncludeTerm s"
    "m_peers_size t = m_peers_size s" "m_me t = m_me s" "m_nextIndex t = m_nextIndex s"
    "m_matchIndex t = m_matchIndex s" "applyChan t = applyChan s"
    "\<exists>u. m_persister t = SaveRaftState u (m_persister s)"
  using assms by (auto simp: RequestVote_def Let_def split: if_splits)

lemma RequestVote_status:
  assumes "RequestVote C now args reply s = Inr (r, t)"
  shows "m_status t = m_status s \<and> m_currentTerm t = m_currentTerm s \<or> m_status t = Follower"
  using assms by (auto simp: RequestVote_def Let_def split: if_splits)

lemma raft_wf_log_frame:
  assumes "raft_wf s" "m_logs t = m_logs s" "m_commitIndex t = m_commitIndex s"
    "m_lastApplied t = m_lastApplied s"
    "m_lastSnapshotIncludeIndex t = m_lastSnapshotIncludeIndex s"
    "m_lastSnapshotIncludeTerm t = m_lastSnapshotIncludeTerm s"
    "m_peers_size t = m_peers_size s" "m_me t = m_me s" "length (m_nextIndex t) = m_peers_size s"
    "length (m_matchIndex t) = m_peers_size s" "persister_wf (m_persister t)"
  shows "raft_wf t"
proof -
  have "getLastLogIndex t = getLastLogIndex s" "log_wf t = log_wf s"
    using assms by (simp_all add: log_queries_cong(2,3) [of t s])
  then show ?thesis using assms by (simp add: raft_wf_def)
qed

lemma raft_wf_RequestVote [inv_intros]:
  assumes "raft_wf s" "RequestVote C now args reply s = Inr (r, t)"
  shows "raft_wf t"
proof -
  from RequestVote_frame(11) [OF assms(2)] obtain u where
    "m_persister t = SaveRaftState u (m_persister s)" ..
  then have "persister_wf (m_persister t)"
    using assms(1) by (simp add: raft_wf_def persister_wf_SaveRaftState)
  with assms show ?thesis
    by (intro raft_wf_log_frame [OF assms(1)]) (auto simp: RequestVote_frame raft_wf_def)
qed

subsection \<open>The log under AppendEntries\<close>

definition entries_wf :: "int \<Rightarrow> LogEntry list \<Rightarrow> bool" where
  "entries_wf prev es \<longleftrightarrow> (\<forall>k < length es. logindex (es ! k) = prev + 1 + int k)"

lemma entries_wf_Cons:
  "entries_wf prev (e # es) \<longleftrightarrow> logindex e = prev + 1 \<and> entries_wf (prev + 1) es"
  by (simp add: entries_wf_def All_less_Suc2 algebra_simps)

lemma ae_entry_cases:
  assumes "ae_entry log s = Inr t"
  obtains (append) "logindex log > getLastLogIndex s" "t = s\<lparr>m_logs := m_logs s @ [log]\<rparr>"
    | (keep) "logindex log \<le> getLastLogIndex s" "t = s"
    | (retag) j where "logindex log \<le> getLastLogIndex s" "j < length (m_logs s)"
        "t = s\<lparr>m_logs := (m_logs s)[j := (m_logs s ! j)\<lparr>logterm := logterm log\<rparr>]\<rparr>"
proof (cases "logindex log > getLastLogIndex s")
  case True
  with assms have "t = s\<lparr>m_logs := m_logs s @ [log]\<rparr>" by (simp add: ae_entry_def)
  with True show ?thesis by (rule append)
next
  case False
  with assms obtain i e where e: "vec_at (m_logs s) i = Inr e"
    "(if logterm e \<noteq> logterm log
      then bindR (vec_put (m_logs s) i (e\<lparr>logterm := logterm log\<rparr>)) (\<lambda>ls. Inr (s\<lparr>m_logs := ls\<rparr>))
      else Inr s) = Inr t"
    unfolding ae_entry_def by (auto elim!: bindR_InrE simp: if_Inl_eq_Inr simp del: bindR.simps)
  from e(1) have i: "0 \<le> i" "i < int (length (m_logs s))" "e = m_logs s ! nat i"
    by (simp_all add: res_simps)
  with e(2) have t: "t = (if logterm e \<noteq> logterm log
      then s\<lparr>m_logs := (m_logs s)[nat i := e\<lparr>logterm := logterm log\<rparr>]\<rparr> else s)"
    by (simp add: vec_put_inside split: if_splits)
  from False have le: "logindex log \<le> getLastLogIndex s" by simp
  show ?thesis
  proof (cases "logterm e = logterm log")
    case True
    with t have "t = s" by simp
    with le show ?thesis by (rule keep)
  next
    case False
    with t i(3) have "t = s\<lparr>m_logs := (m_logs s)[nat i := (m_logs s ! nat i)\<lparr>logterm := logterm log\<rparr>]\<rparr>"
      by simp
    moreover from i have "nat i < length (m_logs s)" by linarith
    ultimately show ?thesis using le by (intro retag)
  qed
qed

lemma map_update_same: "f x = f (xs ! j) \<Longrightarrow> map f (xs[j := x]) = map f xs"
  by (cases "j < length xs") (auto simp: map_update intro: nth_equalityI simp: nth_list_update)

lemma ae_entry_frame:
  assumes "ae_entry log s = Inr t"
  shows "\<exists>ls suffix. t = s\<lparr>m_logs := ls\<rparr> \<and> map command ls = map command (m_logs s) @ suffix"
  using assms
proof (cases rule: ae_entry_cases)
  case append
  then show ?thesis by (intro exI [of _ "m_logs s @ [log]"] exI [of _ "[command log]"]) simp
next
  case keep
  then show ?thesis by (intro exI [of _ "m_logs s"] exI [of _ "[]"]) simp
next
  case (retag j)
  then show ?thesis
    by (intro exI [of _ "(m_logs s)[j := (m_logs s ! j)\<lparr>logterm := logterm log\<rparr>]"] exI [of _ "[]"])
      (simp add: map_update_same)
qed

text \<open>
  The received entries never remove or replace a command: the old commands are a prefix of the
  new ones.
\<close>

lemma ae_entries_frame:
  assumes "foldR ae_entry es s = Inr t"
  shows "\<exists>ls suffix. t = s\<lparr>m_logs := ls\<rparr> \<and> map command ls = map command (m_logs s) @ suffix"
  using assms
proof (induction es arbitrary: s)
  case Nil
  then show ?case by (intro exI [of _ "m_logs s"] exI [of _ "[]"]) auto
next
  case (Cons e es)
  then obtain u where u: "ae_entry e s = Inr u" "foldR ae_entry es u = Inr t"
    by (auto simp: res_simps)
  from ae_entry_frame [OF u(1)] Cons.IH [OF u(2)] show ?case by fastforce
qed

text \<open>
  The two ways the log part returns: a rejection, which changes nothing, or an acceptance.
\<close>

definition ae_commit :: "int \<Rightarrow> Raft \<Rightarrow> Raft" where
  "ae_commit lc s =
     (if lc > m_commitIndex s then s\<lparr>m_commitIndex := min lc (getLastLogIndex s)\<rparr> else s)"

lemma ae_log_cases:
  assumes "ae_log args reply s = Inr (r, t)"
  obtains (ahead) "aea_prevlogindex args > getLastLogIndex s" "t = s"
      "r = reply\<lparr>aer_success := False, aer_term := m_currentTerm s,
                 aer_updatenextindex := getLastLogTerm s + 1\<rparr>"
    | (behind) "aea_prevlogindex args \<le> getLastLogIndex s"
      "aea_prevlogindex args < m_lastSnapshotIncludeIndex s" "t = s"
      "r = reply\<lparr>aer_success := False, aer_term := m_currentTerm s,
                 aer_updatenextindex := m_lastSnapshotIncludeIndex s + 1\<rparr>"
    | (accept) s1 where "aea_prevlogindex args \<le> getLastLogIndex s"
      "m_lastSnapshotIncludeIndex s \<le> aea_prevlogindex args"
      "matchLog s (aea_prevlogindex args) (aea_prevlogterm args) = Inr True"
      "foldR ae_entry (aea_entries args) s = Inr s1"
      "getLastLogIndex s1 \<ge> aea_prevlogindex args + int (length (aea_entries args))"
      "t = ae_commit (aea_leadercommit args) s1" "m_commitIndex t \<le> getLastLogIndex t"
      "r = reply\<lparr>aer_success := True, aer_term := m_currentTerm t\<rparr>"
    | (conflict) u where "aea_prevlogindex args \<le> getLastLogIndex s"
      "m_lastSnapshotIncludeIndex s \<le> aea_prevlogindex args"
      "matchLog s (aea_prevlogindex args) (aea_prevlogterm args) = Inr False"
      "conflict_scan s (aea_prevlogindex args) (aea_prevlogindex args) (aea_prevlogindex args) = Inr u"
      "t = s"
      "r = reply\<lparr>aer_updatenextindex := u, aer_success := False, aer_term := m_currentTerm s\<rparr>"
proof (cases "aea_prevlogindex args > getLastLogIndex s \<or>
              aea_prevlogindex args < m_lastSnapshotIncludeIndex s")
  case True
  with assms show ?thesis using ahead behind by (auto simp: ae_log_def Let_def split: if_splits)
next
  case False
  then have range: "aea_prevlogindex args \<le> getLastLogIndex s"
    "m_lastSnapshotIncludeIndex s \<le> aea_prevlogindex args" by auto
  with assms obtain b where b: "matchLog s (aea_prevlogindex args) (aea_prevlogterm args) = Inr b"
    by (auto simp: ae_log_def Let_def elim!: bindR_InrE simp del: bindR.simps)
  show ?thesis
  proof (cases b)
    case False
    from assms b range show ?thesis
      using conflict [OF range]
      by (auto simp: False ae_log_def Let_def elim!: bindR_InrE)
  next
    case True
    have m: "matchLog s (aea_prevlogindex args) (aea_prevlogterm args) = Inr True"
      using b True by simp
    from assms b range True obtain s1 where s1:
      "foldR ae_entry (aea_entries args) s = Inr s1"
      "getLastLogIndex s1 \<ge> aea_prevlogindex args + int (length (aea_entries args))"
      "getLastLogIndex (ae_commit (aea_leadercommit args) s1)
         \<ge> m_commitIndex (ae_commit (aea_leadercommit args) s1)"
      "Inr (reply\<lparr>aer_success := True,
                  aer_term := m_currentTerm (ae_commit (aea_leadercommit args) s1)\<rparr>,
            ae_commit (aea_leadercommit args) s1) = (Inr (r, t) :: (AppendEntriesReply \<times> Raft) res)"
      unfolding ae_log_def Let_def ae_commit_def [symmetric]
      by (auto simp: if_Inl_eq_Inr elim!: bindR_InrE simp del: bindR.simps)
    from s1(4) have "t = ae_commit (aea_leadercommit args) s1"
      "r = reply\<lparr>aer_success := True, aer_term := m_currentTerm t\<rparr>" by auto
    with s1 m show ?thesis by (intro accept [OF range]) auto
  qed
qed

lemma ae_commit_frame: "\<exists>c. ae_commit lc s = s\<lparr>m_commitIndex := c\<rparr>"
proof (cases "lc > m_commitIndex s")
  case False
  then have "ae_commit lc s = s\<lparr>m_commitIndex := m_commitIndex s\<rparr>" by (simp add: ae_commit_def)
  then show ?thesis ..
qed (auto simp: ae_commit_def)

lemma ae_log_frame:
  assumes "ae_log args reply s = Inr (r, t)"
  shows "\<exists>ls c suffix. t = s\<lparr>m_logs := ls, m_commitIndex := c\<rparr> \<and>
           map command ls = map command (m_logs s) @ suffix"
proof -
  have triv: "\<exists>ls c suffix. s = s\<lparr>m_logs := ls, m_commitIndex := c\<rparr> \<and>
      map command ls = map command (m_logs s) @ suffix"
    by (intro exI [of _ "m_logs s"] exI [of _ "m_commitIndex s"] exI [of _ "[]"]) simp
  from assms show ?thesis
  proof (cases rule: ae_log_cases)
    case (accept s1)
    from ae_entries_frame [OF accept(4)] obtain ls suffix where
      ls: "s1 = s\<lparr>m_logs := ls\<rparr>" "map command ls = map command (m_logs s) @ suffix" by blast
    from ae_commit_frame [of "aea_leadercommit args" s1] obtain c where
      "ae_commit (aea_leadercommit args) s1 = s1\<lparr>m_commitIndex := c\<rparr>" by blast
    with accept(6) ls show ?thesis by (intro exI [of _ ls] exI [of _ c]) simp
  qed (use triv in simp_all)
qed

subsection \<open>Consecutive indices are kept\<close>

lemma ae_entry_log:
  assumes "log_wf s" "m_lastSnapshotIncludeIndex s \<le> prev" "prev \<le> getLastLogIndex s"
    "logindex e = prev + 1" "ae_entry e s = Inr t"
  shows "log_wf t \<and> getLastLogIndex t = max (getLastLogIndex s) (prev + 1) \<and>
         m_lastSnapshotIncludeIndex t = m_lastSnapshotIncludeIndex s"
  using assms(5)
proof (cases rule: ae_entry_cases)
  case append
  with assms have last: "getLastLogIndex s = prev" by simp
  with assms(1) have len: "prev = m_lastSnapshotIncludeIndex s + int (length (m_logs s))"
    by (simp add: getLastLogIndex_wf)
  have wf: "log_wf t"
    using assms(1,4) len append(2) by (auto simp: log_wf_def nth_append less_Suc_eq)
  from getLastLogIndex_wf [OF wf] append(2) len have "getLastLogIndex t = prev + 1" by simp
  with wf append(2) last show ?thesis by simp
next
  case keep
  with assms show ?thesis by simp
next
  case (retag j)
  have wf: "log_wf t"
    using assms(1) retag(2,3) by (auto simp: log_wf_def nth_list_update)
  then have "getLastLogIndex t = getLastLogIndex s"
    using retag(3) assms(1) by (simp add: getLastLogIndex_wf)
  with wf retag assms(4) show ?thesis by simp
qed

lemma ae_entries_log:
  assumes "log_wf s" "m_lastSnapshotIncludeIndex s \<le> prev" "prev \<le> getLastLogIndex s"
    "entries_wf prev es" "foldR ae_entry es s = Inr t"
  shows "log_wf t \<and> getLastLogIndex t = max (getLastLogIndex s) (prev + int (length es)) \<and>
         m_lastSnapshotIncludeIndex t = m_lastSnapshotIncludeIndex s"
  using assms
proof (induction es arbitrary: s prev)
  case (Cons e es)
  from Cons.prems(5) obtain u where u: "ae_entry e s = Inr u" "foldR ae_entry es u = Inr t"
    by (auto simp: res_simps)
  from Cons.prems(4) have e: "logindex e = prev + 1" "entries_wf (prev + 1) es"
    by (simp_all add: entries_wf_Cons)
  note step = ae_entry_log [OF Cons.prems(1-3) e(1) u(1)]
  have "log_wf t \<and> getLastLogIndex t = max (getLastLogIndex u) (prev + 1 + int (length es)) \<and>
         m_lastSnapshotIncludeIndex t = m_lastSnapshotIncludeIndex u"
    using step Cons.prems(2) e(2) u(2) by (intro Cons.IH) auto
  with step show ?case by simp
qed simp

lemma ae_commit_log_queries:
  "getLastLogIndex (ae_commit lc s) = getLastLogIndex s"
  "log_wf (ae_commit lc s) = log_wf s"
  "m_lastSnapshotIncludeIndex (ae_commit lc s) = m_lastSnapshotIncludeIndex s"
  by (simp_all add: ae_commit_def)

lemma raft_wf_ae_log [inv_intros]:
  assumes wf: "raft_wf s" and es: "entries_wf (aea_prevlogindex args) (aea_entries args)"
    and ret: "ae_log args reply s = Inr (r, t)"
  shows "raft_wf t"
  using ret
proof (cases rule: ae_log_cases)
  case (accept s1)
  from wf have l: "log_wf s" by (simp add: raft_wf_def)
  note log = ae_entries_log [OF l accept(2,1) es accept(4)]
  from ae_log_frame [OF ret] obtain ls c suffix where
    t: "t = s\<lparr>m_logs := ls, m_commitIndex := c\<rparr>" by blast
  have "log_wf t" using log accept(6) by (simp add: ae_commit_log_queries)
  with t wf accept(7) show ?thesis by (auto simp: raft_wf_def)
qed (use wf in simp_all)

lemma raft_wf_follower:
  assumes "raft_wf s"
  shows "raft_wf (s\<lparr>m_status := st, m_currentTerm := ct, m_votedFor := v\<rparr>)"
    and "raft_wf (s\<lparr>m_status := st, m_lastResetElectionTime := tm\<rparr>)"
  using assms
  by (simp_all add: raft_wf_def)

lemma AppendEntries1_cases:
  assumes "AppendEntries1 C now args reply s = Inr (r, t)"
  obtains (stale) "aea_term args < m_currentTerm s" "t = s"
      "r = reply\<lparr>aer_appstate := AppNormal, aer_success := False, aer_term := m_currentTerm s,
                 aer_updatenextindex := -100\<rparr>"
    | (current) s2 t2 where "m_currentTerm s \<le> aea_term args"
      "s2 = (if aea_term args > m_currentTerm s
             then s\<lparr>m_status := Follower, m_currentTerm := aea_term args, m_votedFor := -1\<rparr>
             else s)\<lparr>m_status := Follower, m_lastResetElectionTime := now\<rparr>"
      "ae_log args (reply\<lparr>aer_appstate := AppNormal\<rparr>) s2 = Inr (r, t2)" "t = persist C t2"
proof (cases "aea_term args < m_currentTerm s")
  case True
  then have "AppendEntries1 C now args reply s =
    Inr (reply\<lparr>aer_appstate := AppNormal, aer_success := False, aer_term := m_currentTerm s,
               aer_updatenextindex := -100\<rparr>, s)"
    by (simp add: AppendEntries1_def Let_def)
  from Inr_pairD [OF assms this] have "t = s"
    "r = reply\<lparr>aer_appstate := AppNormal, aer_success := False, aer_term := m_currentTerm s,
               aer_updatenextindex := -100\<rparr>" by blast+
  with True show ?thesis by (intro stale)
next
  case False
  let ?s2 = "(if aea_term args > m_currentTerm s
             then s\<lparr>m_status := Follower, m_currentTerm := aea_term args, m_votedFor := -1\<rparr>
             else s)\<lparr>m_status := Follower, m_lastResetElectionTime := now\<rparr>"
  from assms False have
    "bindR (ae_log args (reply\<lparr>aer_appstate := AppNormal\<rparr>) ?s2) (\<lambda>(r, s'). Inr (r, persist C s'))
       = Inr (r, t)"
    unfolding AppendEntries1_def Let_def by (simp split: if_split_asm)
  then obtain t2 where "ae_log args (reply\<lparr>aer_appstate := AppNormal\<rparr>) ?s2 = Inr (r, t2)"
    "t = persist C t2" by (elim bindR_InrE) auto
  with False show ?thesis by (intro current [of ?s2 t2]) auto
qed

lemma AppendEntries1_vote_keeps:
  assumes "AppendEntries1 C now args reply s = Inr (r, t)"
  shows "vote_keeps s t"
  using assms
proof (cases rule: AppendEntries1_cases)
  case (current s2 t2)
  from ae_log_frame [OF current(3)] obtain ls c where "t2 = s2\<lparr>m_logs := ls, m_commitIndex := c\<rparr>"
    by blast
  with current show ?thesis by (auto simp: vote_keeps_def)
qed simp

lemma raft_wf_AppendEntries1 [inv_intros]:
  assumes "raft_wf s" and "entries_wf (aea_prevlogindex args) (aea_entries args)"
    and "AppendEntries1 C now args reply s = Inr (r, t)"
  shows "raft_wf t"
  using assms(3)
proof (cases rule: AppendEntries1_cases)
  case (current s2 t2)
  have "raft_wf s2"
    using assms(1) raft_wf_follower unfolding current(2) by (simp split: if_split)
  then have "raft_wf t2" using assms(2) current(3) by (rule raft_wf_ae_log)
  with current(4) show ?thesis by (simp add: raft_wf_persistI)
qed (use assms in simp)

subsection \<open>The conflict scan\<close>

text \<open>
  \<open>scan_result\<close>: what the scan from \<open>index\<close> down returns. Either the index after the last one
  whose term differs, or, when all terms down to the snapshot agree, the value it started with.
\<close>

definition scan_result :: "Raft \<Rightarrow> int \<Rightarrow> int \<Rightarrow> int \<Rightarrow> bool" where
  "scan_result s prev upd u \<longleftrightarrow>
     (m_lastSnapshotIncludeIndex s < u \<and> u \<le> prev \<and> term_at s (u - 1) \<noteq> term_at s prev \<and>
        (\<forall>k. u \<le> k \<and> k \<le> prev \<longrightarrow> term_at s k = term_at s prev)) \<or>
     (u = upd \<and>
        (\<forall>k. m_lastSnapshotIncludeIndex s \<le> k \<and> k \<le> prev \<longrightarrow> term_at s k = term_at s prev))"

lemma conflict_scan_result:
  assumes "log_wf s" and "index \<le> prev" "prev \<le> getLastLogIndex s"
    "m_lastSnapshotIncludeIndex s \<le> prev" "m_lastSnapshotIncludeIndex s \<le> index + 1"
    and "\<forall>k. index < k \<and> k \<le> prev \<longrightarrow> term_at s k = term_at s prev"
  shows "\<exists>u. conflict_scan s prev index upd = Inr u \<and> scan_result s prev upd u"
  using assms
proof (induction s prev index upd rule: conflict_scan.induct)
  case (1 s prev index upd)
  show ?case
  proof (cases "m_lastSnapshotIncludeIndex s \<le> index")
    case False
    then have "conflict_scan s prev index upd = Inr upd"
      by (simp add: conflict_scan.simps [of s prev index upd])
    moreover have "\<forall>k. m_lastSnapshotIncludeIndex s \<le> k \<and> k \<le> prev \<longrightarrow> term_at s k = term_at s prev"
    proof (intro allI impI)
      fix k assume "m_lastSnapshotIncludeIndex s \<le> k \<and> k \<le> prev"
      with False have "index < k \<and> k \<le> prev" by linarith
      with "1.prems"(6) show "term_at s k = term_at s prev" by blast
    qed
    then have "scan_result s prev upd upd" unfolding scan_result_def by blast
    ultimately show ?thesis by blast
  next
    case True
    with "1.prems"(2-5) have t: "getLogTermFromLogIndex s index = Inr (term_at s index)"
      "getLogTermFromLogIndex s prev = Inr (term_at s prev)"
      by (simp_all add: getLogTerm_wf [OF "1.prems"(1)])
    show ?thesis
    proof (cases "term_at s index = term_at s prev")
      case neq: False
      then have "index \<noteq> prev" by auto
      with "1.prems"(2) True have "m_lastSnapshotIncludeIndex s < index + 1" "index + 1 \<le> prev"
        "term_at s (index + 1 - 1) \<noteq> term_at s prev" using neq by simp_all
      moreover have "\<forall>k. index + 1 \<le> k \<and> k \<le> prev \<longrightarrow> term_at s k = term_at s prev"
        using "1.prems"(6) by (meson zless_iff_Suc_zadd add1_zle_eq)
      ultimately have "scan_result s prev upd (index + 1)" unfolding scan_result_def by blast
      moreover have "conflict_scan s prev index upd = Inr (index + 1)"
        using t True neq by (simp add: conflict_scan.simps [of s prev index upd])
      ultimately show ?thesis by blast
    next
      case eq: True
      have same: "\<forall>k. index - 1 < k \<and> k \<le> prev \<longrightarrow> term_at s k = term_at s prev"
      proof (intro allI impI)
        fix k assume k: "index - 1 < k \<and> k \<le> prev"
        then have "k = index \<or> (index < k \<and> k \<le> prev)" by linarith
        then show "term_at s k = term_at s prev"
        proof
          assume "k = index"
          with eq show ?thesis by (simp only:)
        next
          assume "index < k \<and> k \<le> prev"
          with "1.prems"(6) show ?thesis by blast
        qed
      qed
      from eq have neq: "\<not> term_at s index \<noteq> term_at s prev" by simp
      from "1.prems"(2-5) True have "index - 1 \<le> prev" "m_lastSnapshotIncludeIndex s \<le> index - 1 + 1"
        by simp_all
      then have "\<exists>u. conflict_scan s prev (index - 1) upd = Inr u \<and> scan_result s prev upd u"
        using "1.prems"(1,3,4) same by (intro "1.IH" [OF True t neq])
      then show ?thesis
        using t True eq by (simp add: conflict_scan.simps [of s prev index upd])
    qed
  qed
qed

subsection \<open>Installing a snapshot\<close>

lemma erase_front_drop: "0 \<le> n \<Longrightarrow> n \<le> int (length xs) \<Longrightarrow> erase_front xs n = Inr (drop (nat n) xs)"
  by (simp add: erase_front_def)

lemma snapshot_drop_log_wf:
  assumes "log_wf s" "m_lastSnapshotIncludeIndex s \<le> idx" "idx \<le> getLastLogIndex s"
    "m_logs t = drop (nat (idx - m_lastSnapshotIncludeIndex s)) (m_logs s)"
    "m_lastSnapshotIncludeIndex t = idx"
  shows "log_wf t" and "getLastLogIndex t = getLastLogIndex s"
    and "\<And>i. idx < i \<Longrightarrow> i \<le> getLastLogIndex s \<Longrightarrow> entry_at t i = entry_at s i"
proof -
  let ?n = "nat (idx - m_lastSnapshotIncludeIndex s)"
  have n: "?n \<le> length (m_logs s)" using assms(1-3) by (simp add: getLastLogIndex_wf)
  have nth: "m_logs t ! j = m_logs s ! (?n + j)" for j using assms(4) n by simp
  show wf: "log_wf t"
    using assms(1,2,5) n assms(4) by (auto simp: log_wf_def nth)
  show "getLastLogIndex t = getLastLogIndex s"
    using getLastLogIndex_wf [OF wf] getLastLogIndex_wf [OF assms(1)] assms(2,4,5) n by simp
  fix i assume i: "idx < i" "i \<le> getLastLogIndex s"
  have "?n + nat (i - idx - 1) = nat (i - m_lastSnapshotIncludeIndex s - 1)"
    using i assms(2) by simp
  then show "entry_at t i = entry_at s i" by (simp add: entry_at_def nth assms(5))
qed

lemma log_wf_empty: "m_logs t = [] \<Longrightarrow> log_wf t \<and> getLastLogIndex t = m_lastSnapshotIncludeIndex t"
  by (simp add: log_wf_def getLastLogIndex_def getLastLogIndexAndTerm_def)

lemma InstallSnapshot_cases:
  assumes "InstallSnapshot C now args reply s = Inr (r, t)" "log_wf s"
  obtains (stale) "isr_term args < m_currentTerm s" "t = s" "r = reply\<lparr>isp_term := m_currentTerm s\<rparr>"
    | (old) s2 where "m_currentTerm s \<le> isr_term args"
      "isr_lastsnapshotincludeindex args \<le> m_lastSnapshotIncludeIndex s"
      "s2 = (if isr_term args > m_currentTerm s
             then persist C (s\<lparr>m_currentTerm := isr_term args, m_votedFor := -1, m_status := Follower\<rparr>)
             else s)\<lparr>m_status := Follower, m_lastResetElectionTime := now\<rparr>"
      "t = s2" "r = reply"
    | (install) s2 s3 where "m_currentTerm s \<le> isr_term args"
      "m_lastSnapshotIncludeIndex s < isr_lastsnapshotincludeindex args"
      "s2 = (if isr_term args > m_currentTerm s
             then persist C (s\<lparr>m_currentTerm := isr_term args, m_votedFor := -1, m_status := Follower\<rparr>)
             else s)\<lparr>m_status := Follower, m_lastResetElectionTime := now\<rparr>"
      "s3 = s2\<lparr>m_logs := (if getLastLogIndex s > isr_lastsnapshotincludeindex args
                 then drop (nat (isr_lastsnapshotincludeindex args - m_lastSnapshotIncludeIndex s)) (m_logs s)
                 else []),
               m_commitIndex := max (m_commitIndex s) (isr_lastsnapshotincludeindex args),
               m_lastApplied := max (m_lastApplied s) (isr_lastsnapshotincludeindex args),
               m_lastSnapshotIncludeIndex := isr_lastsnapshotincludeindex args,
               m_lastSnapshotIncludeTerm := isr_lastsnapshotincludeterm args,
               applyChan := Push (newApplyMsg\<lparr>SnapShotValid := True, Snapshot_data := isr_data args,
                  SnapshotTerm := isr_lastsnapshotincludeterm args,
                  SnapshotIndex := isr_lastsnapshotincludeindex args\<rparr>) (applyChan s)\<rparr>"
      "t = s3\<lparr>m_persister := Save (persistData C s3) (isr_data args) (m_persister s3)\<rparr>"
      "r = reply\<lparr>isp_term := isr_term args\<rparr>"
proof -
  let ?idx = "isr_lastsnapshotincludeindex args"
  let ?s2 = "(if isr_term args > m_currentTerm s
             then persist C (s\<lparr>m_currentTerm := isr_term args, m_votedFor := -1, m_status := Follower\<rparr>)
             else s)\<lparr>m_status := Follower, m_lastResetElectionTime := now\<rparr>"
  let ?keep = "if getLastLogIndex s > ?idx
     then drop (nat (?idx - m_lastSnapshotIncludeIndex s)) (m_logs s) else []"
  have q: "m_lastSnapshotIncludeIndex ?s2 = m_lastSnapshotIncludeIndex s" "m_logs ?s2 = m_logs s"
    "getLastLogIndex ?s2 = getLastLogIndex s" "m_commitIndex ?s2 = m_commitIndex s"
    "m_lastApplied ?s2 = m_lastApplied s" "applyChan ?s2 = applyChan s"
    by simp_all
  consider "isr_term args < m_currentTerm s"
    | "m_currentTerm s \<le> isr_term args" "?idx \<le> m_lastSnapshotIncludeIndex s"
    | "m_currentTerm s \<le> isr_term args" "m_lastSnapshotIncludeIndex s < ?idx" by linarith
  then show ?thesis
  proof cases
    case 1
    then have "InstallSnapshot C now args reply s = Inr (reply\<lparr>isp_term := m_currentTerm s\<rparr>, s)"
      by (simp add: InstallSnapshot_def)
    from Inr_pairD [OF assms(1) this] 1 stale show ?thesis by blast
  next
    case 2
    then have "InstallSnapshot C now args reply s = Inr (reply, ?s2)"
      by (simp add: InstallSnapshot_def Let_def)
    from Inr_pairD [OF assms(1) this] 2 show ?thesis by (intro old [of ?s2]) simp_all
  next
    case 3
    have keep: "(if getLastLogIndex s > ?idx
        then bindR (getSlicesIndexFromLogIndex ?s2 ?idx) (\<lambda>j. erase_front (m_logs s) (j + 1))
        else Inr []) = Inr ?keep"
      using 3(2) assms(2) q
      by (simp add: getSlices_inside erase_front_drop getLastLogIndex_wf)
    let ?s3 = "?s2\<lparr>m_logs := ?keep, m_commitIndex := max (m_commitIndex s) ?idx,
               m_lastApplied := max (m_lastApplied s) ?idx,
               m_lastSnapshotIncludeIndex := ?idx,
               m_lastSnapshotIncludeTerm := isr_lastsnapshotincludeterm args,
               applyChan := Push (newApplyMsg\<lparr>SnapShotValid := True, Snapshot_data := isr_data args,
                  SnapshotTerm := isr_lastsnapshotincludeterm args,
                  SnapshotIndex := ?idx\<rparr>) (applyChan s)\<rparr>"
    have "InstallSnapshot C now args reply s =
      Inr (reply\<lparr>isp_term := m_currentTerm ?s2\<rparr>,
           ?s3\<lparr>m_persister := Save (persistData C ?s3) (isr_data args) (m_persister ?s3)\<rparr>)"
      using 3 keep unfolding InstallSnapshot_def Let_def q
      by (simp del: if_split add: if_not_P)
    moreover have "m_currentTerm ?s2 = isr_term args" using 3(1) by simp
    ultimately have "r = reply\<lparr>isp_term := isr_term args\<rparr>"
      "t = ?s3\<lparr>m_persister := Save (persistData C ?s3) (isr_data args) (m_persister ?s3)\<rparr>"
      using Inr_pairD [OF assms(1)] by (metis (no_types))+
    with 3 show ?thesis by (intro install [of ?s2 ?s3]) (simp_all only: q)
  qed
qed

lemma InstallSnapshot_vote_keeps:
  assumes "InstallSnapshot C now args reply s = Inr (r, t)" "log_wf s"
  shows "vote_keeps s t"
  using assms by (cases rule: InstallSnapshot_cases) (simp_all add: vote_keeps_def)

lemma raft_wf_InstallSnapshot [inv_intros]:
  assumes wf: "raft_wf s" and ret: "InstallSnapshot C now args reply s = Inr (r, t)"
  shows "raft_wf t"
proof -
  from wf have l: "log_wf s" by (simp add: raft_wf_def)
  let ?s1 = "persist C (s\<lparr>m_currentTerm := isr_term args, m_votedFor := -1, m_status := Follower\<rparr>)"
  have "raft_wf (s\<lparr>m_currentTerm := isr_term args, m_votedFor := -1, m_status := Follower\<rparr>)"
    using wf by (simp add: raft_wf_def)
  then have s1: "raft_wf ?s1" by (rule raft_wf_persistI)
  from ret l show ?thesis
  proof (cases rule: InstallSnapshot_cases)
    case (old s2)
    then show ?thesis using s1 wf by (simp add: raft_wf_follower(2))
  next
    case (install s2 s3)
    have len: "length (m_nextIndex t) = m_peers_size t" "length (m_matchIndex t) = m_peers_size t"
      "0 \<le> m_me t" "m_me t < int (m_peers_size t)" "persister_wf (m_persister t)"
      using wf install by (simp_all add: raft_wf_def persister_wf_Save)
    have snap: "m_lastSnapshotIncludeIndex t = isr_lastsnapshotincludeindex args"
      "m_commitIndex t = max (m_commitIndex s) (isr_lastsnapshotincludeindex args)"
      "m_lastApplied t = max (m_lastApplied s) (isr_lastsnapshotincludeindex args)"
      using install by simp_all
    have "log_wf t \<and> m_commitIndex t \<le> getLastLogIndex t"
    proof (cases "getLastLogIndex s > isr_lastsnapshotincludeindex args")
      case True
      then have "m_logs t = drop (nat (isr_lastsnapshotincludeindex args -
          m_lastSnapshotIncludeIndex s)) (m_logs s)" using install by simp
      with True install(2) snap wf l show ?thesis
        using snapshot_drop_log_wf(1,2) [of s "isr_lastsnapshotincludeindex args" t]
        by (simp add: raft_wf_def)
    next
      case False
      then have "m_logs t = []" using install by simp
      with False snap wf show ?thesis using log_wf_empty [of t] by (simp add: raft_wf_def)
    qed
    with len snap install(2) wf show ?thesis by (simp add: raft_wf_def)
  qed (use wf in simp)
qed

lemma persistData_cong:
  "m_currentTerm s = m_currentTerm t \<Longrightarrow> m_votedFor s = m_votedFor t \<Longrightarrow> m_logs s = m_logs t \<Longrightarrow>
   m_lastSnapshotIncludeIndex s = m_lastSnapshotIncludeIndex t \<Longrightarrow>
   m_lastSnapshotIncludeTerm s = m_lastSnapshotIncludeTerm t \<Longrightarrow> persistData C s = persistData C t"
  by (simp add: persistData_def)

lemma persistData_persist [simp]: "persistData C (persist C s) = persistData C s"
  by (rule persistData_cong) simp_all

lemma raft_wf_node0_logs:
  assumes "entries_wf 0 es" "0 \<le> me" "me < int n"
  shows "raft_wf ((node0 n me)\<lparr>m_logs := es\<rparr>)" and "getLastLogIndex ((node0 n me)\<lparr>m_logs := es\<rparr>) = int (length es)"
proof -
  let ?s = "(node0 n me)\<lparr>m_logs := es\<rparr>"
  have wf: "log_wf ?s" using assms(1) by (simp add: log_wf_def entries_wf_def node0_def)
  then show last: "getLastLogIndex ?s = int (length es)"
    using getLastLogIndex_wf [OF wf] by (simp add: node0_def)
  from wf last show "raft_wf ?s"
    using raft_wf_node0 [OF assms(2,3)] by (simp add: raft_wf_def) (simp add: node0_def)
qed

text \<open>
  The states of the closed examples: a fresh follower and a leader of term 1, in a cluster of
  three, whose log holds two entries of term 1.
\<close>

definition sample_log :: "LogEntry list" where
  "sample_log = [\<lparr>command = ''a'', logterm = 1, logindex = 1\<rparr>, \<lparr>command = ''b'', logterm = 1, logindex = 2\<rparr>]"

definition sample_follower :: Raft where
  "sample_follower = (node0 3 0)\<lparr>m_logs := sample_log\<rparr>"

definition sample_leader :: Raft where
  "sample_leader = sample_follower\<lparr>m_status := Leader, m_currentTerm := 1, m_votedFor := 0,
     m_nextIndex := [1, 2, 3], m_commitIndex := 1\<rparr>"

definition sample_args :: AppendEntriesArgs where
  "sample_args = \<lparr>aea_term = 1, aea_leaderid = 1, aea_prevlogindex = 2, aea_prevlogterm = 1,
     aea_entries = [\<lparr>command = ''c'', logterm = 1, logindex = 3\<rparr>], aea_leadercommit = 2\<rparr>"

lemma sample_follower_wf: "raft_wf sample_follower" "getLastLogIndex sample_follower = 2"
  using raft_wf_node0_logs [of sample_log 0 3]
  by (simp_all add: sample_follower_def) (simp_all add: sample_log_def entries_wf_def less_Suc_eq)

lemma sample_leader_wf: "raft_wf sample_leader" "getLastLogIndex sample_leader = 2"
proof -
  have f: "m_lastSnapshotIncludeIndex sample_follower = 0" "m_peers_size sample_follower = 3"
    "m_lastApplied sample_follower = 0"
    by (simp_all add: sample_follower_def node0_def)
  show "getLastLogIndex sample_leader = 2"
    using sample_follower_wf(2) by (simp add: sample_leader_def)
  show "raft_wf sample_leader"
    using sample_follower_wf f by (simp add: raft_wf_def sample_leader_def)
qed

lemma sample_args_wf: "entries_wf (aea_prevlogindex sample_args) (aea_entries sample_args)"
  by (simp add: sample_args_def entries_wf_def)

lemma sample_append: "\<exists>r t. AppendEntries1 codec0 0 sample_args newAppendEntriesReply sample_follower
    = Inr (r, t) \<and> aer_success r"
proof -
  have "case AppendEntries1 codec0 0 sample_args newAppendEntriesReply sample_follower of
      Inr (r, t) \<Rightarrow> aer_success r | Inl _ \<Rightarrow> False" by code_simp
  then show ?thesis by (auto split: sum.splits)
qed

subsection \<open>Properties of the follower\<close>



text \<open>AppendEntries keeps the node's invariant (consecutive log indices, the commit index
  inside the log, the vectors of the leader's bookkeeping) for every request whose entries continue
  the previous index, whatever branch it takes.\<close>

theorem AppendEntries_invariant:
  assumes "raft_wf s" and "entries_wf (aea_prevlogindex args) (aea_entries args)"
    and "AppendEntries1 C now args reply s = Inr (r, t)"
  shows "raft_wf t \<and> vote_keeps s t"
  using raft_wf_AppendEntries1 [OF assms] AppendEntries1_vote_keeps [OF assms(3)] ..

theorem AppendEntries_invariant_witness:
  "\<exists>r t. AppendEntries1 codec0 0 sample_args newAppendEntriesReply sample_follower = Inr (r, t) \<and>
     raft_wf t \<and> vote_keeps sample_follower t"
  using sample_append AppendEntries_invariant [OF sample_follower_wf(1) sample_args_wf] by blast

text \<open>AppendEntries never removes and never replaces a command of the log, so a follower
  whose log diverged from the leader's keeps its own commands even when the call succeeds.\<close>

theorem AppendEntries_keeps_commands:
  assumes "AppendEntries1 C now args reply s = Inr (r, t)"
  shows "\<exists>suffix. map command (m_logs t) = map command (m_logs s) @ suffix"
  using assms
proof (cases rule: AppendEntries1_cases)
  case (current s2 t2)
  from ae_log_frame [OF current(3)] obtain ls c suffix where
    t2: "t2 = s2\<lparr>m_logs := ls, m_commitIndex := c\<rparr>"
    and ls: "map command ls = map command (m_logs s2) @ suffix" by blast
  have "m_logs s2 = m_logs s" using current(2) by simp
  with t2 ls current(4) show ?thesis by simp
qed simp

theorem AppendEntries_keeps_commands_witness:
  "\<exists>r t suffix. AppendEntries1 codec0 0 sample_args newAppendEntriesReply sample_follower = Inr (r, t) \<and>
     map command (m_logs t) = [''a'', ''b''] @ suffix"
proof -
  obtain r t where ret: "AppendEntries1 codec0 0 sample_args newAppendEntriesReply sample_follower =
      Inr (r, t)" using sample_append by blast
  from AppendEntries_keeps_commands [OF ret] ret show ?thesis
    by (auto simp: sample_follower_def sample_log_def)
qed

text \<open>C6. What a successful AppendEntries establishes: the previous entry was there with the
  leader's term, the log now reaches the last entry sent, and the commit index followed the
  leader's, bounded by the log.\<close>

theorem AppendEntries_success:
  assumes "raft_wf s" and "entries_wf (aea_prevlogindex args) (aea_entries args)"
    and ret: "AppendEntries1 C now args reply s = Inr (r, t)" and "aer_success r"
  shows "aea_term args = m_currentTerm t \<and> m_status t = Follower \<and>
         m_lastSnapshotIncludeIndex s \<le> aea_prevlogindex args \<and>
         aea_prevlogindex args \<le> getLastLogIndex s \<and>
         term_at s (aea_prevlogindex args) = aea_prevlogterm args \<and>
         getLastLogIndex t =
           max (getLastLogIndex s) (aea_prevlogindex args + int (length (aea_entries args))) \<and>
         m_commitIndex t = max (m_commitIndex s) (min (aea_leadercommit args) (getLastLogIndex t))"
proof -
  from assms(1) have l: "log_wf s" by (simp add: raft_wf_def)
  from ret show ?thesis
  proof (cases rule: AppendEntries1_cases)
    case stale
    with assms(4) show ?thesis by simp
  next
    case (current s2 t2)
    have q: "log_wf s2 = log_wf s" "getLastLogIndex s2 = getLastLogIndex s" "term_at s2 = term_at s"
      "m_lastSnapshotIncludeIndex s2 = m_lastSnapshotIncludeIndex s"
      "m_commitIndex s2 = m_commitIndex s" "m_currentTerm s2 = aea_term args" "m_status s2 = Follower"
      using current(1,2) by simp_all
    from current(3) show ?thesis
    proof (cases rule: ae_log_cases)
      case (accept s3)
      note log = ae_entries_log [of s2, unfolded q, OF l accept(2,1) [unfolded q] assms(2) accept(4)]
      from ae_entries_frame [OF accept(4)] obtain ls where s3: "s3 = s2\<lparr>m_logs := ls\<rparr>" by blast
      have m: "aea_prevlogterm args = term_at s (aea_prevlogindex args)"
        using accept(1-3) q l by (simp add: matchLog_wf)
      have c: "m_commitIndex t2 = max (m_commitIndex s) (min (aea_leadercommit args) (getLastLogIndex t2))"
        using accept(6) s3 q assms(1) log by (auto simp: ae_commit_def raft_wf_def)
      have "getLastLogIndex t2 = getLastLogIndex s3" "m_currentTerm t2 = aea_term args"
        "m_status t2 = Follower"
        using accept(6) s3 q by (simp_all add: ae_commit_def)
      with m c log accept(1,2) q current(4) show ?thesis by simp
    qed (use assms(4) in simp_all)
  qed
qed

theorem AppendEntries_success_witness:
  "\<exists>r t. AppendEntries1 codec0 0 sample_args newAppendEntriesReply sample_follower = Inr (r, t) \<and>
     aer_success r \<and> getLastLogIndex t = 3 \<and> m_commitIndex t = 2"
proof -
  obtain r t where ret: "AppendEntries1 codec0 0 sample_args newAppendEntriesReply sample_follower =
      Inr (r, t)" "aer_success r" using sample_append by blast
  have "m_commitIndex sample_follower = 0" by (simp add: sample_follower_def node0_def)
  with AppendEntries_success [OF sample_follower_wf(1) sample_args_wf ret] ret show ?thesis
    by (simp add: sample_follower_wf sample_args_def)
qed

text \<open>How a current leader's AppendEntries is turned down, and the index the leader is told to
  go on from: past the end of the log it is the last \<^emph>\<open>term\<close> plus one, before the snapshot it is
  the index after the snapshot, and on a term conflict it is the index where the run of entries
  with the conflicting term begins.\<close>

theorem AppendEntries_reject_hint:
  assumes "raft_wf s" and "m_currentTerm s \<le> aea_term args"
    and ret: "AppendEntries1 C now args reply s = Inr (r, t)" and "\<not> aer_success r"
  shows "m_logs t = m_logs s \<and> m_commitIndex t = m_commitIndex s \<and> aer_term r = aea_term args \<and>
     (if aea_prevlogindex args > getLastLogIndex s then aer_updatenextindex r = getLastLogTerm s + 1
      else if aea_prevlogindex args < m_lastSnapshotIncludeIndex s
      then aer_updatenextindex r = m_lastSnapshotIncludeIndex s + 1
      else term_at s (aea_prevlogindex args) \<noteq> aea_prevlogterm args \<and>
           scan_result s (aea_prevlogindex args) (aea_prevlogindex args) (aer_updatenextindex r))"
proof -
  from assms(1) have l: "log_wf s" by (simp add: raft_wf_def)
  from ret show ?thesis
  proof (cases rule: AppendEntries1_cases)
    case stale
    with assms(2) show ?thesis by simp
  next
    case (current s2 t2)
    have q: "log_wf s2 = log_wf s" "getLastLogIndex s2 = getLastLogIndex s" "term_at s2 = term_at s"
      "m_lastSnapshotIncludeIndex s2 = m_lastSnapshotIncludeIndex s" "getLastLogTerm s2 = getLastLogTerm s"
      "m_commitIndex s2 = m_commitIndex s" "m_currentTerm s2 = aea_term args" "m_logs s2 = m_logs s"
      using current(1,2) by simp_all
    from current(3) show ?thesis
    proof (cases rule: ae_log_cases)
      case (conflict u)
      then have neq: "aea_prevlogterm args \<noteq> term_at s (aea_prevlogindex args)"
        using l q by (simp add: matchLog_wf)
      from l conflict(1,2,4) conflict_scan_result [of s2 "aea_prevlogindex args" "aea_prevlogindex args"
          "aea_prevlogindex args"] have "scan_result s2 (aea_prevlogindex args) (aea_prevlogindex args) u"
        by (simp add: q(1))
      then have "scan_result s (aea_prevlogindex args) (aea_prevlogindex args) u"
        by (simp add: scan_result_def q)
      with neq conflict current(4) q show ?thesis by simp
    next
      case (accept s1)
      with assms(4) show ?thesis by simp
    qed (use current(4) q in simp_all)
  qed
qed

theorem AppendEntries_reject_hint_witness:
  "\<exists>r t. AppendEntries1 codec0 0 \<lparr>aea_term = 1, aea_leaderid = 1, aea_prevlogindex = 7,
       aea_prevlogterm = 1, aea_entries = [], aea_leadercommit = 0\<rparr> newAppendEntriesReply
       ((node0 3 0)\<lparr>m_logs := [\<lparr>command = [], logterm = 1, logindex = 1\<rparr>,
          \<lparr>command = [], logterm = 1, logindex = 2\<rparr>]\<rparr>) = Inr (r, t) \<and>
     aer_updatenextindex r = 2"
proof -
  let ?s = "(node0 3 0)\<lparr>m_logs := [\<lparr>command = [], logterm = 1, logindex = 1\<rparr>,
          \<lparr>command = [], logterm = 1, logindex = 2\<rparr>]\<rparr>"
  let ?a = "\<lparr>aea_term = 1, aea_leaderid = 1, aea_prevlogindex = 7,
       aea_prevlogterm = 1, aea_entries = [], aea_leadercommit = 0\<rparr>"
  have wf: "raft_wf ?s" using raft_wf_node0 [of 0 3]
    by (auto simp: raft_wf_def log_wf_def node0_def getLastLogIndex_def getLastLogIndexAndTerm_def
        less_Suc_eq)
  have last: "getLastLogIndex ?s = 2" "getLastLogTerm ?s = 1" "m_currentTerm ?s = 0"
    by (simp_all add: getLastLogIndex_def getLastLogTerm_def getLastLogIndexAndTerm_def node0_def)
  obtain r t where ret: "AppendEntries1 codec0 0 ?a newAppendEntriesReply ?s = Inr (r, t)"
    "\<not> aer_success r"
    using last by (simp add: AppendEntries1_def ae_log_def Let_def)
  from AppendEntries_reject_hint [OF wf _ ret] last ret(1) show ?thesis by simp
qed

text \<open>The loop over the received entries reads and writes \<open>m_logs\<close> at the \<^emph>\<open>term\<close> of the entry
  instead of its position: when a leader sends an entry the follower already has, and the entry's
  term is at least the number of entries in the follower's log, the handler indexes past the end
  of the vector.\<close>

theorem AppendEntries_replay_out_of_bounds:
  assumes wf: "raft_wf s" and "m_currentTerm s \<le> aea_term args"
    and prev: "m_lastSnapshotIncludeIndex s \<le> aea_prevlogindex args"
      "aea_prevlogindex args < getLastLogIndex s"
      "aea_prevlogterm args = term_at s (aea_prevlogindex args)"
    and es: "aea_entries args = entry_at s (aea_prevlogindex args + 1) # rest"
    and far: "int (length (m_logs s)) \<le> logterm (entry_at s (aea_prevlogindex args + 1))"
  shows "AppendEntries1 C now args reply s = Inl OutOfBounds"
proof -
  let ?s2 = "(if aea_term args > m_currentTerm s
             then s\<lparr>m_status := Follower, m_currentTerm := aea_term args, m_votedFor := -1\<rparr>
             else s)\<lparr>m_status := Follower, m_lastResetElectionTime := now\<rparr>"
  let ?i = "aea_prevlogindex args + 1"
  from wf have l: "log_wf s" by (simp add: raft_wf_def)
  have q: "log_wf ?s2" "getLastLogIndex ?s2 = getLastLogIndex s" "term_at ?s2 = term_at s"
    "m_lastSnapshotIncludeIndex ?s2 = m_lastSnapshotIncludeIndex s" "entry_at ?s2 = entry_at s"
    "m_logs ?s2 = m_logs s"
    using l by simp_all
  have i: "m_lastSnapshotIncludeIndex s < ?i" "?i \<le> getLastLogIndex s" using prev by simp_all
  have e: "logindex (entry_at s ?i) = ?i" using entry_at_index [OF l i] .
  have t: "getLogTermFromLogIndex ?s2 ?i = Inr (logterm (entry_at s ?i))"
    using getLogTerm_wf [OF q(1), of ?i] i by (simp add: q term_at_def entry_at_def)
  have "vec_at (m_logs s) (?i - m_lastSnapshotIncludeIndex s - 1) = Inr (entry_at s ?i)"
    by (rule slice_vec_at [OF l i])
  then have "ae_entry (entry_at s ?i) ?s2 = Inl OutOfBounds"
    using i far t unfolding ae_entry_def e q
    by (simp add: getSlices_inside q vec_at_def del: if_split split: if_split_asm)
  then have "foldR ae_entry (aea_entries args) ?s2 = Inl OutOfBounds" by (simp add: es)
  then have "ae_log args (reply\<lparr>aer_appstate := AppNormal\<rparr>) ?s2 = Inl OutOfBounds"
    using prev matchLog_wf [OF q(1)] by (simp add: ae_log_def Let_def q)
  then show ?thesis using assms(2) by (simp add: AppendEntries1_def Let_def)
qed

theorem AppendEntries_replay_out_of_bounds_witness:
  "AppendEntries1 codec0 0 \<lparr>aea_term = 1, aea_leaderid = 1, aea_prevlogindex = 0,
       aea_prevlogterm = 0, aea_entries = [\<lparr>command = ''a'', logterm = 1, logindex = 1\<rparr>],
       aea_leadercommit = 0\<rparr> newAppendEntriesReply
     ((node0 3 0)\<lparr>m_logs := [\<lparr>command = ''a'', logterm = 1, logindex = 1\<rparr>]\<rparr>) = Inl OutOfBounds"
proof -
  let ?es = "[\<lparr>command = ''a'', logterm = 1, logindex = 1\<rparr>]"
  let ?s = "(node0 3 0)\<lparr>m_logs := ?es\<rparr>"
  have wf: "raft_wf ?s" "getLastLogIndex ?s = 1"
    using raft_wf_node0_logs [of ?es 0 3] by (simp_all add: entries_wf_def)
  have e: "entry_at ?s 1 = \<lparr>command = ''a'', logterm = 1, logindex = 1\<rparr>" "term_at ?s 0 = 0"
    "m_lastSnapshotIncludeIndex ?s = 0" "m_currentTerm ?s = 0"
    by (simp_all add: entry_at_def term_at_def node0_def)
  show ?thesis
    by (rule AppendEntries_replay_out_of_bounds [OF wf(1), where rest = "[]"])
      (use wf(2) e in \<open>simp_all only: AppendEntriesArgs.select_convs, simp_all\<close>)
qed



end
