(* ===== verification/RaftLeader.thy ===== *)
theory RaftLeader
  imports RaftFollower
begin

text \<open>
  raft.cpp: what a node does on its own account. \<open>doElection\<close> and \<open>doHeartBeat\<close> build the calls
  their detached threads make; the code after the call returns is a function of the reply
  (\<open>sendRequestVote_reply\<close>, \<open>sendAppendEntries_reply\<close>, \<open>leaderSendSnapShot_reply\<close>). The counter
  the threads of one round share (\<open>votedNum\<close>, \<open>appendNums\<close>) is passed in and returned. \<open>Start\<close>
  appends a command, \<open>Snapshot\<close> cuts the log, \<open>getApplyLogs\<close> collects what to apply.
\<close>

definition peers_but_me :: "Raft \<Rightarrow> int list" where
  "peers_but_me s = filter (\<lambda>i. i \<noteq> m_me s) (map int [0..<m_peers_size s])"

subsection \<open>Elections\<close>

definition doElection :: "raft_codec \<Rightarrow> int \<Rightarrow> Raft \<Rightarrow> (int \<times> RequestVoteArgs) list \<times> Raft" where
  "doElection C now s =
     (if m_status s \<noteq> Leader then
        let s1 = s\<lparr>m_status := Candidate, m_currentTerm := m_currentTerm s + 1, m_votedFor := m_me s\<rparr>;
            s2 = persist C s1;
            s3 = s2\<lparr>m_lastResetElectionTime := now\<rparr>
        in (map (\<lambda>i. let (lastLogIndex, lastLogTerm) = getLastLogIndexAndTerm s3
                     in (i, \<lparr>rva_term = m_currentTerm s3, rva_candidateid = m_me s3,
                             rva_lastlogindex = lastLogIndex, rva_lastlogterm = lastLogTerm\<rparr>))
              (peers_but_me s3), s3)
      else ([], s))"

text \<open>The number of votes with which a candidate becomes leader.\<close>

definition majority :: "Raft \<Rightarrow> int" where
  "majority s = int (m_peers_size s div 2 + 1)"

definition becomeLeader :: "raft_codec \<Rightarrow> Raft \<Rightarrow> Raft res" where
  "becomeLeader C s =
     bindR (myAssert (m_status s \<noteq> Leader)) (\<lambda>_.
     let s1 = s\<lparr>m_status := Leader\<rparr>;
         lastLogIndex = getLastLogIndex s1;
         n = length (m_nextIndex s1)
     in bindR (guardR OutOfBounds (n \<le> length (m_matchIndex s1))) (\<lambda>_.
        Inr (persist C (s1\<lparr>m_nextIndex := replicate n (lastLogIndex + 1),
                          m_matchIndex := replicate n 0 @ drop n (m_matchIndex s1)\<rparr>))))"

text \<open>The result: the shared counter, whether the heartbeat thread is started, the state.\<close>

definition sendRequestVote_reply ::
  "raft_codec \<Rightarrow> bool \<Rightarrow> RequestVoteReply \<Rightarrow> int \<Rightarrow> Raft \<Rightarrow> (int \<times> bool \<times> Raft) res" where
  "sendRequestVote_reply C ok reply votedNum s =
     (if \<not> ok then Inr (votedNum, False, s)
      else if rvr_term reply > m_currentTerm s then
        Inr (votedNum, False,
             persist C (s\<lparr>m_status := Follower, m_currentTerm := rvr_term reply, m_votedFor := -1\<rparr>))
      else if rvr_term reply < m_currentTerm s then Inr (votedNum, False, s)
      else
        bindR (myAssert (rvr_term reply = m_currentTerm s)) (\<lambda>_.
        if \<not> rvr_votegranted reply then Inr (votedNum, False, s)
        else let votedNum1 = votedNum + 1 in
             if votedNum1 \<ge> majority s
             then bindR (becomeLeader C s) (\<lambda>s'. Inr (0, True, s'))
             else Inr (votedNum1, False, s)))"

subsection \<open>Heartbeats and replication\<close>

datatype HeartBeatCall = CallSnapShot int | CallAppendEntries int AppendEntriesArgs

definition hb_peer :: "Raft \<Rightarrow> int \<Rightarrow> HeartBeatCall res" where
  "hb_peer s i =
     bindR (vec_at (m_nextIndex s) i) (\<lambda>next.
     bindR (myAssert (next \<ge> 1)) (\<lambda>_.
     if next \<le> m_lastSnapshotIncludeIndex s then Inr (CallSnapShot i)
     else
       bindR (getPrevLogInfo s i) (\<lambda>(preLogIndex, preLogTerm).
       bindR (if preLogIndex \<noteq> m_lastSnapshotIncludeIndex s
              then bindR (getSlicesIndexFromLogIndex s preLogIndex) (\<lambda>j.
                   Inr (drop (nat (j + 1)) (m_logs s)))
              else Inr (m_logs s)) (\<lambda>entries.
       bindR (myAssert (preLogIndex + int (length entries) = getLastLogIndex s)) (\<lambda>_.
       Inr (CallAppendEntries i
         \<lparr>aea_term = m_currentTerm s, aea_leaderid = m_me s, aea_prevlogindex = preLogIndex,
          aea_prevlogterm = preLogTerm, aea_entries = entries,
          aea_leadercommit = m_commitIndex s\<rparr>))))))"

definition doHeartBeat :: "int \<Rightarrow> Raft \<Rightarrow> (HeartBeatCall list \<times> Raft) res" where
  "doHeartBeat now s =
     (if m_status s = Leader then
        bindR (mapR (hb_peer s) (peers_but_me s)) (\<lambda>calls.
        Inr (calls, s\<lparr>m_lastResetHeartBeatTime := now\<rparr>))
      else Inr ([], s))"

definition sendAppendEntries_reply ::
  "bool \<Rightarrow> int \<Rightarrow> AppendEntriesArgs \<Rightarrow> AppendEntriesReply \<Rightarrow> int \<Rightarrow> Raft \<Rightarrow> (int \<times> Raft) res" where
  "sendAppendEntries_reply ok server args reply appendNums s =
     (if \<not> ok then Inr (appendNums, s)
      else if aer_appstate reply = Disconnected then Inr (appendNums, s)
      else if aer_term reply > m_currentTerm s then
        Inr (appendNums, s\<lparr>m_status := Follower, m_currentTerm := aea_term args, m_votedFor := -1\<rparr>)
      else if aer_term reply < m_currentTerm s then Inr (appendNums, s)
      else if m_status s \<noteq> Leader then Inr (appendNums, s)
      else
        bindR (myAssert (aer_term reply = m_currentTerm s)) (\<lambda>_.
        if \<not> aer_success reply then
          (if aer_updatenextindex reply \<noteq> -100
           then bindR (vec_put (m_nextIndex s) server (aer_updatenextindex reply)) (\<lambda>ni.
                Inr (appendNums, s\<lparr>m_nextIndex := ni\<rparr>))
           else Inr (appendNums, s))
        else
          let appendNums1 = appendNums + 1;
              sent = aea_prevlogindex args + int (length (aea_entries args)) in
          bindR (vec_at (m_matchIndex s) server) (\<lambda>m.
          bindR (vec_put (m_matchIndex s) server (max m sent)) (\<lambda>mi.
          bindR (vec_put (m_nextIndex s) server (max m sent + 1)) (\<lambda>ni.
          let s1 = s\<lparr>m_matchIndex := mi, m_nextIndex := ni\<rparr>;
              lastLogIndex = getLastLogIndex s1 in
          bindR (myAssert (max m sent + 1 \<le> lastLogIndex + 1)) (\<lambda>_.
          if appendNums1 \<ge> majority s1 then
            let s2 = (if aea_entries args \<noteq> [] \<and>
                         logterm (aea_entries args ! (length (aea_entries args) - 1)) = m_currentTerm s1
                      then s1\<lparr>m_commitIndex := max (m_commitIndex s1) sent\<rparr> else s1) in
            bindR (myAssert (m_commitIndex s2 \<le> lastLogIndex)) (\<lambda>_. Inr (0, s2))
          else Inr (appendNums1, s1)))))))"

definition leaderSendSnapShot_args :: "Raft \<Rightarrow> InstallSnapshotRequest \<times> Raft" where
  "leaderSendSnapShot_args s =
     (let (snapshot, p) = ReadSnapshot (m_persister s)
      in (\<lparr>isr_leaderid = m_me s, isr_term = m_currentTerm s,
           isr_lastsnapshotincludeindex = m_lastSnapshotIncludeIndex s,
           isr_lastsnapshotincludeterm = m_lastSnapshotIncludeTerm s,
           isr_data = snapshot\<rparr>, s\<lparr>m_persister := p\<rparr>))"

definition leaderSendSnapShot_reply ::
  "raft_codec \<Rightarrow> int \<Rightarrow> bool \<Rightarrow> int \<Rightarrow> InstallSnapshotRequest \<Rightarrow> InstallSnapShotResponse \<Rightarrow> Raft \<Rightarrow>
     Raft res" where
  "leaderSendSnapShot_reply C now ok server args reply s =
     (if \<not> ok then Inr s
      else if m_status s \<noteq> Leader \<or> m_currentTerm s \<noteq> isr_term args then Inr s
      else if isp_term reply > m_currentTerm s then
        Inr ((persist C (s\<lparr>m_currentTerm := isp_term reply, m_votedFor := -1,
                           m_status := Follower\<rparr>))\<lparr>m_lastResetElectionTime := now\<rparr>)
      else
        bindR (vec_put (m_matchIndex s) server (isr_lastsnapshotincludeindex args)) (\<lambda>mi.
        bindR (vec_put (m_nextIndex s) server (isr_lastsnapshotincludeindex args + 1)) (\<lambda>ni.
        Inr (s\<lparr>m_matchIndex := mi, m_nextIndex := ni\<rparr>))))"

subsection \<open>The commit index from the match indices\<close>

definition replicas :: "Raft \<Rightarrow> int \<Rightarrow> int res" where
  "replicas s idx =
     foldR (\<lambda>i sum. if i = m_me s then Inr (sum + 1)
                    else bindR (vec_at (m_matchIndex s) i) (\<lambda>m.
                         Inr (if m \<ge> idx then sum + 1 else sum)))
       (map int [0..<m_peers_size s]) 0"

function commit_scan :: "Raft \<Rightarrow> int \<Rightarrow> int option res" where
  "commit_scan s idx =
     (if idx \<ge> m_lastSnapshotIncludeIndex s + 1 then
        bindR (replicas s idx) (\<lambda>sum.
        bindR (if sum \<ge> majority s
               then bindR (getLogTermFromLogIndex s idx) (\<lambda>t. Inr (t = m_currentTerm s))
               else Inr False) (\<lambda>hit.
        if hit then Inr (Some idx) else commit_scan s (idx - 1)))
      else Inr None)"
  by pat_completeness auto
termination
  by (relation "measure (\<lambda>(s, idx). nat (idx - m_lastSnapshotIncludeIndex s))") auto

declare commit_scan.simps [simp del]

definition leaderUpdateCommitIndex :: "Raft \<Rightarrow> Raft res" where
  "leaderUpdateCommitIndex s0 =
     (let s = s0\<lparr>m_commitIndex := m_lastSnapshotIncludeIndex s0\<rparr>
      in bindR (commit_scan s (getLastLogIndex s)) (\<lambda>r.
         case r of None \<Rightarrow> Inr s | Some idx \<Rightarrow> Inr (s\<lparr>m_commitIndex := idx\<rparr>)))"

subsection \<open>Commands, snapshots of the server, applied entries\<close>

text \<open>The result of \<open>Start\<close>: new index, new term, is-leader, state.\<close>

definition Start :: "raft_codec \<Rightarrow> Op \<Rightarrow> Raft \<Rightarrow> int \<times> int \<times> bool \<times> Raft" where
  "Start C cmd s =
     (if m_status s \<noteq> Leader then (-1, -1, False, s)
      else let e = \<lparr>command = oaOp C cmd, logterm = m_currentTerm s, logindex = getNewCommandIndex s\<rparr>;
               s1 = persist C (s\<lparr>m_logs := m_logs s @ [e]\<rparr>)
           in (logindex e, logterm e, True, s1))"

definition Snapshot :: "raft_codec \<Rightarrow> int \<Rightarrow> string \<Rightarrow> Raft \<Rightarrow> Raft res" where
  "Snapshot C index snapshot s =
     (if m_lastSnapshotIncludeIndex s \<ge> index \<or> index > m_commitIndex s then Inr s
      else
        let lastLogIndex = getLastLogIndex s in
        bindR (getSlicesIndexFromLogIndex s index) (\<lambda>j.
        bindR (vec_at (m_logs s) j) (\<lambda>e.
        bindR (mapR (\<lambda>i. bindR (getSlicesIndexFromLogIndex s i) (vec_at (m_logs s)))
                    [index + 1..lastLogIndex]) (\<lambda>trunckedLogs.
        let s1 = s\<lparr>m_lastSnapshotIncludeIndex := index, m_lastSnapshotIncludeTerm := logterm e,
                   m_logs := trunckedLogs, m_commitIndex := max (m_commitIndex s) index\<rparr>;
            s2 = s1\<lparr>m_lastApplied := max (m_commitIndex s1) index\<rparr>;
            s3 = s2\<lparr>m_persister := Save (persistData C s2) snapshot (m_persister s2)\<rparr> in
        bindR (myAssert (int (length (m_logs s3)) + m_lastSnapshotIncludeIndex s3 = lastLogIndex)) (\<lambda>_.
        Inr s3)))))"

function apply_loop :: "Raft \<Rightarrow> (ApplyMsg list \<times> Raft) res" where
  "apply_loop s =
     (if m_lastApplied s < m_commitIndex s then
        let s1 = s\<lparr>m_lastApplied := m_lastApplied s + 1\<rparr> in
        bindR (getSlicesIndexFromLogIndex s1 (m_lastApplied s1)) (\<lambda>j.
        bindR (vec_at (m_logs s1) j) (\<lambda>e.
        bindR (myAssert (logindex e = m_lastApplied s1)) (\<lambda>_.
        bindR (apply_loop s1) (\<lambda>(msgs, s2).
        Inr (newApplyMsg\<lparr>CommandValid := True, SnapShotValid := False, Command := command e,
                         CommandIndex := m_lastApplied s1\<rparr> # msgs, s2)))))
      else Inr ([], s))"
  by pat_completeness auto
termination
  by (relation "measure (\<lambda>s. nat (m_commitIndex s - m_lastApplied s))") auto

declare apply_loop.simps [simp del]

definition getApplyLogs :: "Raft \<Rightarrow> (ApplyMsg list \<times> Raft) res" where
  "getApplyLogs s =
     bindR (myAssert (m_commitIndex s \<le> getLastLogIndex s)) (\<lambda>_. apply_loop s)"

text \<open>
  One round of \<open>applierTicker\<close>: the messages are collected under the mutex and pushed after it is
  released.
\<close>

definition pushMsgToKvServer :: "ApplyMsg \<Rightarrow> Raft \<Rightarrow> Raft" where
  "pushMsgToKvServer msg s = s\<lparr>applyChan := Push msg (applyChan s)\<rparr>"

definition applierTicker_round :: "Raft \<Rightarrow> Raft res" where
  "applierTicker_round s =
     bindR (getApplyLogs s) (\<lambda>(applyMsgs, s1). Inr (fold pushMsgToKvServer applyMsgs s1))"

subsection \<open>Terms, votes and the invariant\<close>

lemma doElection_result:
  assumes "doElection C now s = (calls, t)" "m_status s \<noteq> Leader"
  shows "m_currentTerm t = m_currentTerm s + 1" "m_votedFor t = m_me s" "m_status t = Candidate"
    "m_me t = m_me s" "m_peers_size t = m_peers_size s" "m_logs t = m_logs s"
    "calls = map (\<lambda>i. (i, \<lparr>rva_term = m_currentTerm s + 1, rva_candidateid = m_me s,
       rva_lastlogindex = getLastLogIndex s, rva_lastlogterm = getLastLogTerm s\<rparr>)) (peers_but_me s)"
    "raft_content (m_persister t) = persistData C t"
proof -
  let ?s1 = "s\<lparr>m_status := Candidate, m_currentTerm := m_currentTerm s + 1, m_votedFor := m_me s\<rparr>"
  from assms have t: "t = (persist C ?s1)\<lparr>m_lastResetElectionTime := now\<rparr>"
    by (simp add: doElection_def Let_def)
  then show "m_currentTerm t = m_currentTerm s + 1" "m_votedFor t = m_me s" "m_status t = Candidate"
    "m_me t = m_me s" "m_peers_size t = m_peers_size s" "m_logs t = m_logs s"
    "raft_content (m_persister t) = persistData C t"
    by (simp_all add: persistData_def)
  from assms show "calls = map (\<lambda>i. (i, \<lparr>rva_term = m_currentTerm s + 1, rva_candidateid = m_me s,
       rva_lastlogindex = getLastLogIndex s, rva_lastlogterm = getLastLogTerm s\<rparr>)) (peers_but_me s)"
    by (auto simp: doElection_def Let_def peers_but_me_def getLastLogIndex_def getLastLogTerm_def
        case_prod_beta)
qed

lemma doElection_leader: "m_status s = Leader \<Longrightarrow> doElection C now s = ([], s)"
  by (simp add: doElection_def)

lemma raft_wf_doElection [inv_intros]:
  assumes "raft_wf s" "doElection C now s = (calls, t)"
  shows "raft_wf t"
proof (cases "m_status s = Leader")
  case True
  with assms show ?thesis by (simp add: doElection_leader)
next
  case False
  let ?s1 = "s\<lparr>m_status := Candidate, m_currentTerm := m_currentTerm s + 1, m_votedFor := m_me s\<rparr>"
  from assms False have t: "t = (persist C ?s1)\<lparr>m_lastResetElectionTime := now\<rparr>"
    by (simp add: doElection_def Let_def)
  have "raft_wf ?s1" using assms(1) by (rule raft_wf_follower)
  then have "raft_wf (persist C ?s1)" by (rule raft_wf_persistI)
  then show ?thesis unfolding t by (simp add: raft_wf_def)
qed

lemma becomeLeader_wf:
  assumes "raft_wf s" "m_status s \<noteq> Leader"
  shows "\<exists>t. becomeLeader C s = Inr t \<and> raft_wf t \<and> m_status t = Leader \<and>
    m_currentTerm t = m_currentTerm s \<and> m_votedFor t = m_votedFor s \<and>
    m_logs t = m_logs s \<and> m_me t = m_me s \<and> m_peers_size t = m_peers_size s \<and>
    getLastLogIndex t = getLastLogIndex s \<and>
    m_nextIndex t = replicate (m_peers_size s) (getLastLogIndex s + 1) \<and>
    m_matchIndex t = replicate (m_peers_size s) 0"
proof -
  let ?n = "m_peers_size s"
  let ?u = "s\<lparr>m_status := Leader, m_nextIndex := replicate ?n (getLastLogIndex s + 1),
              m_matchIndex := replicate ?n 0\<rparr>"
  have "becomeLeader C s = Inr (persist C ?u)"
    using assms by (simp add: becomeLeader_def raft_wf_def Let_def)
  moreover have "raft_wf ?u" using assms(1) by (simp add: raft_wf_def)
  then have "raft_wf (persist C ?u)" by (rule raft_wf_persistI)
  ultimately show ?thesis by simp
qed

lemma sendRequestVote_reply_cases:
  assumes "sendRequestVote_reply C ok reply votedNum s = Inr (v, hb, t)"
  obtains (same) "t = s" "\<not> hb" "v = votedNum"
    | (stepdown) "rvr_term reply > m_currentTerm s" "\<not> hb" "v = votedNum"
      "t = persist C (s\<lparr>m_status := Follower, m_currentTerm := rvr_term reply, m_votedFor := -1\<rparr>)"
    | (count) "ok" "rvr_term reply = m_currentTerm s" "rvr_votegranted reply" "v = votedNum + 1"
      "votedNum + 1 < majority s" "\<not> hb" "t = s"
    | (win) "ok" "rvr_term reply = m_currentTerm s" "rvr_votegranted reply" "v = 0"
      "votedNum + 1 \<ge> majority s" "hb" "m_status s \<noteq> Leader" "becomeLeader C s = Inr t"
proof -
  consider "\<not> ok" | "ok" "rvr_term reply > m_currentTerm s" | "ok" "rvr_term reply < m_currentTerm s"
    | "ok" "rvr_term reply = m_currentTerm s" "\<not> rvr_votegranted reply"
    | "ok" "rvr_term reply = m_currentTerm s" "rvr_votegranted reply" "votedNum + 1 < majority s"
    | "ok" "rvr_term reply = m_currentTerm s" "rvr_votegranted reply" "votedNum + 1 \<ge> majority s"
    by linarith
  then show ?thesis
  proof cases
    case 2
    then have "sendRequestVote_reply C ok reply votedNum s = Inr (votedNum, False,
        persist C (s\<lparr>m_status := Follower, m_currentTerm := rvr_term reply, m_votedFor := -1\<rparr>))"
      by (simp add: sendRequestVote_reply_def)
    with assms 2 show ?thesis by (intro stepdown) simp_all
  next
    case 5
    with assms show ?thesis by (intro count) (simp_all add: sendRequestVote_reply_def Let_def)
  next
    case 6
    with assms have "bindR (becomeLeader C s) (\<lambda>s'. Inr (0, True, s')) = Inr (v, hb, t)"
      by (simp add: sendRequestVote_reply_def Let_def)
    then have b: "becomeLeader C s = Inr t" "v = 0" "hb" by (auto elim!: bindR_InrE)
    then have "m_status s \<noteq> Leader" by (auto simp: becomeLeader_def split: if_splits)
    with b 6 show ?thesis by (intro win)
  qed (use assms in \<open>auto intro!: same simp: sendRequestVote_reply_def\<close>)
qed

lemma becomeLeader_fields:
  assumes "becomeLeader C s = Inr t"
  shows "m_currentTerm t = m_currentTerm s" "m_votedFor t = m_votedFor s" "m_status t = Leader"
    "m_me t = m_me s" "m_peers_size t = m_peers_size s"
  using assms by (auto simp: becomeLeader_def Let_def split: if_splits)

lemma sendRequestVote_reply_vote_keeps:
  "sendRequestVote_reply C ok reply votedNum s = Inr (v, hb, t) \<Longrightarrow> vote_keeps s t"
  by (erule sendRequestVote_reply_cases) (auto simp: vote_keeps_def becomeLeader_fields)

lemma raft_wf_sendRequestVote_reply [inv_intros]:
  assumes "raft_wf s" "sendRequestVote_reply C ok reply votedNum s = Inr (v, hb, t)"
  shows "raft_wf t"
  using assms(2)
proof (cases rule: sendRequestVote_reply_cases)
  case stepdown
  with raft_wf_follower(1) [OF assms(1)] show ?thesis by (simp add: raft_wf_persistI)
next
  case win
  with becomeLeader_wf [OF assms(1) win(7), of C] show ?thesis by auto
qed (use assms in simp_all)

lemma raft_wf_Start [inv_intros]:
  assumes "raft_wf s" "Start C cmd s = (i, tm, l, t)"
  shows "raft_wf t"
proof (cases "m_status s = Leader")
  case True
  let ?e = "\<lparr>command = oaOp C cmd, logterm = m_currentTerm s, logindex = getNewCommandIndex s\<rparr>"
  let ?u = "s\<lparr>m_logs := m_logs s @ [?e]\<rparr>"
  from assms True have t: "t = persist C ?u" by (auto simp: Start_def Let_def)
  from assms(1) have l: "log_wf s" by (simp add: raft_wf_def)
  then have u: "log_wf ?u"
    by (auto simp: log_wf_def nth_append less_Suc_eq getNewCommandIndex_def getLastLogIndex_wf)
  from getLastLogIndex_wf [OF u] getLastLogIndex_wf [OF l]
  have "getLastLogIndex ?u = getLastLogIndex s + 1" by simp
  with u assms(1) have "raft_wf ?u" by (simp add: raft_wf_def)
  then show ?thesis unfolding t by (rule raft_wf_persistI)
next
  case False
  with assms show ?thesis by (simp add: Start_def)
qed

subsection \<open>What a heartbeat sends\<close>

lemma log_wf_suffix:
  assumes "log_wf s" "m_lastSnapshotIncludeIndex s \<le> prev" "prev \<le> getLastLogIndex s"
  shows "entries_wf prev (drop (nat (prev - m_lastSnapshotIncludeIndex s)) (m_logs s))"
    and "prev + int (length (drop (nat (prev - m_lastSnapshotIncludeIndex s)) (m_logs s))) =
           getLastLogIndex s"
  using assms by (auto simp: entries_wf_def log_wf_def getLastLogIndex_wf)

lemma hb_peer_correct:
  assumes wf: "log_wf s" and i: "0 \<le> i" "i < int (length (m_nextIndex s))"
    and nx: "1 \<le> m_nextIndex s ! nat i" "m_nextIndex s ! nat i \<le> getLastLogIndex s + 1"
  shows "hb_peer s i =
    (if m_nextIndex s ! nat i \<le> m_lastSnapshotIncludeIndex s then Inr (CallSnapShot i)
     else Inr (CallAppendEntries i
       \<lparr>aea_term = m_currentTerm s, aea_leaderid = m_me s,
        aea_prevlogindex = m_nextIndex s ! nat i - 1,
        aea_prevlogterm = term_at s (m_nextIndex s ! nat i - 1),
        aea_entries = drop (nat (m_nextIndex s ! nat i - 1 - m_lastSnapshotIncludeIndex s)) (m_logs s),
        aea_leadercommit = m_commitIndex s\<rparr>))"
proof -
  let ?n = "m_nextIndex s ! nat i" and ?snap = "m_lastSnapshotIncludeIndex s"
  have at: "vec_at (m_nextIndex s) i = Inr ?n" using i by (rule vec_at_inside)
  consider "?n \<le> ?snap" | "?n = ?snap + 1" | "?snap + 1 < ?n" by linarith
  then show ?thesis
  proof cases
    case 1
    with at nx show ?thesis by (simp add: hb_peer_def)
  next
    case 2
    with at nx wf show ?thesis
      by (simp add: hb_peer_def getPrevLogInfo_def term_at_def getLastLogIndex_wf)
  next
    case 3
    let ?p = "?n - 1"
    from 3 nx(2) have r: "?snap < ?p" "?p \<le> getLastLogIndex s" by simp_all
    have prev: "getPrevLogInfo s i = Inr (?p, term_at s ?p)"
      using 3 at slice_vec_at [OF wf r] getSlices_inside [OF r]
      by (simp add: getPrevLogInfo_def term_at_def entry_at_def)
    have len: "?p + int (length (drop (nat (?p - ?snap)) (m_logs s))) = getLastLogIndex s"
      using log_wf_suffix(2) [OF wf] r by simp
    have "nat (?p - ?snap - 1 + 1) = nat (?p - ?snap)" by simp
    with 3 at nx prev len getSlices_inside [OF r] show ?thesis
      by (simp add: hb_peer_def)
  qed
qed

lemma doHeartBeat_total:
  assumes "raft_wf s" "m_status s = Leader"
    and "\<forall>i < m_peers_size s. 1 \<le> m_nextIndex s ! i \<and> m_nextIndex s ! i \<le> getLastLogIndex s + 1"
  shows "\<exists>calls. doHeartBeat now s = Inr (calls, s\<lparr>m_lastResetHeartBeatTime := now\<rparr>) \<and>
           list_all2 (\<lambda>i c. hb_peer s i = Inr c) (peers_but_me s) calls"
proof -
  have "\<exists>c. hb_peer s i = Inr c" if "i \<in> set (peers_but_me s)" for i
  proof -
    from that obtain k where k: "i = int k" "k < m_peers_size s" by (auto simp: peers_but_me_def)
    then have "0 \<le> i" "i < int (length (m_nextIndex s))" "1 \<le> m_nextIndex s ! nat i"
      "m_nextIndex s ! nat i \<le> getLastLogIndex s + 1" "log_wf s"
      using assms by (simp_all add: raft_wf_def)
    from hb_peer_correct [OF this(5,1-4)] show ?thesis by (metis (full_types))
  qed
  then have "mapR (hb_peer s) (peers_but_me s) =
      Inr (map (\<lambda>i. projr (hb_peer s i)) (peers_but_me s))"
    by (intro mapR_total) (metis sum.sel(2))
  then obtain calls where c: "mapR (hb_peer s) (peers_but_me s) = Inr calls" by blast
  then have "list_all2 (\<lambda>i c. hb_peer s i = Inr c) (peers_but_me s) calls"
    by (simp add: mapR_Inr_iff)
  with c assms(2) show ?thesis by (intro exI [of _ calls]) (simp add: doHeartBeat_def)
qed

subsection \<open>Replies to replicated entries\<close>

lemma majority_pos [simp]: "1 \<le> majority s"
  by (simp add: majority_def)

text \<open>
  The ways \<open>sendAppendEntries_reply\<close> returns; \<open>sent\<close> is the last index the call carried.
\<close>

lemma sendAppendEntries_reply_cases:
  assumes "sendAppendEntries_reply ok server args reply k s = Inr (k', t)"
  obtains (same) "t = s" "k' = k"
    | (stepdown) "ok" "aer_appstate reply \<noteq> Disconnected" "aer_term reply > m_currentTerm s" "k' = k"
      "t = s\<lparr>m_status := Follower, m_currentTerm := aea_term args, m_votedFor := -1\<rparr>"
    | (backoff) "m_status s = Leader" "aer_term reply = m_currentTerm s" "\<not> aer_success reply"
      "aer_updatenextindex reply \<noteq> -100" "0 \<le> server" "server < int (length (m_nextIndex s))" "k' = k"
      "t = s\<lparr>m_nextIndex := (m_nextIndex s)[nat server := aer_updatenextindex reply]\<rparr>"
    | (advance) m s1 where "m_status s = Leader" "aer_term reply = m_currentTerm s" "aer_success reply"
      "0 \<le> server" "server < int (length (m_nextIndex s))" "server < int (length (m_matchIndex s))"
      "m = max (m_matchIndex s ! nat server) (aea_prevlogindex args + int (length (aea_entries args)))"
      "m \<le> getLastLogIndex s"
      "s1 = s\<lparr>m_matchIndex := (m_matchIndex s)[nat server := m],
              m_nextIndex := (m_nextIndex s)[nat server := m + 1]\<rparr>"
      "k + 1 < majority s" "k' = k + 1" "t = s1"
    | (commit) m s1 where "m_status s = Leader" "aer_term reply = m_currentTerm s" "aer_success reply"
      "0 \<le> server" "server < int (length (m_nextIndex s))" "server < int (length (m_matchIndex s))"
      "m = max (m_matchIndex s ! nat server) (aea_prevlogindex args + int (length (aea_entries args)))"
      "m \<le> getLastLogIndex s"
      "s1 = s\<lparr>m_matchIndex := (m_matchIndex s)[nat server := m],
              m_nextIndex := (m_nextIndex s)[nat server := m + 1]\<rparr>"
      "majority s \<le> k + 1" "k' = 0"
      "t = (if aea_entries args \<noteq> [] \<and> logterm (last (aea_entries args)) = m_currentTerm s
            then s1\<lparr>m_commitIndex := max (m_commitIndex s)
                     (aea_prevlogindex args + int (length (aea_entries args)))\<rparr> else s1)"
      "m_commitIndex t \<le> getLastLogIndex s"
proof -
  consider (a) "\<not> ok \<or> aer_appstate reply = Disconnected \<or> aer_term reply < m_currentTerm s"
    | (b) "ok" "aer_appstate reply \<noteq> Disconnected" "aer_term reply > m_currentTerm s"
    | (c) "ok" "aer_appstate reply \<noteq> Disconnected" "aer_term reply = m_currentTerm s" "m_status s \<noteq> Leader"
    | (d) "ok" "aer_appstate reply \<noteq> Disconnected" "aer_term reply = m_currentTerm s" "m_status s = Leader"
      "\<not> aer_success reply"
    | (e) "ok" "aer_appstate reply \<noteq> Disconnected" "aer_term reply = m_currentTerm s" "m_status s = Leader"
      "aer_success reply" by linarith
  then show ?thesis
  proof cases
    case a
    show ?thesis
    proof (cases "aer_term reply > m_currentTerm s \<and> ok \<and> aer_appstate reply \<noteq> Disconnected")
      case True
      with a show ?thesis by auto
    next
      case False
      with a have "sendAppendEntries_reply ok server args reply k s = Inr (k, s)"
        by (auto simp: sendAppendEntries_reply_def)
      with Inr_pairD [OF assms this] show ?thesis by (intro same) simp_all
    qed
  next
    case b
    then have "sendAppendEntries_reply ok server args reply k s =
      Inr (k, s\<lparr>m_status := Follower, m_currentTerm := aea_term args, m_votedFor := -1\<rparr>)"
      by (simp add: sendAppendEntries_reply_def)
    with Inr_pairD [OF assms this] b show ?thesis by (intro stepdown) simp_all
  next
    case c
    then have "sendAppendEntries_reply ok server args reply k s = Inr (k, s)"
      by (simp add: sendAppendEntries_reply_def)
    with Inr_pairD [OF assms this] show ?thesis by (intro same) simp_all
  next
    case d
    show ?thesis
    proof (cases "aer_updatenextindex reply = -100")
      case True
      with d have "sendAppendEntries_reply ok server args reply k s = Inr (k, s)"
        by (simp add: sendAppendEntries_reply_def)
      with Inr_pairD [OF assms this] show ?thesis by (intro same) simp_all
    next
      case False
      with d assms obtain ni where "vec_put (m_nextIndex s) server (aer_updatenextindex reply) = Inr ni"
        "k' = k" "t = s\<lparr>m_nextIndex := ni\<rparr>"
        by (auto simp: sendAppendEntries_reply_def elim!: bindR_InrE)
      with d False show ?thesis by (intro backoff) (auto simp: res_simps)
    qed
  next
    case e
    let ?sent = "aea_prevlogindex args + int (length (aea_entries args))"
    from e assms obtain m0 mi ni where v: "vec_at (m_matchIndex s) server = Inr m0"
      "vec_put (m_matchIndex s) server (max m0 ?sent) = Inr mi"
      "vec_put (m_nextIndex s) server (max m0 ?sent + 1) = Inr ni"
      by (auto simp: sendAppendEntries_reply_def Let_def elim!: bindR_InrE)
    let ?s1 = "s\<lparr>m_matchIndex := mi, m_nextIndex := ni\<rparr>"
    let ?s2 = "if aea_entries args \<noteq> [] \<and>
                   logterm (aea_entries args ! (length (aea_entries args) - 1)) = m_currentTerm s
                then ?s1\<lparr>m_commitIndex := max (m_commitIndex s) ?sent\<rparr> else ?s1"
    from v have p: "0 \<le> server" "server < int (length (m_nextIndex s))"
      "server < int (length (m_matchIndex s))" "m0 = m_matchIndex s ! nat server"
      "mi = (m_matchIndex s)[nat server := max m0 ?sent]"
      "ni = (m_nextIndex s)[nat server := max m0 ?sent + 1]"
      by (simp_all add: res_simps)
    have maj: "majority ?s1 = majority s" by (simp add: majority_def)
    from e v assms maj have r: "max m0 ?sent \<le> getLastLogIndex s \<and>
       (if majority s \<le> k + 1
        then m_commitIndex ?s2 \<le> getLastLogIndex s \<and> k' = 0 \<and> t = ?s2
        else k' = k + 1 \<and> t = ?s1)"
      by (auto simp: sendAppendEntries_reply_def Let_def split: if_splits)
    have lst: "aea_entries args \<noteq> [] \<Longrightarrow>
      aea_entries args ! (length (aea_entries args) - 1) = last (aea_entries args)"
      by (simp add: last_conv_nth)
    show ?thesis
    proof (cases "majority s \<le> k + 1")
      case True
      with r have "t = ?s2" "k' = 0" "m_commitIndex t \<le> getLastLogIndex s" "max m0 ?sent \<le> getLastLogIndex s"
        by simp_all
      with True e p lst show ?thesis by (intro commit [of "max m0 ?sent" ?s1]) auto
    next
      case False
      with r e p show ?thesis by (intro advance [of "max m0 ?sent" ?s1]) simp_all
    qed
  qed
qed

lemma raft_wf_sendAppendEntries_reply [inv_intros]:
  assumes wf: "raft_wf s" and ret: "sendAppendEntries_reply ok server args reply k s = Inr (k', t)"
  shows "raft_wf t"
  using ret
proof (cases rule: sendAppendEntries_reply_cases)
  case (commit m s1)
  have "log_wf t" "getLastLogIndex t = getLastLogIndex s" using commit wf by (simp_all add: raft_wf_def)
  with commit wf show ?thesis by (auto simp: raft_wf_def)
qed (use wf in \<open>simp_all add: raft_wf_def\<close>)

lemma raft_wf_leaderSendSnapShot_args [inv_intros]:
  "raft_wf s \<Longrightarrow> raft_wf (snd (leaderSendSnapShot_args s))"
  by (simp add: leaderSendSnapShot_args_def raft_wf_def persister_wf_ReadSnapshot case_prod_beta)

lemma leaderSendSnapShot_reply_cases:
  assumes "leaderSendSnapShot_reply C now ok server args reply s = Inr t"
  obtains (same) "t = s"
    | (stepdown) "isp_term reply > m_currentTerm s"
      "t = (persist C (s\<lparr>m_currentTerm := isp_term reply, m_votedFor := -1,
                         m_status := Follower\<rparr>))\<lparr>m_lastResetElectionTime := now\<rparr>"
    | (advance) "m_status s = Leader" "m_currentTerm s = isr_term args"
      "0 \<le> server" "server < int (length (m_matchIndex s))" "server < int (length (m_nextIndex s))"
      "t = s\<lparr>m_matchIndex := (m_matchIndex s)[nat server := isr_lastsnapshotincludeindex args],
             m_nextIndex := (m_nextIndex s)[nat server := isr_lastsnapshotincludeindex args + 1]\<rparr>"
proof -
  consider (a) "\<not> ok \<or> m_status s \<noteq> Leader \<or> m_currentTerm s \<noteq> isr_term args"
    | (b) "ok" "m_status s = Leader" "m_currentTerm s = isr_term args" "isp_term reply > m_currentTerm s"
    | (c) "ok" "m_status s = Leader" "m_currentTerm s = isr_term args" "isp_term reply \<le> m_currentTerm s"
    by linarith
  then show ?thesis
  proof cases
    case a
    with assms show ?thesis
      by (intro same) (auto simp: leaderSendSnapShot_reply_def split: if_splits)
  next
    case b
    with assms show ?thesis by (intro stepdown) (simp_all add: leaderSendSnapShot_reply_def)
  next
    case c
    with assms show ?thesis
      by (intro advance) (auto simp: leaderSendSnapShot_reply_def res_simps)
  qed
qed

lemma leaderSendSnapShot_reply_vote_keeps:
  "leaderSendSnapShot_reply C now ok server args reply s = Inr t \<Longrightarrow> vote_keeps s t"
  by (erule leaderSendSnapShot_reply_cases) (simp_all add: vote_keeps_def)

lemma raft_wf_leaderSendSnapShot_reply [inv_intros]:
  assumes wf: "raft_wf s" and ret: "leaderSendSnapShot_reply C now ok server args reply s = Inr t"
  shows "raft_wf t"
  using ret
proof (cases rule: leaderSendSnapShot_reply_cases)
  case stepdown
  have "raft_wf (persist C (s\<lparr>m_currentTerm := isp_term reply, m_votedFor := -1, m_status := Follower\<rparr>))"
    using wf by (intro raft_wf_persistI) (simp add: raft_wf_def)
  with stepdown show ?thesis by (simp add: raft_wf_def)
qed (use wf in \<open>simp_all add: raft_wf_def\<close>)

subsection \<open>Cutting the log behind a snapshot\<close>

lemma truncated_logs:
  assumes "log_wf s" "m_lastSnapshotIncludeIndex s \<le> index" "index \<le> getLastLogIndex s"
  shows "mapR (\<lambda>i. bindR (getSlicesIndexFromLogIndex s i) (vec_at (m_logs s)))
           [index + 1..getLastLogIndex s] =
         Inr (drop (nat (index - m_lastSnapshotIncludeIndex s)) (m_logs s))"
proof -
  let ?g = "\<lambda>i. entry_at s i"
  have "mapR (\<lambda>i. bindR (getSlicesIndexFromLogIndex s i) (vec_at (m_logs s)))
      [index + 1..getLastLogIndex s] = Inr (map ?g [index + 1..getLastLogIndex s])"
    using assms(2) slice_vec_at [OF assms(1)] by (intro mapR_total) (simp add: getSlices_inside)
  moreover have "map ?g [index + 1..getLastLogIndex s] =
      drop (nat (index - m_lastSnapshotIncludeIndex s)) (m_logs s)"
  proof (rule nth_equalityI)
    show "length (map ?g [index + 1..getLastLogIndex s]) =
        length (drop (nat (index - m_lastSnapshotIncludeIndex s)) (m_logs s))"
      using assms by (simp add: getLastLogIndex_wf nat_diff_distrib')
  next
    fix k assume "k < length (map ?g [index + 1..getLastLogIndex s])"
    then have k: "k < nat (getLastLogIndex s - index)" by simp
    then have "map ?g [index + 1..getLastLogIndex s] ! k = ?g (index + 1 + int k)" by simp
    also have "\<dots> = m_logs s ! (nat (index - m_lastSnapshotIncludeIndex s) + k)"
    proof -
      have "nat (index + 1 + int k - m_lastSnapshotIncludeIndex s - 1) =
          nat (index - m_lastSnapshotIncludeIndex s) + k" using assms(2) by simp
      then show ?thesis by (simp add: entry_at_def)
    qed
    also have "\<dots> = drop (nat (index - m_lastSnapshotIncludeIndex s)) (m_logs s) ! k"
      using assms by (subst nth_drop) (auto simp: getLastLogIndex_wf)
    finally show "map ?g [index + 1..getLastLogIndex s] ! k =
        drop (nat (index - m_lastSnapshotIncludeIndex s)) (m_logs s) ! k" .
  qed
  ultimately show ?thesis by simp
qed

text \<open>The state \<open>Snapshot\<close> leaves when it does not reject the index.\<close>

definition snapshot_state :: "raft_codec \<Rightarrow> int \<Rightarrow> string \<Rightarrow> Raft \<Rightarrow> Raft" where
  "snapshot_state C index snapshot s =
     (let s1 = s\<lparr>m_lastSnapshotIncludeIndex := index,
                 m_lastSnapshotIncludeTerm := logterm (entry_at s index),
                 m_logs := drop (nat (index - m_lastSnapshotIncludeIndex s)) (m_logs s),
                 m_lastApplied := m_commitIndex s\<rparr>
      in s1\<lparr>m_persister := Save (persistData C s1) snapshot (m_persister s1)\<rparr>)"

lemma Snapshot_accepts:
  assumes wf: "raft_wf s" and "m_lastSnapshotIncludeIndex s < index" "index \<le> m_commitIndex s"
  shows "Snapshot C index snapshot s = Inr (snapshot_state C index snapshot s)"
proof -
  from wf have l: "log_wf s" "m_commitIndex s \<le> getLastLogIndex s" by (simp_all add: raft_wf_def)
  let ?d = "drop (nat (index - m_lastSnapshotIncludeIndex s)) (m_logs s)"
  have len: "int (length ?d) + index = getLastLogIndex s"
    using log_wf_suffix(2) [OF l(1), of index] assms(2,3) l(2) by simp
  have upd: "s\<lparr>m_lastSnapshotIncludeIndex := index, m_lastSnapshotIncludeTerm := logterm (entry_at s index),
      m_logs := ?d, m_commitIndex := max (m_commitIndex s) index,
      m_lastApplied := max (max (m_commitIndex s) index) index\<rparr> =
    s\<lparr>m_lastSnapshotIncludeIndex := index, m_lastSnapshotIncludeTerm := logterm (entry_at s index),
      m_logs := ?d, m_lastApplied := m_commitIndex s\<rparr>"
    using assms(3) by simp
  show ?thesis
    using assms l len
    by (simp add: Snapshot_def snapshot_state_def Let_def getSlices_inside slice_vec_at truncated_logs
        upd [simplified])
qed

lemma Snapshot_rejects:
  "index \<le> m_lastSnapshotIncludeIndex s \<or> m_commitIndex s < index \<Longrightarrow>
     Snapshot C index snapshot s = Inr s"
  by (auto simp: Snapshot_def)

lemma snapshot_state_log:
  assumes wf: "raft_wf s" and "m_lastSnapshotIncludeIndex s < index" "index \<le> m_commitIndex s"
  shows "raft_wf (snapshot_state C index snapshot s)"
    and "getLastLogIndex (snapshot_state C index snapshot s) = getLastLogIndex s"
    and "\<And>i. index < i \<Longrightarrow> i \<le> getLastLogIndex s \<Longrightarrow>
           entry_at (snapshot_state C index snapshot s) i = entry_at s i"
proof -
  let ?t = "snapshot_state C index snapshot s"
  from wf have l: "log_wf s" "m_commitIndex s \<le> getLastLogIndex s" by (simp_all add: raft_wf_def)
  have t: "m_logs ?t = drop (nat (index - m_lastSnapshotIncludeIndex s)) (m_logs s)"
    "m_lastSnapshotIncludeIndex ?t = index"
    by (simp_all add: snapshot_state_def Let_def)
  have w: "log_wf ?t" and last: "getLastLogIndex ?t = getLastLogIndex s"
    and ent: "\<And>i. index < i \<Longrightarrow> i \<le> getLastLogIndex s \<Longrightarrow> entry_at ?t i = entry_at s i"
    using snapshot_drop_log_wf [OF l(1), of index ?t] assms(2,3) l(2) t by simp_all
  show "getLastLogIndex ?t = getLastLogIndex s" by (rule last)
  show "\<And>i. index < i \<Longrightarrow> i \<le> getLastLogIndex s \<Longrightarrow> entry_at ?t i = entry_at s i" by (rule ent)
  have "m_lastApplied ?t = m_commitIndex s" "m_commitIndex ?t = m_commitIndex s"
    "m_nextIndex ?t = m_nextIndex s" "m_matchIndex ?t = m_matchIndex s"
    "m_peers_size ?t = m_peers_size s" "m_me ?t = m_me s" "persister_wf (m_persister ?t)"
    by (simp_all add: snapshot_state_def Let_def persister_wf_Save)
  with w last t assms show "raft_wf ?t" by (simp add: raft_wf_def)
qed

lemma raft_wf_Snapshot [inv_intros]:
  assumes "raft_wf s" "Snapshot C index snapshot s = Inr t"
  shows "raft_wf t"
proof (cases "m_lastSnapshotIncludeIndex s < index \<and> index \<le> m_commitIndex s")
  case True
  with assms show ?thesis using snapshot_state_log(1) by (simp add: Snapshot_accepts) blast
next
  case False
  then have "Snapshot C index snapshot s = Inr s" by (intro Snapshot_rejects) auto
  with assms show ?thesis by simp
qed

subsection \<open>Applying committed entries\<close>

definition apply_msg :: "Raft \<Rightarrow> int \<Rightarrow> ApplyMsg" where
  "apply_msg s i = newApplyMsg\<lparr>CommandValid := True, SnapShotValid := False,
     Command := command (entry_at s i), CommandIndex := i\<rparr>"

lemma apply_loop_result:
  assumes "log_wf s" "m_lastSnapshotIncludeIndex s \<le> m_lastApplied s"
    "m_commitIndex s \<le> getLastLogIndex s"
  shows "apply_loop s = Inr (map (apply_msg s) [m_lastApplied s + 1..m_commitIndex s],
           s\<lparr>m_lastApplied := max (m_lastApplied s) (m_commitIndex s)\<rparr>)"
  using assms
proof (induction s rule: apply_loop.induct)
  case (1 s)
  show ?case
  proof (cases "m_lastApplied s < m_commitIndex s")
    case False
    then show ?thesis by (simp add: apply_loop.simps [of s] max_def)
  next
    case True
    let ?i = "m_lastApplied s + 1"
    let ?s1 = "s\<lparr>m_lastApplied := ?i\<rparr>"
    have r: "m_lastSnapshotIncludeIndex s < ?i" "?i \<le> getLastLogIndex s"
      using True "1.prems" by simp_all
    have slice: "getSlicesIndexFromLogIndex ?s1 ?i = Inr (?i - m_lastSnapshotIncludeIndex s - 1)"
      using r by (simp add: getSlices_inside)
    have at: "vec_at (m_logs s) (?i - m_lastSnapshotIncludeIndex s - 1) = Inr (entry_at s ?i)"
      "logindex (entry_at s ?i) = ?i"
      using slice_vec_at [OF "1.prems"(1) r] entry_at_index [OF "1.prems"(1) r] by simp_all
    have eq: "apply_msg ?s1 = apply_msg s" by (simp add: apply_msg_def fun_eq_iff)
    have "apply_loop ?s1 = Inr (map (apply_msg ?s1) [m_lastApplied ?s1 + 1..m_commitIndex ?s1],
        ?s1\<lparr>m_lastApplied := max (m_lastApplied ?s1) (m_commitIndex ?s1)\<rparr>)"
      using "1.IH" [OF True refl, of "?i - m_lastSnapshotIncludeIndex s - 1" "entry_at s ?i"]
        slice at True "1.prems" by simp
    then have rec: "apply_loop ?s1 = Inr (map (apply_msg s) [?i + 1..m_commitIndex s],
        s\<lparr>m_lastApplied := max (m_lastApplied s) (m_commitIndex s)\<rparr>)"
      using True by (simp add: eq max_def)
    have upto: "[?i..m_commitIndex s] = ?i # [?i + 1..m_commitIndex s]"
      using True by (intro upto_rec1) simp
    show ?thesis
      using True slice at rec
      by (simp add: apply_loop.simps [of s] upto Let_def apply_msg_def)
  qed
qed

lemma getApplyLogs_result:
  assumes "raft_wf s"
  shows "getApplyLogs s = Inr (map (apply_msg s) [m_lastApplied s + 1..m_commitIndex s],
           s\<lparr>m_lastApplied := max (m_lastApplied s) (m_commitIndex s)\<rparr>)"
  using assms by (simp add: getApplyLogs_def raft_wf_def apply_loop_result)

lemma pushMsgs_result:
  "fold pushMsgToKvServer msgs s = s\<lparr>applyChan := fold Push msgs (applyChan s)\<rparr>"
  by (induction msgs arbitrary: s) (simp_all add: pushMsgToKvServer_def)

lemma applierTicker_round_result:
  assumes "raft_wf s"
  shows "applierTicker_round s = Inr (s\<lparr>m_lastApplied := max (m_lastApplied s) (m_commitIndex s),
     applyChan := fold Push (map (apply_msg s) [m_lastApplied s + 1..m_commitIndex s]) (applyChan s)\<rparr>)"
  using assms by (simp add: applierTicker_round_def getApplyLogs_result pushMsgs_result)

lemma raft_wf_applierTicker_round [inv_intros]:
  assumes "raft_wf s" "applierTicker_round s = Inr t"
  shows "raft_wf t"
proof -
  have "t = s\<lparr>m_lastApplied := max (m_lastApplied s) (m_commitIndex s),
     applyChan := fold Push (map (apply_msg s) [m_lastApplied s + 1..m_commitIndex s]) (applyChan s)\<rparr>"
    using applierTicker_round_result [OF assms(1)] assms(2) by simp
  with assms(1) show ?thesis by (auto simp: raft_wf_def)
qed

subsection \<open>Properties\<close>

text \<open>C10. Counting votes: on a candidate that satisfies the invariant the code after the
  RequestVote call always returns and keeps the invariant. The candidate becomes leader exactly
  when a vote of its own term completes a majority; it then resets every \<open>nextIndex\<close> to the index
  after its last entry and every \<open>matchIndex\<close> to 0 and starts a heartbeat. A reply with a higher
  term makes it a follower of that term.\<close>

theorem sendRequestVote_reply_correct:
  assumes wf: "raft_wf s" and "m_status s \<noteq> Leader"
  shows "\<exists>v hb t. sendRequestVote_reply C ok reply votedNum s = Inr (v, hb, t) \<and>
     raft_wf t \<and> vote_keeps s t \<and>
     (hb \<longleftrightarrow> ok \<and> rvr_term reply = m_currentTerm s \<and> rvr_votegranted reply \<and>
            votedNum + 1 \<ge> majority s) \<and>
     (hb \<longleftrightarrow> m_status t = Leader) \<and>
     (hb \<longrightarrow> m_currentTerm t = m_currentTerm s \<and> m_votedFor t = m_votedFor s \<and>
            m_logs t = m_logs s \<and>
            m_nextIndex t = replicate (m_peers_size s) (getLastLogIndex s + 1) \<and>
            m_matchIndex t = replicate (m_peers_size s) 0) \<and>
     (ok \<and> rvr_term reply > m_currentTerm s \<longrightarrow>
        m_status t = Follower \<and> m_currentTerm t = rvr_term reply \<and> m_votedFor t = -1)"
proof -
  obtain b where b: "becomeLeader C s = Inr b" "m_status b = Leader" "m_currentTerm b = m_currentTerm s"
    "m_votedFor b = m_votedFor s" "m_logs b = m_logs s"
    "m_nextIndex b = replicate (m_peers_size s) (getLastLogIndex s + 1)"
    "m_matchIndex b = replicate (m_peers_size s) 0"
    using becomeLeader_wf [OF assms, of C] by blast
  have "\<exists>v hb t. sendRequestVote_reply C ok reply votedNum s = Inr (v, hb, t)"
    using b(1) by (auto simp: sendRequestVote_reply_def Let_def)
  then obtain v hb t where ret: "sendRequestVote_reply C ok reply votedNum s = Inr (v, hb, t)" by blast
  have keep: "raft_wf t" "vote_keeps s t"
    using raft_wf_sendRequestVote_reply [OF wf ret] sendRequestVote_reply_vote_keeps [OF ret] by auto
  have "(hb \<longleftrightarrow> ok \<and> rvr_term reply = m_currentTerm s \<and> rvr_votegranted reply \<and>
            votedNum + 1 \<ge> majority s) \<and>
     (if hb then t = b else m_status t \<noteq> Leader) \<and>
     (ok \<and> rvr_term reply > m_currentTerm s \<longrightarrow>
        m_status t = Follower \<and> m_currentTerm t = rvr_term reply \<and> m_votedFor t = -1)"
    using ret b(1) assms(2)
    by (auto simp: sendRequestVote_reply_def Let_def split: if_splits)
  with ret keep b show ?thesis by (intro exI [of _ v] exI [of _ hb] exI [of _ t]) auto
qed

theorem sendRequestVote_reply_correct_witness:
  "\<exists>v t. sendRequestVote_reply codec0 True \<lparr>rvr_term = 0, rvr_votegranted = True, rvr_votestate = Normal\<rparr>
     1 sample_follower = Inr (v, True, t) \<and> raft_wf t \<and> m_status t = Leader \<and> m_nextIndex t = [3, 3, 3]"
proof -
  have f: "m_status sample_follower \<noteq> Leader" "m_currentTerm sample_follower = 0"
    "m_peers_size sample_follower = 3" "majority sample_follower = 2"
    by (simp_all add: sample_follower_def node0_def majority_def)
  show ?thesis
    using sendRequestVote_reply_correct [OF sample_follower_wf(1) f(1), of codec0 True
        "\<lparr>rvr_term = 0, rvr_votegranted = True, rvr_votestate = Normal\<rparr>" 1] f sample_follower_wf(2)
    by (auto simp: eval_nat_numeral)
qed



text \<open>C12. A leader's bookkeeping after an AppendEntries reply keeps the invariant, and its commit
  index never goes back; it moves only when a successful reply completes a majority of a round
  whose last entry is of the leader's own term, and then to the last index that round sent.\<close>

theorem sendAppendEntries_reply_commit:
  assumes "raft_wf s" and ret: "sendAppendEntries_reply ok server args reply k s = Inr (k', t)"
  shows "raft_wf t \<and> m_commitIndex s \<le> m_commitIndex t \<and>
    (m_commitIndex t \<noteq> m_commitIndex s \<longrightarrow>
       m_status s = Leader \<and> aer_success reply \<and> aer_term reply = m_currentTerm s \<and>
       majority s \<le> k + 1 \<and> aea_entries args \<noteq> [] \<and>
       logterm (last (aea_entries args)) = m_currentTerm s \<and>
       m_commitIndex t = aea_prevlogindex args + int (length (aea_entries args)) \<and>
       m_commitIndex t \<le> getLastLogIndex s \<and> k' = 0)"
  using ret
proof (cases rule: sendAppendEntries_reply_cases)
  case (commit m s1)
  with raft_wf_sendAppendEntries_reply [OF assms] show ?thesis by (auto split: if_splits)
qed (use raft_wf_sendAppendEntries_reply [OF assms] in simp_all)

theorem sendAppendEntries_reply_commit_witness:
  "\<exists>k t. sendAppendEntries_reply True 1 (sample_args\<lparr>aea_prevlogindex := 1,
        aea_entries := [\<lparr>command = ''b'', logterm = 1, logindex = 2\<rparr>]\<rparr>)
     \<lparr>aer_term = 1, aer_success = True, aer_updatenextindex = 3, aer_appstate = AppNormal\<rparr> 1 sample_leader =
       Inr (k, t) \<and> m_commitIndex t = 2 \<and> raft_wf t"
proof -
  let ?a = "sample_args\<lparr>aea_prevlogindex := 1,
        aea_entries := [\<lparr>command = ''b'', logterm = 1, logindex = 2\<rparr>]\<rparr>"
  let ?r = "\<lparr>aer_term = 1, aer_success = True, aer_updatenextindex = 3, aer_appstate = AppNormal\<rparr>"
  have "case sendAppendEntries_reply True 1 ?a ?r 1 sample_leader of
      Inr (k, t) \<Rightarrow> m_commitIndex t = 2 | Inl _ \<Rightarrow> False" by code_simp
  then obtain k t where ret: "sendAppendEntries_reply True 1 ?a ?r 1 sample_leader = Inr (k, t)"
    "m_commitIndex t = 2" by (auto split: sum.splits)
  from sendAppendEntries_reply_commit [OF sample_leader_wf(1) ret(1)] ret show ?thesis by blast
qed

text \<open>C13. \<open>Snapshot\<close> with an index between the node's snapshot and its commit index keeps the
  entries after the index and the invariant and writes both files; but it also moves
  \<open>m_lastApplied\<close> to the commit index, so every entry that was committed and not yet handed to the
  server is never handed over: the next collection is empty.\<close>

theorem Snapshot_truncates_and_skips:
  assumes wf: "raft_wf s" and idx: "m_lastSnapshotIncludeIndex s < index" "index \<le> m_commitIndex s"
  shows "\<exists>t. Snapshot C index snapshot s = Inr t \<and> raft_wf t \<and>
     m_lastSnapshotIncludeIndex t = index \<and> m_lastSnapshotIncludeTerm t = logterm (entry_at s index) \<and>
     getLastLogIndex t = getLastLogIndex s \<and>
     (\<forall>i. index < i \<and> i \<le> getLastLogIndex s \<longrightarrow> entry_at t i = entry_at s i) \<and>
     raft_content (m_persister t) = persistData C t \<and> snapshot_content (m_persister t) = snapshot \<and>
     getApplyLogs t = Inr ([], t) \<and>
     getApplyLogs s = Inr (map (apply_msg s) [m_lastApplied s + 1..m_commitIndex s],
       s\<lparr>m_lastApplied := max (m_lastApplied s) (m_commitIndex s)\<rparr>)"
proof -
  let ?t = "snapshot_state C index snapshot s"
  note log = snapshot_state_log [OF assms, where C = C and snapshot = snapshot]
  have f: "m_lastSnapshotIncludeIndex ?t = index" "m_lastSnapshotIncludeTerm ?t = logterm (entry_at s index)"
    "m_lastApplied ?t = m_commitIndex s" "m_commitIndex ?t = m_commitIndex s"
    "snapshot_content (m_persister ?t) = snapshot" "raft_content (m_persister ?t) = persistData C ?t"
    by (simp_all add: snapshot_state_def Let_def persistData_def)
  have "?t\<lparr>m_lastApplied := max (m_lastApplied ?t) (m_commitIndex ?t)\<rparr> = ?t"
    using f(3,4) by simp
  then have "getApplyLogs ?t = Inr ([], ?t)" using getApplyLogs_result [OF log(1)] f(3,4) by simp
  with log f Snapshot_accepts [OF assms] getApplyLogs_result [OF wf] show ?thesis by blast
qed

theorem Snapshot_truncates_and_skips_witness:
  "\<exists>t msgs u. Snapshot codec0 1 ''s'' (sample_follower\<lparr>m_commitIndex := 2\<rparr>) = Inr t \<and>
     getApplyLogs t = Inr ([], t) \<and>
     getApplyLogs (sample_follower\<lparr>m_commitIndex := 2\<rparr>) = Inr (msgs, u) \<and> length msgs = 2"
proof -
  let ?s = "sample_follower\<lparr>m_commitIndex := 2\<rparr>"
  have f: "m_lastSnapshotIncludeIndex ?s < 1" "1 \<le> m_commitIndex ?s" "m_lastApplied ?s = 0"
    "m_commitIndex ?s = 2"
    by (simp_all add: sample_follower_def node0_def)
  have wf: "raft_wf ?s" using sample_follower_wf by (simp add: raft_wf_def)
  from Snapshot_truncates_and_skips [OF wf f(1,2), of codec0 "''s''"] f(3,4) show ?thesis
    by auto
qed

text \<open>One round of the apply thread hands over exactly the committed entries that were not
  yet handed over, each once and in the order of their indices, behind what the channel holds.\<close>

theorem applierTicker_in_order:
  assumes "raft_wf s"
  shows "\<exists>t. applierTicker_round s = Inr t \<and> raft_wf t \<and>
     m_queue (applyChan t) = m_queue (applyChan s) @
       map (\<lambda>i. newApplyMsg\<lparr>CommandValid := True, Command := command (entry_at s i), CommandIndex := i\<rparr>)
           [m_lastApplied s + 1..m_commitIndex s] \<and>
     m_lastApplied t = max (m_lastApplied s) (m_commitIndex s) \<and>
     applierTicker_round t = Inr t"
proof -
  let ?t = "s\<lparr>m_lastApplied := max (m_lastApplied s) (m_commitIndex s),
     applyChan := fold Push (map (apply_msg s) [m_lastApplied s + 1..m_commitIndex s]) (applyChan s)\<rparr>"
  have ret: "applierTicker_round s = Inr ?t" by (rule applierTicker_round_result [OF assms])
  have wf: "raft_wf ?t" by (rule raft_wf_applierTicker_round [OF assms ret])
  have "apply_msg s = (\<lambda>i. newApplyMsg\<lparr>CommandValid := True, Command := command (entry_at s i),
      CommandIndex := i\<rparr>)"
    by (simp add: fun_eq_iff apply_msg_def newApplyMsg_def)
  with ret wf applierTicker_round_result [OF wf] show ?thesis
    by (intro exI [of _ ?t]) (simp add: lq.contents_pushes)
qed

theorem applierTicker_in_order_witness:
  "\<exists>t. applierTicker_round (sample_follower\<lparr>m_commitIndex := 2\<rparr>) = Inr t \<and>
     m_lastApplied t = 2 \<and> length (m_queue (applyChan t)) = 2"
proof -
  let ?s = "sample_follower\<lparr>m_commitIndex := 2\<rparr>"
  have f: "m_lastApplied ?s = 0" "m_commitIndex ?s = 2" "m_queue (applyChan ?s) = []"
    by (simp_all add: sample_follower_def node0_def newLockQueue_def)
  have wf: "raft_wf ?s" using sample_follower_wf by (simp add: raft_wf_def)
  from applierTicker_in_order [OF wf] f show ?thesis by auto
qed

end
