(* ===== verification/RaftRecovery.thy ===== *)
theory RaftRecovery
  imports RaftLeader
begin

text \<open>
  What survives: the persisted state read back by \<open>readPersist\<close>, what the files give back through
  \<open>ReadRaftState\<close> and \<open>ReadSnapshot\<close>, and a node that is started again.
\<close>

subsection \<open>Reading back what was persisted\<close>

text \<open>
  The documented behaviour of the encoders the code relies on: an archive read by the reader of
  the same type gives the object back, and so does a parsed log entry.
\<close>

definition codec_reads_back :: "raft_codec \<Rightarrow> Raft \<Rightarrow> bool" where
  "codec_reads_back C s \<longleftrightarrow>
     (\<forall>e \<in> set (m_logs s). ParseEntry C (SerializeEntry C e) = e) \<and>
     (let b = \<lparr>bp_currentTerm = m_currentTerm s, bp_votedFor = m_votedFor s,
               bp_lastSnapshotIncludeIndex = m_lastSnapshotIncludeIndex s,
               bp_lastSnapshotIncludeTerm = m_lastSnapshotIncludeTerm s,
               bp_logs = map (SerializeEntry C) (m_logs s)\<rparr>
      in oaRaft C b \<noteq> [] \<and> iaRaft C (oaRaft C b) = Some b)"

text \<open>The round trip of the persisted state: \<open>readPersist\<close> of what \<open>persistData\<close> produced
  puts the term, the vote, the snapshot position and the whole log back, whatever the node's state
  was before.\<close>

theorem persist_roundtrip:
  assumes "codec_reads_back C s"
  shows "\<exists>t. readPersist C (persistData C s) s0 = Inr t \<and>
     m_currentTerm t = m_currentTerm s \<and> m_votedFor t = m_votedFor s \<and> m_logs t = m_logs s \<and>
     m_lastSnapshotIncludeIndex t = m_lastSnapshotIncludeIndex s \<and>
     m_lastSnapshotIncludeTerm t = m_lastSnapshotIncludeTerm s \<and>
     m_commitIndex t = m_commitIndex s0 \<and> m_lastApplied t = m_lastApplied s0"
proof -
  have "map (ParseEntry C) (map (SerializeEntry C) (m_logs s)) = m_logs s"
    using assms by (simp add: codec_reads_back_def map_idI)
  with assms show ?thesis
    by (simp add: readPersist_def persistData_def codec_reads_back_def Let_def)
qed

theorem persist_roundtrip_witness:
  "\<exists>t. readPersist \<lparr>SerializeEntry = command, ParseEntry = (\<lambda>x. \<lparr>command = x, logterm = 2, logindex = 1\<rparr>),
      oaRaft = (\<lambda>b. ''22''), iaRaft = (\<lambda>x. Some \<lparr>bp_currentTerm = 2, bp_votedFor = 1,
        bp_lastSnapshotIncludeIndex = 0, bp_lastSnapshotIncludeTerm = 0, bp_logs = [''a'']\<rparr>),
      oaOp = key, iaOp = (\<lambda>x. None)\<rparr> ''22'' (node0 3 0) = Inr t \<and> m_currentTerm t = 2"
proof -
  let ?C = "\<lparr>SerializeEntry = command, ParseEntry = (\<lambda>x. \<lparr>command = x, logterm = 2, logindex = 1\<rparr>),
      oaRaft = (\<lambda>b. ''22''), iaRaft = (\<lambda>x. Some \<lparr>bp_currentTerm = 2, bp_votedFor = 1,
        bp_lastSnapshotIncludeIndex = 0, bp_lastSnapshotIncludeTerm = 0, bp_logs = [''a'']\<rparr>),
      oaOp = key, iaOp = (\<lambda>x. None)\<rparr>"
  let ?s = "(node0 3 0)\<lparr>m_currentTerm := 2, m_votedFor := 1,
      m_logs := [\<lparr>command = ''a'', logterm = 2, logindex = 1\<rparr>]\<rparr>"
  have "codec_reads_back ?C ?s" by (simp add: codec_reads_back_def node0_def)
  from persist_roundtrip [OF this, of "node0 3 0"] show ?thesis
    by (auto simp: persistData_def)
qed

text \<open>What the files give back. Of the raft state and of the snapshot a read returns the text
  up to the first white space only; reading the snapshot empties its file, so a second read returns
  nothing; and after \<open>Save\<close> the recorded size of the raft state is 0 whatever was written.\<close>

theorem persister_reads:
  "ReadRaftState (Persister_dtor (SaveRaftState d p)) = read_token d \<and>
   fst (ReadSnapshot (Save rs sn p)) = read_token sn \<and>
   fst (ReadSnapshot (snd (ReadSnapshot (Save rs sn p)))) = [] \<and>
   RaftStateSize (SaveRaftState d p) = int (length d) \<and> RaftStateSize (Save rs sn p) = 0"
proof -
  have wf: "persister_wf (Save rs sn p)" by (rule persister_wf_Save)
  have "fst (ReadSnapshot (Save rs sn p)) = read_token sn"
    using content_ReadSnapshot(1) [OF wf] by simp
  moreover have "fst (ReadSnapshot (snd (ReadSnapshot (Save rs sn p)))) = []"
    using content_ReadSnapshot(1) [OF persister_wf_ReadSnapshot [OF wf]]
      content_ReadSnapshot(2) [OF wf] by simp
  moreover have "ReadRaftState (Persister_dtor (SaveRaftState d p)) = read_token d"
    by (simp add: ReadRaftState_def Persister_dtor_def SaveRaftState_def clearRaftState_def
        stream_defs Let_def split: prod.splits)
  ultimately show ?thesis by (simp add: size_SaveRaftState size_Save)
qed

text \<open>The snapshot a leader can send: the first call after the snapshot was written carries
  its text up to the first white space, and every later call carries an empty snapshot, although the
  node's snapshot index and term are unchanged.\<close>

theorem leaderSendSnapShot_once:
  assumes "raft_wf s"
  shows "let (args1, s1) = leaderSendSnapShot_args s; (args2, s2) = leaderSendSnapShot_args s1 in
     isr_data args1 = read_token (snapshot_content (m_persister s)) \<and> isr_data args2 = [] \<and>
     isr_lastsnapshotincludeindex args2 = isr_lastsnapshotincludeindex args1 \<and>
     isr_lastsnapshotincludeindex args1 = m_lastSnapshotIncludeIndex s \<and>
     raft_wf s1 \<and> raft_wf s2"
proof -
  from assms have p: "persister_wf (m_persister s)" by (simp add: raft_wf_def)
  note r = content_ReadSnapshot [OF p]
  note r2 = content_ReadSnapshot [OF persister_wf_ReadSnapshot [OF p]]
  have w1: "raft_wf (snd (leaderSendSnapShot_args s))"
    by (rule raft_wf_leaderSendSnapShot_args [OF assms])
  have w2: "raft_wf (snd (leaderSendSnapShot_args (snd (leaderSendSnapShot_args s))))"
    by (rule raft_wf_leaderSendSnapShot_args [OF w1])
  from r r2 w1 w2 show ?thesis
    by (simp add: leaderSendSnapShot_args_def Let_def case_prod_beta)
qed

theorem leaderSendSnapShot_once_witness:
  "isr_data (fst (leaderSendSnapShot_args (snd (leaderSendSnapShot_args (node0 3 0))))) = []"
proof -
  have "raft_wf (node0 3 0)" by (rule raft_wf_node0) simp_all
  from leaderSendSnapShot_once [OF this] show ?thesis by (simp add: Let_def case_prod_beta)
qed

text \<open>C16. A restart forgets the vote: the new process truncates the files it is about to read, so a
  node that granted its vote of a term, stopped, and was started again grants a second candidate its
  vote of the same term.\<close>

theorem restart_votes_again:
  assumes "RequestVote C now args reply s = Inr (r, t)" and "rvr_votegranted r"
    and "0 < rva_term args" and "rva_term args' = rva_term args"
    and "0 \<le> rva_lastlogterm args'" and "0 \<le> rva_lastlogindex args'"
    and stopped: "files = Persister_dtor (m_persister t)"
  shows "\<exists>s' r' t'.
     raft_init C n me (Persister_ctor (m_raftStateFile files) (m_snapshotFile files)) ch now' = Inr s' \<and>
     RequestVote C now' args' reply' s' = Inr (r', t') \<and> rvr_votegranted r' \<and>
     m_currentTerm t' = m_currentTerm t \<and> m_votedFor t' = rva_candidateid args'"
proof -
  from RequestVote_granted [OF assms(1,2)] have "m_currentTerm t = rva_term args" by blast
  with assms(3-6) show ?thesis
    by (simp add: raft_init_fresh RequestVote_def UpToDate_def getLastLogIndexAndTerm_def Let_def)
qed

theorem restart_votes_again_witness:
  "\<exists>r t. RequestVote codec0 0 \<lparr>rva_term = 1, rva_candidateid = 1, rva_lastlogindex = 0,
       rva_lastlogterm = 0\<rparr> newRequestVoteReply (node0 3 0) = Inr (r, t) \<and> m_votedFor t = 1 \<and>
     (\<exists>s' r' t'. RequestVote codec0 0 \<lparr>rva_term = 1, rva_candidateid = 2, rva_lastlogindex = 0,
       rva_lastlogterm = 0\<rparr> newRequestVoteReply s' = Inr (r', t') \<and> m_currentTerm t' = 1 \<and>
       m_votedFor t' = 2)"
proof -
  let ?a = "\<lparr>rva_term = 1, rva_candidateid = 1, rva_lastlogindex = 0, rva_lastlogterm = 0\<rparr>"
  let ?b = "\<lparr>rva_term = 1, rva_candidateid = 2, rva_lastlogindex = 0, rva_lastlogterm = 0\<rparr>"
  obtain r t where ret: "RequestVote codec0 0 ?a newRequestVoteReply (node0 3 0) = Inr (r, t)"
    "rvr_votegranted r"
    by (simp add: RequestVote_def UpToDate_def getLastLogIndexAndTerm_def Let_def node0_def)
  from RequestVote_granted [OF ret] have "m_currentTerm t = 1" "m_votedFor t = 1" by simp_all
  moreover from restart_votes_again [OF ret, where args' = ?b and files = "Persister_dtor (m_persister t)"
      and n = 3 and me = 0 and ch = newLockQueue and now' = 0 and reply' = newRequestVoteReply]
  obtain s' r' t' where "RequestVote codec0 0 ?b newRequestVoteReply s' = Inr (r', t')"
    "m_currentTerm t' = m_currentTerm t" "m_votedFor t' = 2" by auto
  ultimately show ?thesis using ret(1) by metis
qed

end
