(* ===== verification/Election.thy ===== *)
theory Election
  imports RaftRecovery
begin

text \<open>
  A cluster of nodes running the handlers of raft.cpp. Elections are modelled call by call: each
  \<open>doElection\<close> opens a round with its own counter (the shared \<open>votedNum\<close>), each of its threads
  asks one peer, the peer's \<open>RequestVote\<close> answers, and the code after the call counts. Calls and
  answers may be delayed without bound or lost, in any order. Every other operation of a node is a
  \<open>node_step\<close>. The parameter \<open>b\<close> of the cluster relation says whether a leader's AppendEntries call
  may be answered with a higher term, the branch of \<open>sendAppendEntries\<close> that resets the term.
\<close>

subsection \<open>Quorums\<close>

locale quorum_system =
  fixes quorum :: "'p set \<Rightarrow> bool"
  assumes intersect: "quorum Q \<Longrightarrow> quorum R \<Longrightarrow> \<exists>p. p \<in> Q \<and> p \<in> R"
begin

lemma agreement:
  assumes "quorum Q" "quorum R" "\<forall>p \<in> Q. f p = Some a" "\<forall>p \<in> R. f p = Some b"
  shows "a = b"
proof -
  obtain p where "p \<in> Q" "p \<in> R" using intersect [OF assms(1,2)] by blast
  with assms(3,4) show ?thesis by force
qed

end

text \<open>The sets of nodes a candidate needs: \<open>m_peers.size() / 2 + 1\<close> of the \<open>n\<close> nodes.\<close>

definition majority_set :: "nat \<Rightarrow> nat set \<Rightarrow> bool" where
  "majority_set n Q \<longleftrightarrow> Q \<subseteq> {..<n} \<and> n div 2 + 1 \<le> card Q"

interpretation maj: quorum_system "majority_set n" for n :: nat
proof unfold_locales
  fix Q R assume Q: "majority_set n Q" and R: "majority_set n R"
  then have fin: "finite Q" "finite R" by (auto simp: majority_set_def intro: finite_subset)
  show "\<exists>p. p \<in> Q \<and> p \<in> R"
  proof (rule ccontr)
    assume "\<nexists>p. p \<in> Q \<and> p \<in> R"
    then have "Q \<inter> R = {}" by blast
    with fin have "card (Q \<union> R) = card Q + card R" by (simp add: card_Un_disjoint)
    moreover have "card (Q \<union> R) \<le> n"
      using Q R card_mono [of "{..<n}" "Q \<union> R"] by (simp add: majority_set_def)
    moreover have "n div 2 + 1 \<le> card Q" "n div 2 + 1 \<le> card R"
      using Q R by (simp_all add: majority_set_def)
    moreover have "n < (n div 2 + 1) + (n div 2 + 1)" by presburger
    ultimately show False by linarith
  qed
qed

subsection \<open>The cluster\<close>

datatype VoteCall = NoCall | Asked RequestVoteArgs | Answered RequestVoteArgs RequestVoteReply

record Cluster =
  nodes :: "nat \<Rightarrow> Raft"
  flight :: "nat \<Rightarrow> nat \<Rightarrow> VoteCall"
  round_node :: "nat \<Rightarrow> nat"
  votedNum :: "nat \<Rightarrow> int"
  next_round :: nat
  elected :: "(nat \<times> int) set"

definition cluster_init :: "nat \<Rightarrow> Cluster" where
  "cluster_init n = \<lparr>nodes = (\<lambda>i. node0 n (int i)), flight = (\<lambda>_ _. NoCall), round_node = (\<lambda>_. 0),
     votedNum = (\<lambda>_. 0), next_round = 0, elected = {}\<rparr>"

definition set_node :: "nat \<Rightarrow> Raft \<Rightarrow> Cluster \<Rightarrow> Cluster" where
  "set_node i s c = c\<lparr>nodes := (nodes c)(i := s)\<rparr>"

definition set_flight :: "nat \<Rightarrow> nat \<Rightarrow> VoteCall \<Rightarrow> Cluster \<Rightarrow> Cluster" where
  "set_flight e j x c = c\<lparr>flight := (flight c)(e := (flight c e)(j := x))\<rparr>"

text \<open>A node starts a round: \<open>doElection\<close> with its detached threads and its counter.\<close>

definition elect_at :: "raft_codec \<Rightarrow> int \<Rightarrow> nat \<Rightarrow> Cluster \<Rightarrow> Cluster" where
  "elect_at C now i c =
     (let (cs, t) = doElection C now (nodes c i); e = next_round c in
      (set_node i t c)\<lparr>flight := (flight c)(e :=
           (\<lambda>j. case map_of cs (int j) of None \<Rightarrow> NoCall | Some a \<Rightarrow> Asked a)),
         round_node := (round_node c)(e := i), votedNum := (votedNum c)(e := 1),
         next_round := Suc e\<rparr>)"

definition receive_at :: "nat \<Rightarrow> nat \<Rightarrow> int \<Rightarrow> bool \<Rightarrow> Raft \<Rightarrow> Cluster \<Rightarrow> Cluster" where
  "receive_at e j v hb t c =
     (set_flight e j NoCall (set_node (round_node c e) t c))\<lparr>votedNum := (votedNum c)(e := v),
        elected := (if hb then insert (round_node c e, m_currentTerm t) (elected c) else elected c)\<rparr>"

text \<open>The operations of one node that are not part of an election.\<close>

inductive node_step :: "raft_codec \<Rightarrow> Raft \<Rightarrow> Raft \<Rightarrow> bool" for C where
  append: "AppendEntries1 C now args reply s = Inr (r, t) \<Longrightarrow> node_step C s t"
| install: "InstallSnapshot C now iargs ireply s = Inr (ir, t) \<Longrightarrow> node_step C s t"
| ae_reply: "sendAppendEntries_reply ok server args reply k s = Inr (k', t) \<Longrightarrow>
    aer_term reply \<le> m_currentTerm s \<Longrightarrow> node_step C s t"
| heartbeat: "doHeartBeat now s = Inr (cs, t) \<Longrightarrow> node_step C s t"
| snap_call: "leaderSendSnapShot_args s = (iargs, t) \<Longrightarrow> node_step C s t"
| snap_reply: "leaderSendSnapShot_reply C now ok server iargs ireply s = Inr t \<Longrightarrow> node_step C s t"
| start: "Start C cmd s = (i, tm, l, t) \<Longrightarrow> node_step C s t"
| snapshot: "Snapshot C index snap s = Inr t \<Longrightarrow> node_step C s t"
| apply_round: "applierTicker_round s = Inr t \<Longrightarrow> node_step C s t"

inductive cstep :: "raft_codec \<Rightarrow> nat \<Rightarrow> bool \<Rightarrow> Cluster \<Rightarrow> Cluster \<Rightarrow> bool" for C n b where
  elect: "i < n \<Longrightarrow> m_status (nodes c i) \<noteq> Leader \<Longrightarrow> cstep C n b c (elect_at C now i c)"
| deliver: "flight c e j = Asked args \<Longrightarrow>
    RequestVote C now args newRequestVoteReply (nodes c j) = Inr (r, t) \<Longrightarrow>
    cstep C n b c (set_flight e j (Answered args r) (set_node j t c))"
| lose: "cstep C n b c (set_flight e j NoCall c)"
| receive: "flight c e j = Answered args r \<Longrightarrow>
    sendRequestVote_reply C True r (votedNum c e) (nodes c (round_node c e)) = Inr (v, hb, t) \<Longrightarrow>
    cstep C n b c (receive_at e j v hb t c)"
| other: "i < n \<Longrightarrow> node_step C (nodes c i) t \<Longrightarrow> cstep C n b c (set_node i t c)"
| stepdown: "b \<Longrightarrow> i < n \<Longrightarrow> k < n \<Longrightarrow> i \<noteq> k \<Longrightarrow>
    doHeartBeat now (nodes c i) = Inr (cs, s1) \<Longrightarrow> CallAppendEntries (int k) args \<in> set cs \<Longrightarrow>
    AppendEntries1 C now args newAppendEntriesReply (nodes c k) = Inr (reply, tk) \<Longrightarrow>
    sendAppendEntries_reply True (int k) args reply 1 s1 = Inr (an, ti) \<Longrightarrow>
    cstep C n b c (set_node i ti (set_node k tk c))"

inductive creach :: "raft_codec \<Rightarrow> nat \<Rightarrow> bool \<Rightarrow> Cluster \<Rightarrow> bool" for C n b where
  init: "creach C n b (cluster_init n)"
| step: "creach C n b c \<Longrightarrow> cstep C n b c c' \<Longrightarrow> creach C n b c'"

subsection \<open>What a node step keeps\<close>

definition role_keeps :: "Raft \<Rightarrow> Raft \<Rightarrow> bool" where
  "role_keeps s t \<longleftrightarrow>
     vote_keeps s t \<and> m_me t = m_me s \<and> m_peers_size t = m_peers_size s \<and>
     (m_status t = Leader \<longrightarrow> m_status s = Leader \<and> m_currentTerm t = m_currentTerm s)"

lemma role_keeps_same:
  "m_currentTerm t = m_currentTerm s \<Longrightarrow> m_votedFor t = m_votedFor s \<Longrightarrow> m_status t = m_status s \<Longrightarrow>
   m_me t = m_me s \<Longrightarrow> m_peers_size t = m_peers_size s \<Longrightarrow> role_keeps s t"
  by (simp add: role_keeps_def vote_keeps_def)

lemma role_keeps_RequestVote:
  assumes "RequestVote C now args reply s = Inr (r, t)"
  shows "role_keeps s t"
  using RequestVote_vote_keeps [OF assms] RequestVote_frame(6,7) [OF assms] RequestVote_status [OF assms]
  by (auto simp: role_keeps_def)

lemma role_keeps_AppendEntries1:
  assumes "AppendEntries1 C now args reply s = Inr (r, t)"
  shows "role_keeps s t"
  using assms
proof (cases rule: AppendEntries1_cases)
  case stale
  then show ?thesis by (simp add: role_keeps_def)
next
  case (current s2 t2)
  from ae_log_frame [OF current(3)] obtain ls c where "t2 = s2\<lparr>m_logs := ls, m_commitIndex := c\<rparr>"
    by blast
  with current AppendEntries1_vote_keeps [OF assms] show ?thesis by (simp add: role_keeps_def)
qed

lemma role_keeps_InstallSnapshot:
  assumes "InstallSnapshot C now args reply s = Inr (r, t)"
  shows "role_keeps s t"
  using assms
  by (auto simp: InstallSnapshot_def Let_def role_keeps_def vote_keeps_def elim!: bindR_InrE
      split: if_split_asm)

lemma role_keeps_Snapshot:
  assumes "Snapshot C index snap s = Inr t"
  shows "role_keeps s t"
  using assms
  by (auto simp: Snapshot_def Let_def elim!: bindR_InrE split: if_split_asm intro!: role_keeps_same)

lemma apply_loop_frame:
  "apply_loop s = Inr (msgs, t) \<Longrightarrow> \<exists>a. t = s\<lparr>m_lastApplied := a\<rparr>"
proof (induction s arbitrary: msgs t rule: apply_loop.induct)
  case (1 s)
  show ?case
  proof (cases "m_lastApplied s < m_commitIndex s")
    case True
    let ?s1 = "s\<lparr>m_lastApplied := m_lastApplied s + 1\<rparr>"
    from "1.prems" True obtain j e rest where r: "getSlicesIndexFromLogIndex ?s1 (m_lastApplied ?s1) = Inr j"
      "vec_at (m_logs ?s1) j = Inr e" "logindex e = m_lastApplied ?s1" "apply_loop ?s1 = Inr (rest, t)"
      by (auto simp: apply_loop.simps [of s] Let_def elim!: bindR_InrE split: if_split_asm)
    from "1.IH" [OF True refl r(1,2) _ r(4)] r(3) obtain a where "t = ?s1\<lparr>m_lastApplied := a\<rparr>"
      by (auto simp: res_simps)
    then show ?thesis by (intro exI [of _ a]) simp
  next
    case False
    with "1.prems" have "t = s" by (simp add: apply_loop.simps [of s])
    then show ?thesis by (intro exI [of _ "m_lastApplied s"]) simp
  qed
qed

lemma role_keeps_applierTicker_round:
  assumes "applierTicker_round s = Inr t"
  shows "role_keeps s t"
proof -
  from assms obtain msgs s1 where s1: "apply_loop s = Inr (msgs, s1)" "t = fold pushMsgToKvServer msgs s1"
    by (auto simp: applierTicker_round_def getApplyLogs_def elim!: bindR_InrE split: if_split_asm)
  from apply_loop_frame [OF s1(1)] obtain a where "s1 = s\<lparr>m_lastApplied := a\<rparr>" ..
  with s1(2) show ?thesis by (auto simp: pushMsgs_result intro!: role_keeps_same)
qed

lemma node_step_role_keeps: "node_step C s t \<Longrightarrow> role_keeps s t"
proof (induction rule: node_step.induct)
  case (ae_reply ok server args reply k s k' t)
  from ae_reply(1) show ?case
    by (cases rule: sendAppendEntries_reply_cases)
      (use ae_reply(2) in \<open>auto intro!: role_keeps_same split: if_splits\<close>)
next
  case (heartbeat now s cs t)
  then show ?case
    by (auto simp: doHeartBeat_def elim!: bindR_InrE split: if_split_asm intro!: role_keeps_same)
next
  case (snap_call s iargs t)
  then show ?case
    by (auto simp: leaderSendSnapShot_args_def case_prod_beta intro!: role_keeps_same)
next
  case (snap_reply now ok server iargs ireply s t)
  from leaderSendSnapShot_reply_vote_keeps [OF snap_reply] snap_reply show ?case
    by (elim leaderSendSnapShot_reply_cases) (auto simp: role_keeps_def)
next
  case (start cmd s i tm l t)
  then show ?case by (auto simp: Start_def Let_def split: if_split_asm intro!: role_keeps_same)
qed (blast intro: role_keeps_AppendEntries1 role_keeps_InstallSnapshot role_keeps_Snapshot
      role_keeps_applierTicker_round)+

end
