(* ===== verification/Safety.thy ===== *)
theory Safety
  imports Election
begin

text \<open>
  Election safety of the cluster of theory Election. The invariant uses three ghost functions:
  the vote a node cast in a term, the term of a round, and the set of nodes a round has counted.
  The property at the end says that without the branch of \<open>sendAppendEntries\<close> that resets the term
  two nodes never become leader in the same term; its companion runs that branch and elects two.
\<close>

subsection \<open>The invariant\<close>

definition node_votes :: "nat \<Rightarrow> nat \<Rightarrow> Raft \<Rightarrow> (int \<Rightarrow> nat option) \<Rightarrow> bool" where
  "node_votes n i s v \<longleftrightarrow> m_me s = int i \<and> m_peers_size s = n \<and>
     (\<forall>T x. v T = Some x \<longrightarrow>
        T < m_currentTerm s \<or> (T = m_currentTerm s \<and> m_votedFor s = int x))"

definition votes_inv :: "nat \<Rightarrow> (nat \<Rightarrow> Raft) \<Rightarrow> (nat \<Rightarrow> int \<Rightarrow> nat option) \<Rightarrow> bool" where
  "votes_inv n ns vote \<longleftrightarrow> (\<forall>i. node_votes n i (ns i) (vote i))"

definition call_inv ::
  "Cluster \<Rightarrow> nat \<Rightarrow> (nat \<Rightarrow> int \<Rightarrow> nat option) \<Rightarrow> (nat \<Rightarrow> int) \<Rightarrow> (nat \<Rightarrow> nat set) \<Rightarrow> nat \<Rightarrow> nat \<Rightarrow>
     VoteCall \<Rightarrow> bool" where
  "call_inv c n vote rt tally e j call \<longleftrightarrow>
     (case call of NoCall \<Rightarrow> True
      | Asked a \<Rightarrow> e < next_round c \<and> j < n \<and> j \<notin> tally e \<and> rva_term a = rt e \<and>
          rva_candidateid a = int (round_node c e)
      | Answered a r \<Rightarrow> e < next_round c \<and> j < n \<and> j \<notin> tally e \<and>
          (rvr_votegranted r \<longrightarrow> rvr_term r = rt e \<and> vote j (rt e) = Some (round_node c e)))"

definition round_inv ::
  "Cluster \<Rightarrow> nat \<Rightarrow> (nat \<Rightarrow> int \<Rightarrow> nat option) \<Rightarrow> (nat \<Rightarrow> int) \<Rightarrow> (nat \<Rightarrow> nat set) \<Rightarrow> nat \<Rightarrow> bool" where
  "round_inv c n vote rt tally e \<longleftrightarrow>
     round_node c e < n \<and> tally e \<subseteq> {..<n} \<and>
     (\<forall>j \<in> tally e. vote j (rt e) = Some (round_node c e)) \<and>
     votedNum c e \<le> int (card (tally e))"

definition leaders_inv :: "Cluster \<Rightarrow> nat \<Rightarrow> (nat \<Rightarrow> int \<Rightarrow> nat option) \<Rightarrow> bool" where
  "leaders_inv c n vote \<longleftrightarrow>
     (\<forall>(i, T) \<in> elected c. \<exists>Q. majority_set n Q \<and> (\<forall>p \<in> Q. vote p T = Some i)) \<and>
     (\<forall>i. m_status (nodes c i) = Leader \<longrightarrow> (i, m_currentTerm (nodes c i)) \<in> elected c)"

definition safe_inv ::
  "Cluster \<Rightarrow> nat \<Rightarrow> (nat \<Rightarrow> int \<Rightarrow> nat option) \<Rightarrow> (nat \<Rightarrow> int) \<Rightarrow> (nat \<Rightarrow> nat set) \<Rightarrow> bool" where
  "safe_inv c n vote rt tally \<longleftrightarrow>
     votes_inv n (nodes c) vote \<and> (\<forall>e < next_round c. round_inv c n vote rt tally e) \<and>
     (\<forall>e j. call_inv c n vote rt tally e j (flight c e j)) \<and> leaders_inv c n vote"

lemma safe_inv_init: "safe_inv (cluster_init n) n (\<lambda>_ _. None) (\<lambda>_. 0) (\<lambda>_. {})"
  by (simp add: safe_inv_def cluster_init_def votes_inv_def node_votes_def
      round_inv_def call_inv_def leaders_inv_def node0_def)

lemma node_votes_role_keeps:
  assumes "node_votes n i s v" "role_keeps s t"
  shows "node_votes n i t v"
  unfolding node_votes_def
proof (intro conjI allI impI)
  fix T x assume "v T = Some x"
  with assms(1) have "T < m_currentTerm s \<or> (T = m_currentTerm s \<and> m_votedFor s = int x)"
    by (simp add: node_votes_def)
  moreover from assms(2) have "vote_keeps s t" by (simp add: role_keeps_def)
  moreover have "int x \<noteq> -1" by simp
  ultimately show "T < m_currentTerm t \<or> (T = m_currentTerm t \<and> m_votedFor t = int x)"
    unfolding vote_keeps_def by linarith
qed (use assms in \<open>simp_all add: node_votes_def role_keeps_def\<close>)

lemma votes_inv_role_keeps:
  "votes_inv n ns vote \<Longrightarrow> role_keeps (ns i) t \<Longrightarrow> votes_inv n (ns(i := t)) vote"
  by (simp add: votes_inv_def node_votes_role_keeps [of n i "ns i"])

lemma votes_inv_upd:
  "votes_inv n ns vote \<Longrightarrow> node_votes n i t (vote i) \<Longrightarrow> votes_inv n (ns(i := t)) vote"
  by (simp add: votes_inv_def)

lemma votes_inv_node: "votes_inv n (nodes (set_node i t c)) vote \<Longrightarrow> node_votes n i t (vote i)"
  by (auto simp: votes_inv_def set_node_def dest: spec [of _ i])

lemma votes_inv_vote:
  assumes "votes_inv n ns vote" "node_votes n i (ns i) v"
  shows "votes_inv n ns (vote(i := v))"
  using assms by (metis fun_upd_apply votes_inv_def)

lemma node_votesD: "node_votes n i s v \<Longrightarrow> v T = Some x \<Longrightarrow> T \<le> m_currentTerm s"
  by (auto simp: node_votes_def order_le_less)

lemma leaders_inv_role_keeps:
  assumes "leaders_inv c n vote" "role_keeps (nodes c i) t"
  shows "leaders_inv (set_node i t c) n vote"
  using assms by (auto simp: leaders_inv_def role_keeps_def set_node_def)

lemma safe_inv_role_keeps:
  assumes "safe_inv c n vote rt tally" "role_keeps (nodes c i) t"
  shows "safe_inv (set_node i t c) n vote rt tally"
  using assms votes_inv_role_keeps [of n "nodes c" vote i t] leaders_inv_role_keeps [of c n vote i t]
  by (simp add: safe_inv_def)
    (simp add: set_node_def round_inv_def call_inv_def cong: VoteCall.case_cong)

lemma safe_inv_set_flight:
  assumes "safe_inv c n vote rt tally" "call_inv c n vote rt tally e j x"
  shows "safe_inv (set_flight e j x c) n vote rt tally"
  using assms
  by (simp add: safe_inv_def set_flight_def leaders_inv_def round_inv_def)
    (simp add: call_inv_def split: VoteCall.splits)

text \<open>More votes in the ghost function keep everything but the votes themselves.\<close>

lemma safe_inv_more_votes:
  assumes "safe_inv c n vote rt tally" "votes_inv n (nodes c) vote'"
    "\<And>j T x. vote j T = Some x \<Longrightarrow> vote' j T = Some x"
  shows "safe_inv c n vote' rt tally"
proof -
  from assms(1) have r: "\<forall>e < next_round c. round_inv c n vote rt tally e"
    and f: "\<forall>e j. call_inv c n vote rt tally e j (flight c e j)" and l: "leaders_inv c n vote"
    by (simp_all add: safe_inv_def)
  from r have "\<forall>e < next_round c. round_inv c n vote' rt tally e"
    by (simp add: round_inv_def assms(3))
  moreover have "call_inv c n vote' rt tally e j (flight c e j)" for e j
    using f [rule_format, of e j] assms(3) by (cases "flight c e j") (auto simp: call_inv_def)
  moreover have "leaders_inv c n vote'"
    using l assms(3) unfolding leaders_inv_def by fast
  ultimately show ?thesis using assms(2) by (simp add: safe_inv_def)
qed

subsection \<open>The steps keep the invariant\<close>

text \<open>A granted vote is recorded; the ghost vote of the peer agrees with it.\<close>

lemma safe_inv_deliver:
  assumes inv: "safe_inv c n vote rt tally" and f: "flight c e j = Asked args"
    and ret: "RequestVote C now args reply (nodes c j) = Inr (r, t)"
  shows "\<exists>vote'. safe_inv (set_flight e j (Answered args r) (set_node j t c)) n vote' rt tally"
proof -
  let ?c1 = "set_node j t c" and ?x = "round_node c e"
  have inv1: "safe_inv ?c1 n vote rt tally"
    using inv role_keeps_RequestVote [OF ret] by (rule safe_inv_role_keeps)
  from inv have "call_inv c n vote rt tally e j (Asked args)"
    unfolding safe_inv_def f [symmetric] by blast
  then have a: "e < next_round c" "j < n" "j \<notin> tally e" "rva_term args = rt e"
    "rva_candidateid args = int ?x" by (simp_all add: call_inv_def)
  show ?thesis
  proof (cases "rvr_votegranted r")
    case False
    have "call_inv ?c1 n vote rt tally e j (Answered args r)"
      using a False by (simp add: call_inv_def set_node_def)
    with safe_inv_set_flight [OF inv1] show ?thesis by blast
  next
    case True
    from RequestVote_granted [OF ret True] a have g: "m_currentTerm t = rt e" "m_votedFor t = int ?x"
      by simp_all
    let ?vote = "vote(j := (vote j)(rt e := Some ?x))"
    from inv1 have v: "votes_inv n (nodes ?c1) vote" by (simp add: safe_inv_def)
    then have nv: "node_votes n j t (vote j)" by (rule votes_inv_node)
    have same: "x = ?x" if "vote j (rt e) = Some x" for x
      using nv that g by (auto simp: node_votes_def)
    have "node_votes n j t (?vote j)" using nv g by (auto simp: node_votes_def)
    with v have "votes_inv n (nodes ?c1) ?vote" by (intro votes_inv_vote) (simp_all add: set_node_def)
    with inv1 have inv2: "safe_inv ?c1 n ?vote rt tally"
      by (rule safe_inv_more_votes) (use same in auto)
    have "rvr_term r = rt e" using RequestVote_reply_term(1) [OF ret] g by simp
    with a have "call_inv ?c1 n ?vote rt tally e j (Answered args r)"
      by (simp add: call_inv_def set_node_def)
    with safe_inv_set_flight [OF inv2] show ?thesis by blast
  qed
qed

lemma call_inv_cong:
  assumes "call_inv c n vote rt tally e j x" "e < next_round c \<Longrightarrow> e < next_round c'"
    "e < next_round c \<Longrightarrow> round_node c' e = round_node c e \<and> rt' e = rt e \<and> tally' e = tally e"
  shows "call_inv c' n vote rt' tally' e j x"
  using assms by (cases x) (auto simp: call_inv_def)

lemma safe_inv_elect:
  assumes inv: "safe_inv c n vote rt tally" and i: "i < n" and nl: "m_status (nodes c i) \<noteq> Leader"
  shows "\<exists>vote' rt' tally'. safe_inv (elect_at C now i c) n vote' rt' tally'"
proof -
  let ?s = "nodes c i" and ?e = "next_round c"
  obtain cs t where el: "doElection C now ?s = (cs, t)" by (cases "doElection C now ?s")
  note d = doElection_result [OF el nl]
  let ?T = "m_currentTerm ?s + 1"
  let ?vote = "vote(i := (vote i)(?T := Some i))"
  let ?c1 = "set_node i t c"
  let ?c = "elect_at C now i c"
  from inv have me: "m_me ?s = int i" "m_peers_size ?s = n"
    by (simp_all add: safe_inv_def votes_inv_def node_votes_def)
  have rk: "role_keeps ?s t" using d by (simp add: role_keeps_def vote_keeps_def)
  have inv1: "safe_inv ?c1 n vote rt tally" using inv rk by (rule safe_inv_role_keeps)
  from inv have nv: "node_votes n i ?s (vote i)" by (simp add: safe_inv_def votes_inv_def)
  have fresh: "vote i ?T = None"
    using node_votesD [OF nv, of ?T] by (cases "vote i ?T") auto
  from inv1 have v: "votes_inv n (nodes ?c1) vote" by (simp add: safe_inv_def)
  then have "node_votes n i t (vote i)" by (rule votes_inv_node)
  then have "node_votes n i t (?vote i)" using d me by (auto simp: node_votes_def)
  with v have "votes_inv n (nodes ?c1) ?vote" by (intro votes_inv_vote) (simp_all add: set_node_def)
  with inv1 have inv2: "safe_inv ?c1 n ?vote rt tally"
    by (rule safe_inv_more_votes) (use fresh in auto)
  let ?rt = "rt(?e := ?T)" and ?tally = "tally(?e := {i})"
  have c: "nodes ?c = nodes ?c1" "elected ?c = elected ?c1" "next_round ?c = Suc ?e"
    "round_node ?c = (round_node c)(?e := i)" "votedNum ?c = (votedNum c)(?e := 1)"
    "flight ?c = (flight c)(?e := (\<lambda>j. case map_of cs (int j) of None \<Rightarrow> NoCall | Some a \<Rightarrow> Asked a))"
    "next_round ?c1 = ?e" "round_node ?c1 = round_node c" "votedNum ?c1 = votedNum c"
    "flight ?c1 = flight c"
    by (simp_all add: elect_at_def el set_node_def Let_def)
  have "round_inv ?c n ?vote ?rt ?tally e" if "e < next_round ?c" for e
  proof (cases "e = ?e")
    case True
    with i show ?thesis by (simp add: round_inv_def c)
  next
    case False
    with that inv2 have "round_inv ?c1 n ?vote rt tally e" by (simp add: safe_inv_def c less_Suc_eq)
    with False show ?thesis by (simp add: round_inv_def c)
  qed
  moreover have "call_inv ?c n ?vote ?rt ?tally e j (flight ?c e j)" for e j
  proof (cases "e = ?e")
    case True
    show ?thesis
    proof (cases "map_of cs (int j)")
      case None
      with True show ?thesis by (simp add: call_inv_def c)
    next
      case (Some a)
      then have "(int j, a) \<in> set cs" by (rule map_of_SomeD)
      then have "j < n" "j \<noteq> i" "rva_term a = ?T" "rva_candidateid a = int i"
        using d(7) me by (auto simp: peers_but_me_def)
      with True Some show ?thesis by (simp add: call_inv_def c)
    qed
  next
    case False
    from inv2 have "call_inv ?c1 n ?vote rt tally e j (flight c e j)" by (simp add: safe_inv_def c)
    then have "call_inv ?c n ?vote ?rt ?tally e j (flight c e j)"
      by (rule call_inv_cong) (auto simp: c False)
    with False show ?thesis by (simp add: c)
  qed
  moreover from inv2 have "leaders_inv ?c n ?vote"
    by (simp add: safe_inv_def leaders_inv_def c)
  moreover from inv2 have "votes_inv n (nodes ?c) ?vote" by (simp add: safe_inv_def c)
  ultimately show ?thesis unfolding safe_inv_def by blast
qed

lemma safe_inv_tally:
  assumes inv: "safe_inv c n vote rt tally" and free: "\<And>j. flight c e j \<noteq> NoCall \<Longrightarrow> j \<notin> J"
    and J: "\<And>j. j \<in> J \<Longrightarrow> j < n \<and> vote j (rt e) = Some (round_node c e)"
    and v: "v \<le> int (card (tally e \<union> J))"
  shows "safe_inv (c\<lparr>votedNum := (votedNum c)(e := v)\<rparr>) n vote rt (tally(e := tally e \<union> J))"
proof -
  let ?c = "c\<lparr>votedNum := (votedNum c)(e := v)\<rparr>" and ?tally = "tally(e := tally e \<union> J)"
  have "round_inv ?c n vote rt ?tally e'" if "e' < next_round c" for e'
  proof -
    from inv that have "round_inv c n vote rt tally e'" by (simp add: safe_inv_def)
    then show ?thesis using J v by (auto simp: round_inv_def)
  qed
  moreover have "call_inv ?c n vote rt ?tally e' j (flight c e' j)" for e' j
  proof -
    from inv have "call_inv c n vote rt tally e' j (flight c e' j)" by (simp add: safe_inv_def)
    then show ?thesis using free [of j] by (cases "flight c e' j") (auto simp: call_inv_def)
  qed
  moreover from inv have "leaders_inv ?c n vote" by (simp add: safe_inv_def leaders_inv_def)
  ultimately show ?thesis using inv by (simp add: safe_inv_def)
qed

lemma majority_of_tally:
  assumes "round_inv c n vote rt tally e" "votedNum c e + 1 \<ge> int (n div 2 + 1)" "j < n" "j \<notin> tally e"
    "vote j (rt e) = Some (round_node c e)"
  shows "majority_set n (insert j (tally e)) \<and>
    (\<forall>p \<in> insert j (tally e). vote p (rt e) = Some (round_node c e))"
proof -
  from assms(1) have t: "tally e \<subseteq> {..<n}" "votedNum c e \<le> int (card (tally e))"
    "\<forall>p \<in> tally e. vote p (rt e) = Some (round_node c e)" by (simp_all add: round_inv_def)
  from t(1) have "finite (tally e)" by (rule finite_subset) simp
  with assms(4) have "card (insert j (tally e)) = Suc (card (tally e))" by simp
  with t assms show ?thesis by (auto simp: majority_set_def)
qed

lemma leaders_inv_win:
  assumes "leaders_inv c n vote" "majority_set n Q \<and> (\<forall>p \<in> Q. vote p (m_currentTerm t) = Some i)"
    "elected c' = insert (i, m_currentTerm t) (elected c)" "nodes c' = (nodes c)(i := t)"
  shows "leaders_inv c' n vote"
  unfolding leaders_inv_def assms(3,4)
proof (intro conjI allI impI ballI)
  fix x assume "x \<in> insert (i, m_currentTerm t) (elected c)"
  with assms(1,2) show "case x of (i, T) \<Rightarrow> \<exists>Q. majority_set n Q \<and> (\<forall>p \<in> Q. vote p T = Some i)"
    by (auto simp: leaders_inv_def)
next
  fix k assume "m_status (((nodes c)(i := t)) k) = Leader"
  with assms(1) show "(k, m_currentTerm (((nodes c)(i := t)) k)) \<in> insert (i, m_currentTerm t) (elected c)"
    by (cases "k = i") (simp_all add: leaders_inv_def)
qed

lemma safe_inv_receive:
  assumes inv: "safe_inv c n vote rt tally" and f: "flight c e j = Answered args r"
    and ret: "sendRequestVote_reply C True r (votedNum c e) (nodes c (round_node c e)) = Inr (v, hb, t)"
  shows "\<exists>tally'. safe_inv (receive_at e j v hb t c) n vote rt tally'"
proof -
  let ?i = "round_node c e" and ?s = "nodes c (round_node c e)"
  let ?c1 = "set_flight e j NoCall c"
  from inv have "call_inv c n vote rt tally e j (Answered args r)"
    unfolding safe_inv_def f [symmetric] by blast
  then have a: "e < next_round c" "j < n" "j \<notin> tally e"
    "rvr_votegranted r \<Longrightarrow> rvr_term r = rt e \<and> vote j (rt e) = Some ?i" by (simp_all add: call_inv_def)
  from inv have me: "m_me ?s = int ?i" "m_peers_size ?s = n"
    by (simp_all add: safe_inv_def votes_inv_def node_votes_def)
  from inv a have rd: "round_inv c n vote rt tally e" by (simp add: safe_inv_def)
  then have vn: "votedNum c e \<le> int (card (tally e))" by (simp add: round_inv_def)
  have inv1: "safe_inv ?c1 n vote rt tally"
    using safe_inv_set_flight [OF inv, of e j NoCall] by (simp add: call_inv_def)
  have free: "flight ?c1 e k \<noteq> NoCall \<Longrightarrow> k \<notin> {j}" for k by (auto simp: set_flight_def)
  have nodes1: "nodes ?c1 = nodes c" "votedNum ?c1 = votedNum c" "round_node ?c1 = round_node c"
    "elected ?c1 = elected c" by (simp_all add: set_flight_def)
  have keep: "\<exists>tally'. safe_inv (receive_at e j v False t c) n vote rt tally'"
    if "role_keeps ?s t" "safe_inv (?c1\<lparr>votedNum := (votedNum c)(e := v)\<rparr>) n vote rt tally'"
    for tally'
  proof -
    let ?c2 = "?c1\<lparr>votedNum := (votedNum c)(e := v)\<rparr>"
    have "safe_inv (set_node ?i t ?c2) n vote rt tally'"
      by (rule safe_inv_role_keeps [OF that(2)]) (use that(1) in \<open>simp add: set_flight_def\<close>)
    moreover have "set_node ?i t ?c2 = receive_at e j v False t c"
      by (simp add: receive_at_def set_node_def set_flight_def)
    ultimately show ?thesis by auto
  qed
  have unchanged: "safe_inv (?c1\<lparr>votedNum := (votedNum c)(e := votedNum c e)\<rparr>) n vote rt
      (tally(e := tally e \<union> {}))"
    using safe_inv_tally [OF inv1, of e "{}" "votedNum c e"] vn by (simp add: nodes1)
  from ret show ?thesis
  proof (cases rule: sendRequestVote_reply_cases)
    case same
    have "role_keeps ?s t" using same by (simp add: role_keeps_def)
    with keep [OF _ unchanged [folded same(3)]] same(2) show ?thesis by simp
  next
    case stepdown
    have "role_keeps ?s t" using stepdown by (simp add: role_keeps_def vote_keeps_def)
    with keep [OF _ unchanged [folded stepdown(3)]] stepdown(2) show ?thesis by simp
  next
    case count
    have "safe_inv (?c1\<lparr>votedNum := (votedNum ?c1)(e := v)\<rparr>) n vote rt (tally(e := tally e \<union> {j}))"
    proof (rule safe_inv_tally [OF inv1 free])
      fix k assume "k \<in> {j}"
      then show "k < n \<and> vote k (rt e) = Some (round_node ?c1 e)"
        using a count(3) by (simp add: nodes1)
    next
      have "tally e \<subseteq> {..<n}" using rd by (simp add: round_inv_def)
      then have "finite (tally e)" by (rule finite_subset) simp
      then show "v \<le> int (card (tally e \<union> {j}))" using count(4) vn a(3) by simp
    qed
    moreover have "role_keeps ?s t" using count by (simp add: role_keeps_def)
    ultimately show ?thesis using keep count(6) by (simp add: nodes1)
  next
    case win
    note b = becomeLeader_fields [OF win(8)]
    have T: "m_currentTerm t = rt e" using b win a(4) by simp
    let ?c2 = "?c1\<lparr>votedNum := (votedNum ?c1)(e := 0)\<rparr>"
    have inv2: "safe_inv ?c2 n vote rt (tally(e := tally e \<union> {}))"
      by (rule safe_inv_tally [OF inv1]) simp_all
    have m: "majority_set n (insert j (tally e)) \<and>
        (\<forall>p \<in> insert j (tally e). vote p (rt e) = Some ?i)"
      using rd win(5) a win(3) me by (intro majority_of_tally) (simp_all add: majority_def)
    let ?t0 = "t\<lparr>m_status := Follower\<rparr>"
    let ?c3 = "set_node ?i ?t0 ?c2"
    have "role_keeps ?s ?t0" using b by (simp add: role_keeps_def vote_keeps_def)
    then have inv3: "safe_inv ?c3 n vote rt (tally(e := tally e \<union> {}))"
      by (intro safe_inv_role_keeps [OF inv2]) (simp add: nodes1)
    have c: "receive_at e j v hb t c = ?c3\<lparr>nodes := (nodes ?c3)(?i := t),
        elected := insert (?i, rt e) (elected c)\<rparr>"
      using win T by (simp add: receive_at_def set_node_def set_flight_def)
    have "leaders_inv ?c2 n vote" using inv2 by (simp add: safe_inv_def)
    then have "leaders_inv (receive_at e j v hb t c) n vote"
      by (rule leaders_inv_win [where Q = "insert j (tally e)" and i = ?i and t = t])
        (use m T in \<open>simp_all add: c nodes1 set_node_def\<close>)
    moreover have "votes_inv n (nodes (receive_at e j v hb t c)) vote"
    proof -
      from inv3 have v3: "votes_inv n (nodes ?c3) vote" by (simp add: safe_inv_def)
      then have "node_votes n ?i ?t0 (vote ?i)" by (rule votes_inv_node)
      then have "node_votes n ?i t (vote ?i)" by (simp add: node_votes_def)
      with v3 have "votes_inv n ((nodes ?c3)(?i := t)) vote" by (rule votes_inv_upd)
      then show ?thesis unfolding c by simp
    qed
    moreover have "call_inv (receive_at e j v hb t c) n vote rt tally e' k (flight ?c3 e' k) \<and>
        (e' < next_round ?c3 \<longrightarrow> round_inv (receive_at e j v hb t c) n vote rt tally e')" for e' k
    proof -
      from inv3 have ci: "call_inv ?c3 n vote rt tally e' k (flight ?c3 e' k)"
        and ri: "e' < next_round ?c3 \<Longrightarrow> round_inv ?c3 n vote rt tally e'"
        by (simp_all add: safe_inv_def)
      have "call_inv (receive_at e j v hb t c) n vote rt tally e' k (flight ?c3 e' k)"
        using ci by (rule call_inv_cong) (simp_all add: c)
      with ri show ?thesis by (simp add: c round_inv_def)
    qed
    ultimately have "safe_inv (receive_at e j v hb t c) n vote rt tally"
      unfolding safe_inv_def by (simp add: c)
    then show ?thesis by blast
  qed
qed

text \<open>Every run without the resetting branch satisfies the invariant, for suitable ghosts.\<close>

lemma creach_safe_inv:
  assumes "creach C n False c"
  shows "\<exists>vote rt tally. safe_inv c n vote rt tally"
  using assms
proof (induction rule: creach.induct)
  case init
  show ?case using safe_inv_init by blast
next
  case (step c c')
  then obtain vote rt tally where inv: "safe_inv c n vote rt tally" by blast
  from step(2) show ?case
  proof (cases rule: cstep.cases)
    case (elect i now)
    then show ?thesis using safe_inv_elect [OF inv] by blast
  next
    case (deliver e j args now r t)
    then show ?thesis using safe_inv_deliver [OF inv] by blast
  next
    case (lose e j)
    then show ?thesis using safe_inv_set_flight [OF inv, of e j NoCall] by (auto simp: call_inv_def)
  next
    case (receive e j args r v hb t)
    then show ?thesis using safe_inv_receive [OF inv] by blast
  next
    case (other i t)
    then show ?thesis using safe_inv_role_keeps [OF inv] node_step_role_keeps by blast
  qed simp
qed

subsection \<open>Concrete runs\<close>

text \<open>A schedule of the cluster as data, and its execution.\<close>

datatype action = DoElect nat | DoDeliver nat nat | DoReceive nat nat | DoStepdown nat nat

definition nth_call :: "int \<Rightarrow> HeartBeatCall list \<Rightarrow> AppendEntriesArgs option" where
  "nth_call k cs = map_of (List.map_filter (\<lambda>c. case c of CallAppendEntries i a \<Rightarrow> Some (i, a)
      | CallSnapShot i \<Rightarrow> None) cs) k"

fun run_action :: "raft_codec \<Rightarrow> nat \<Rightarrow> bool \<Rightarrow> action \<Rightarrow> Cluster \<Rightarrow> Cluster option" where
  "run_action C n b (DoElect i) c =
     (if i < n \<and> m_status (nodes c i) \<noteq> Leader then Some (elect_at C 0 i c) else None)"
| "run_action C n b (DoDeliver e j) c =
     (case flight c e j of Asked args \<Rightarrow>
        (case RequestVote C 0 args newRequestVoteReply (nodes c j) of
           Inr (r, t) \<Rightarrow> Some (set_flight e j (Answered args r) (set_node j t c)) | Inl _ \<Rightarrow> None)
      | _ \<Rightarrow> None)"
| "run_action C n b (DoReceive e j) c =
     (case flight c e j of Answered args r \<Rightarrow>
        (case sendRequestVote_reply C True r (votedNum c e) (nodes c (round_node c e)) of
           Inr (v, hb, t) \<Rightarrow> Some (receive_at e j v hb t c) | Inl _ \<Rightarrow> None)
      | _ \<Rightarrow> None)"
| "run_action C n b (DoStepdown i k) c =
     (if b \<and> i < n \<and> k < n \<and> i \<noteq> k then
        (case doHeartBeat 0 (nodes c i) of Inl _ \<Rightarrow> None | Inr (cs, s1) \<Rightarrow>
         (case nth_call (int k) cs of None \<Rightarrow> None | Some args \<Rightarrow>
          (case AppendEntries1 C 0 args newAppendEntriesReply (nodes c k) of Inl _ \<Rightarrow> None
           | Inr (reply, tk) \<Rightarrow>
            (case sendAppendEntries_reply True (int k) args reply 1 s1 of Inl _ \<Rightarrow> None
             | Inr (an, ti) \<Rightarrow> Some (set_node i ti (set_node k tk c))))))
      else None)"

fun run_actions :: "raft_codec \<Rightarrow> nat \<Rightarrow> bool \<Rightarrow> action list \<Rightarrow> Cluster \<Rightarrow> Cluster option" where
  "run_actions C n b [] c = Some c"
| "run_actions C n b (a # as) c =
     (case run_action C n b a c of None \<Rightarrow> None | Some c' \<Rightarrow> run_actions C n b as c')"

lemma nth_call_in: "nth_call k cs = Some a \<Longrightarrow> CallAppendEntries k a \<in> set cs"
  unfolding nth_call_def
  by (drule map_of_SomeD) (auto simp: List.map_filter_def split: HeartBeatCall.splits)

lemma run_action_cstep:
  assumes "run_action C n b a c = Some c'"
  shows "cstep C n b c c'"
proof (cases a)
  case (DoStepdown i k)
  with assms obtain cs s1 args reply tk an ti where "b" "i < n" "k < n" "i \<noteq> k"
    "doHeartBeat 0 (nodes c i) = Inr (cs, s1)" and call: "nth_call (int k) cs = Some args" and
    "AppendEntries1 C 0 args newAppendEntriesReply (nodes c k) = Inr (reply, tk)"
    "sendAppendEntries_reply True (int k) args reply 1 s1 = Inr (an, ti)"
    and c': "c' = set_node i ti (set_node k tk c)"
    by (auto split: sum.splits option.splits if_splits)
  with nth_call_in [OF call] show ?thesis unfolding c' by (intro cstep.stepdown)
qed (use assms in \<open>auto split: VoteCall.splits sum.splits option.splits if_splits
      intro: cstep.intros\<close>)

lemma run_actions_creach:
  "run_actions C n b as c = Some c' \<Longrightarrow> creach C n b c \<Longrightarrow> creach C n b c'"
  by (induction as arbitrary: c) (auto split: option.splits dest: run_action_cstep intro: creach.step)

text \<open>C1. Election safety. In every run of the cluster, with calls and answers delayed, lost and
  reordered at will, in which no AppendEntries call of a leader is answered with a higher term, two
  nodes that became leader in the same term are the same node.\<close>

theorem election_safety:
  assumes "creach C n False c" "(i, T) \<in> elected c" "(j, T) \<in> elected c"
  shows "i = j"
proof -
  from creach_safe_inv [OF assms(1)] obtain vote where l: "leaders_inv c n vote"
    by (auto simp: safe_inv_def)
  from l assms(2,3) obtain Q R where "majority_set n Q" "\<forall>p \<in> Q. vote p T = Some i"
    "majority_set n R" "\<forall>p \<in> R. vote p T = Some j"
    unfolding leaders_inv_def by blast
  then show ?thesis using maj.agreement [of n Q R "\<lambda>p. vote p T"] by blast
qed

theorem election_safety_witness:
  "\<exists>c. creach codec0 3 False c \<and> (0, 1) \<in> elected c \<and> {j. (j, 1) \<in> elected c} = {0}"
proof -
  let ?as = "[DoElect 0, DoDeliver 0 1, DoReceive 0 1]"
  have "map_option (\<lambda>c. (0, 1) \<in> elected c) (run_actions codec0 3 False ?as (cluster_init 3)) = Some True"
    by code_simp
  then obtain c where c: "run_actions codec0 3 False ?as (cluster_init 3) = Some c" "(0, 1) \<in> elected c"
    by auto
  from run_actions_creach [OF c(1) creach.init] have r: "creach codec0 3 False c" .
  have "{j. (j, 1) \<in> elected c} = {0}" using election_safety [OF r c(2)] c(2) by blast
  with r c(2) show ?thesis by blast
qed

text \<open>C2. The branch of \<open>sendAppendEntries\<close> for a reply with a higher term sets the node's term to
  the term of the \<^emph>\<open>request\<close> and forgets the vote: the node stays in the term it was leader of,
  with its vote free again, grants a delayed request of that term, and the cluster of three nodes
  has two leaders of term 1.\<close>

theorem stepdown_breaks_election_safety:
  "\<exists>c. creach codec0 3 True c \<and> (0, 1) \<in> elected c \<and> (2, 1) \<in> elected c"
proof -
  let ?as = "[DoElect 2, DoElect 0, DoDeliver 1 1, DoReceive 1 1, DoElect 1, DoStepdown 0 1,
      DoDeliver 0 0, DoReceive 0 0]"
  have "map_option (\<lambda>c. (0, 1) \<in> elected c \<and> (2, 1) \<in> elected c)
      (run_actions codec0 3 True ?as (cluster_init 3)) = Some True"
    by code_simp
  then obtain c where c: "run_actions codec0 3 True ?as (cluster_init 3) = Some c"
    "(0, 1) \<in> elected c" "(2, 1) \<in> elected c"
    by auto
  from run_actions_creach [OF c(1) creach.init] c(2,3) show ?thesis by blast
qed

end
