(* ===== verification/Config.thy ===== *)
theory Config
  imports Prelude
begin

text \<open>
  src/rpc/mprpcconfig.cpp and its users: reading a configuration file line by line through a buffer
  of 512 bytes, trimming, the first entry of a key wins; \<open>RpcProvider::Run\<close> appends the address of
  its node to that file; \<open>KvServer\<close> and \<open>Clerk\<close> read the addresses \<open>node0\<close>, \<open>node1\<close>, ... up to the
  first one missing. A file is its content; \<open>None\<close> is a file that cannot be opened.
\<close>

subsection \<open>Strings\<close>

definition find_first_not_of :: "char \<Rightarrow> string \<Rightarrow> int" where
  "find_first_not_of c str = (if \<forall>d \<in> set str. d = c then -1 else int (length (takeWhile (\<lambda>d. d = c) str)))"

definition find_last_not_of :: "char \<Rightarrow> string \<Rightarrow> int" where
  "find_last_not_of c str = (if \<forall>d \<in> set str. d = c then -1
     else int (length str) - 1 - int (length (takeWhile (\<lambda>d. d = c) (rev str))))"

definition find_char :: "char \<Rightarrow> nat \<Rightarrow> string \<Rightarrow> int" where
  "find_char c from str = (if c \<in> set (drop from str)
     then int (from + length (takeWhile (\<lambda>d. d \<noteq> c) (drop from str))) else -1)"

text \<open>\<open>substr\<close> with a count of type \<open>size_t\<close>: a negative \<open>int\<close> becomes larger than any string.\<close>

definition substr :: "string \<Rightarrow> nat \<Rightarrow> int \<Rightarrow> string" where
  "substr str pos n = (if n < 0 then drop pos str else take (nat n) (drop pos str))"

definition Trim :: "string \<Rightarrow> string" where
  "Trim src_buf =
     (let idx = find_first_not_of CHR '' '' src_buf;
          s1 = (if idx \<noteq> -1 then substr src_buf (nat idx) (int (length src_buf) - idx) else src_buf);
          idx2 = find_last_not_of CHR '' '' s1
      in if idx2 \<noteq> -1 then substr s1 0 (idx2 + 1) else s1)"

definition NL :: char where "NL = CHR 0x0A"

subsection \<open>Reading the file\<close>

text \<open>\<open>fgets(buf, n, pf)\<close>: the text read, the rest of the file, and whether the end was met.\<close>

definition fgets :: "nat \<Rightarrow> string \<Rightarrow> string \<times> string \<times> bool" where
  "fgets n file =
     (let pre = takeWhile (\<lambda>c. c \<noteq> NL) file in
      if length pre \<ge> n - 1 then (take (n - 1) file, drop (n - 1) file, False)
      else if length pre < length file then (pre @ [NL], drop (Suc (length pre)) file, False)
      else (file, [], True))"

type_synonym config = "string \<Rightarrow> string option"

definition emplace_config :: "string \<Rightarrow> string \<Rightarrow> config \<Rightarrow> config" where
  "emplace_config k v m = (if m k = None then m(k \<mapsto> v) else m)"

text \<open>One turn of the loop, on the buffer \<open>fgets\<close> filled; the \<open>std::string\<close> ends at a null byte.\<close>

definition config_line :: "string \<Rightarrow> config \<Rightarrow> config" where
  "config_line buf m =
     (let read_buf = Trim (takeWhile (\<lambda>c. c \<noteq> CHR 0x00) buf) in
      if read_buf = [] \<or> hd read_buf = CHR ''#'' then m
      else let idx = find_char CHR ''='' 0 read_buf in
      if idx = -1 then m
      else let k = Trim (substr read_buf 0 idx);
               endidx = find_char NL (nat idx) read_buf;
               v = Trim (substr read_buf (nat idx + 1) (endidx - idx - 1))
           in emplace_config k v m)"

function read_lines :: "string \<Rightarrow> config \<Rightarrow> config" where
  "read_lines file m =
     (case fgets 512 file of (buf, rest, eof) \<Rightarrow>
        let m' = config_line buf m in if eof then m' else read_lines rest m')"
  by pat_completeness auto
termination
  by (relation "measure (\<lambda>(file, m). length file)")
    (auto simp: fgets_def Let_def split: if_splits dest: order_trans [OF _ length_takeWhile_le])

declare read_lines.simps [simp del]

definition LoadConfigFile :: "string option \<Rightarrow> config \<Rightarrow> config res" where
  "LoadConfigFile file m = (case file of None \<Rightarrow> Inl AssertFailed | Some content \<Rightarrow> Inr (read_lines content m))"

definition Load :: "string \<Rightarrow> config \<Rightarrow> string" where
  "Load k m = (case m k of None \<Rightarrow> [] | Some v \<Rightarrow> v)"

subsection \<open>Numbers as text\<close>

fun dec :: "nat \<Rightarrow> string" where
  "dec n = (if n < 10 then [char_of (48 + n)] else dec (n div 10) @ [char_of (48 + n mod 10)])"

declare dec.simps [simp del]

definition to_string :: "int \<Rightarrow> string" where
  "to_string i = (if i < 0 then CHR ''-'' # dec (nat (- i)) else dec (nat i))"

definition is_digit :: "char \<Rightarrow> bool" where
  "is_digit c \<longleftrightarrow> 48 \<le> (of_char c :: nat) \<and> (of_char c :: nat) \<le> 57"

definition digits_value :: "string \<Rightarrow> int" where
  "digits_value str = foldl (\<lambda>a c. 10 * a + (int (of_char c) - 48)) 0 (takeWhile is_digit str)"

text \<open>\<open>atoi\<close> for text that does not overflow \<open>int\<close>.\<close>

definition atoi :: "string \<Rightarrow> int" where
  "atoi str =
     (let t = dropWhile (\<lambda>c. c \<in> {CHR '' '', CHR 0x09, CHR 0x0A, CHR 0x0B, CHR 0x0C, CHR 0x0D}) str in
      case t of [] \<Rightarrow> 0
      | c # r \<Rightarrow> if c = CHR ''-'' then - digits_value r else if c = CHR ''+'' then digits_value r else digits_value t)"

text \<open>The conversion of an \<open>int\<close> to a \<open>short\<close>.\<close>

definition to_short :: "int \<Rightarrow> int" where
  "to_short i = sint (word_of_int i :: 16 word)"

subsection \<open>The nodes of the cluster\<close>

definition INT_MAX :: int where "INT_MAX = 2147483647"

definition node_name :: "int \<Rightarrow> string" where
  "node_name i = ''node'' @ to_string i"

function node_loop :: "config \<Rightarrow> int \<Rightarrow> (string \<times> int) list" where
  "node_loop m i =
     (if i < INT_MAX - 1 then
        let nodeIp = Load (node_name i @ ''ip'') m; nodePortStr = Load (node_name i @ ''port'') m
        in if nodeIp = [] then [] else (nodeIp, to_short (atoi nodePortStr)) # node_loop m (i + 1)
      else [])"
  by pat_completeness auto
termination
  by (relation "measure (\<lambda>(m, i). nat (INT_MAX - i))") auto

declare node_loop.simps [simp del]

text \<open>What \<open>RpcProvider::Run\<close> appends for its node.\<close>

definition run_lines :: "int \<Rightarrow> string \<Rightarrow> int \<Rightarrow> string" where
  "run_lines nodeIndex ip port =
     node_name nodeIndex @ ''ip='' @ ip @ [NL] @ node_name nodeIndex @ ''port='' @ to_string port @ [NL]"

subsection \<open>Decimal text\<close>

lemma of_char_of_digit: "d < 10 \<Longrightarrow> (of_char (char_of (48 + d)) :: nat) = 48 + d"
  by (simp add: of_char_of)

lemma dec_digits: "c \<in> set (dec n) \<Longrightarrow> is_digit c"
proof (induction n rule: dec.induct)
  case (1 n)
  show ?case
  proof (cases "n < 10")
    case True
    with 1 show ?thesis by (simp add: dec.simps [of n] is_digit_def of_char_of_digit)
  next
    case False
    have "n mod 10 < 10" by simp
    from of_char_of_digit [OF this] have "is_digit (char_of (48 + n mod 10))" by (simp add: is_digit_def)
    with 1 False show ?thesis by (auto simp: dec.simps [of n])
  qed
qed

lemma dec_nonempty [simp]: "dec n \<noteq> []"
  by (simp add: dec.simps [of n])

lemma takeWhile_dec: "takeWhile is_digit (dec n) = dec n"
  using dec_digits by (simp add: takeWhile_eq_all_conv)

lemma digits_value_dec: "digits_value (dec n) = int n"
proof -
  have "foldl (\<lambda>a c. 10 * a + (int (of_char c) - 48)) 0 (dec n) = int n"
  proof (induction n rule: dec.induct)
    case (1 n)
    show ?case
    proof (cases "n < 10")
      case True
      then show ?thesis by (simp add: dec.simps [of n] of_char_of_digit)
    next
      case False
      have m: "n mod 10 < 10" by simp
      have "int n = 10 * int (n div 10) + int (n mod 10)"
        by (metis mult.commute of_nat_add of_nat_mult of_nat_numeral div_mult_mod_eq)
      with 1 False of_char_of_digit [OF m] show ?thesis by (simp add: dec.simps [of n])
    qed
  qed
  then show ?thesis by (simp add: digits_value_def takeWhile_dec)
qed

lemma digit_chars: "is_digit c \<Longrightarrow> c \<notin> {CHR '' '', CHR ''-'', CHR ''+'', CHR ''='', CHR ''#'', NL, CHR 0x00}
    \<and> c \<notin> {CHR 0x09, CHR 0x0B, CHR 0x0C, CHR 0x0D}"
  by (auto simp: is_digit_def NL_def)

lemma dec_cons: obtains c r where "dec n = c # r" "is_digit c"
  using dec_digits [of _ n] by (cases "dec n") auto

lemma atoi_to_string: "atoi (to_string i) = i"
proof (cases "i < 0")
  case True
  obtain c r where d: "dec (nat (- i)) = c # r" by (rule dec_cons)
  with True digits_value_dec [of "nat (- i)"] show ?thesis by (simp add: to_string_def atoi_def)
next
  case False
  obtain c r where d: "dec (nat i) = c # r" "is_digit c" by (rule dec_cons)
  from digit_chars [OF d(2)] have "c \<notin> {CHR '' '', CHR 0x09, CHR 0x0A, CHR 0x0B, CHR 0x0C, CHR 0x0D}"
    "c \<noteq> CHR ''-''" "c \<noteq> CHR ''+''" by (auto simp: NL_def)
  with False d digits_value_dec [of "nat i"] show ?thesis by (simp add: to_string_def atoi_def)
qed

lemma to_string_inj: "to_string i = to_string j \<longleftrightarrow> i = j"
  by (metis atoi_to_string)

lemma to_string_chars: "c \<in> set (to_string i) \<Longrightarrow> is_digit c \<or> c = CHR ''-''"
  by (auto simp: to_string_def dest: dec_digits split: if_splits)

lemma to_short_id: "- 32768 \<le> i \<Longrightarrow> i < 32768 \<Longrightarrow> to_short i = i"
  by (simp add: to_short_def signed_of_int signed_take_bit_int_eq_self)

subsection \<open>Reading lines\<close>

definition plain :: "string \<Rightarrow> bool" where
  "plain str \<longleftrightarrow> str \<noteq> [] \<and> hd str \<noteq> CHR '' '' \<and> last str \<noteq> CHR '' '' \<and> NL \<notin> set str \<and> CHR 0x00 \<notin> set str"

lemma Trim_id:
  assumes "str \<noteq> []" "hd str \<noteq> CHR '' ''" "last str \<noteq> CHR '' ''"
  shows "Trim str = str"
proof -
  from assms obtain c r where c: "str = c # r" "c \<noteq> CHR '' ''" by (cases str) auto
  from assms obtain q d where d: "str = q @ [d]" "d \<noteq> CHR '' ''" by (cases str rule: rev_cases) auto
  have "find_first_not_of CHR '' '' str = 0" using c by (simp add: find_first_not_of_def)
  moreover have "find_last_not_of CHR '' '' str = int (length str) - 1" using d by (simp add: find_last_not_of_def)
  ultimately show ?thesis using assms(1) by (simp add: Trim_def substr_def Let_def)
qed

lemma takeWhile_not_in: "c \<notin> set xs \<Longrightarrow> takeWhile (\<lambda>d. d \<noteq> c) (xs @ c # ys) = xs"
  by (induction xs) auto

lemma takeWhile_all: "c \<notin> set xs \<Longrightarrow> takeWhile (\<lambda>d. d \<noteq> c) xs = xs"
  by (induction xs) auto

lemma fgets_line:
  assumes "NL \<notin> set l" "length l < 511"
  shows "fgets 512 (l @ NL # rest) = (l @ [NL], rest, False)"
  using assms by (simp add: fgets_def Let_def takeWhile_not_in)

lemma read_lines_line:
  assumes "NL \<notin> set l" "length l < 511"
  shows "read_lines (l @ NL # rest) m = read_lines rest (config_line (l @ [NL]) m)"
  using fgets_line [OF assms] by (subst read_lines.simps) (simp add: Let_def)

lemma config_line_empty: "config_line [] m = m"
  by (simp add: config_line_def Trim_def find_first_not_of_def find_last_not_of_def)

lemma read_lines_Nil: "read_lines [] m = m"
  by (subst read_lines.simps) (simp add: fgets_def config_line_empty)

lemma config_line_entry:
  assumes "plain k" "plain v" "CHR ''='' \<notin> set k" "hd k \<noteq> CHR ''#''"
  shows "config_line (k @ ''='' @ v @ [NL]) m = emplace_config k v m"
proof -
  let ?l = "k @ ''='' @ v @ [NL]"
  have z: "CHR 0x00 \<notin> set ?l" using assms by (auto simp: plain_def NL_def)
  have k: "k \<noteq> []" "hd k \<noteq> CHR '' ''" "last k \<noteq> CHR '' ''" and v: "v \<noteq> []" "hd v \<noteq> CHR '' ''" "last v \<noteq> CHR '' ''"
    using assms(1,2) by (simp_all add: plain_def)
  have t: "Trim ?l = ?l" by (rule Trim_id) (use k in \<open>simp_all add: NL_def\<close>)
  have i: "find_char CHR ''='' 0 ?l = int (length k)"
    using takeWhile_not_in [OF assms(3)] by (simp add: find_char_def)
  have e: "find_char NL (length k) ?l = int (length k + 1 + length v)"
  proof -
    have "NL \<notin> set (''='' @ v)" using assms(2) by (auto simp: plain_def NL_def)
    from takeWhile_not_in [OF this, of "[]"] show ?thesis by (simp add: find_char_def)
  qed
  have "substr ?l 0 (int (length k)) = k" "substr ?l (length k + 1) (int (length v)) = v"
    by (simp_all add: substr_def)
  then show ?thesis
    using takeWhile_all [OF z] t i e k v Trim_id [OF k] Trim_id [OF v] assms(4)
    by (simp add: config_line_def Let_def)
qed

subsection \<open>The registrations of the nodes\<close>

type_synonym registration = "int \<times> string \<times> int"

definition reg_ok :: "registration \<Rightarrow> bool" where
  "reg_ok r = (case r of (i, ip, port) \<Rightarrow>
     0 \<le> i \<and> plain ip \<and> length (node_name i) + length ip < 500 \<and> length (node_name i) + length (to_string port) < 500 \<and>
     - 32768 \<le> port \<and> port < 32768)"

definition registrations :: "registration list \<Rightarrow> string" where
  "registrations rs = concat (map (\<lambda>(i, ip, port). run_lines i ip port) rs)"

definition add_node :: "registration \<Rightarrow> config \<Rightarrow> config" where
  "add_node r m = (case r of (i, ip, port) \<Rightarrow>
     emplace_config (node_name i @ ''port'') (to_string port) (emplace_config (node_name i @ ''ip'') ip m))"

lemma node_name_inj: "node_name i @ ''ip'' = node_name j @ ''ip'' \<longleftrightarrow> i = j"
  "node_name i @ ''port'' = node_name j @ ''port'' \<longleftrightarrow> i = j"
  by (simp_all add: node_name_def to_string_inj)

lemma node_name_port: "node_name i @ ''ip'' \<noteq> node_name j @ ''port''"
proof
  assume "node_name i @ ''ip'' = node_name j @ ''port''"
  then have "last (node_name i @ ''ip'') = last (node_name j @ ''port'')" by simp
  then show False by simp
qed

lemma to_string_not: "c \<in> set (to_string i) \<Longrightarrow>
    c \<notin> {CHR '' '', CHR ''='', CHR ''#'', NL, CHR 0x00}"
  using to_string_chars [of c i] digit_chars [of c] by (auto simp: NL_def)

lemma to_string_nonempty [simp]: "to_string i \<noteq> []"
  by (simp add: to_string_def)

lemma plain_to_string: "plain (to_string i)"
proof -
  have "to_string i \<noteq> []" by simp
  then have "hd (to_string i) \<in> set (to_string i)" "last (to_string i) \<in> set (to_string i)" by auto
  with to_string_not [of _ i] show ?thesis unfolding plain_def by fastforce
qed

lemma plain_node_name:
  assumes "suf = ''ip'' \<or> suf = ''port''"
  shows "plain (node_name i @ suf)" "CHR ''='' \<notin> set (node_name i @ suf)" "hd (node_name i @ suf) \<noteq> CHR ''#''"
  using assms to_string_not [of _ i] by (auto simp: plain_def node_name_def NL_def)

lemma read_registration:
  assumes "reg_ok (i, ip, port)"
  shows "read_lines (run_lines i ip port @ rest) m = read_lines rest (add_node (i, ip, port) m)"
proof -
  let ?l1 = "(node_name i @ ''ip'') @ ''='' @ ip" and ?l2 = "(node_name i @ ''port'') @ ''='' @ to_string port"
  from assms have ip: "plain ip" "length ?l1 < 511" "length ?l2 < 511" by (simp_all add: reg_ok_def)
  have nl: "NL \<notin> set ?l1" "NL \<notin> set ?l2"
    using ip(1) plain_to_string [of port] plain_node_name(1) [of "''ip''" i] plain_node_name(1) [of "''port''" i]
    by (auto simp: plain_def NL_def)
  have s: "run_lines i ip port @ rest = ?l1 @ NL # (?l2 @ NL # rest)" by (simp add: run_lines_def)
  have c1: "config_line (?l1 @ [NL]) m = emplace_config (node_name i @ ''ip'') ip m"
    using config_line_entry [OF plain_node_name(1) [of "''ip''" i] ip(1) plain_node_name(2,3)] by simp
  have c2: "config_line (?l2 @ [NL]) n = emplace_config (node_name i @ ''port'') (to_string port) n" for n
    using config_line_entry [OF plain_node_name(1) [of "''port''" i] plain_to_string plain_node_name(2,3)] by simp
  show ?thesis
    unfolding s read_lines_line [OF nl(1) ip(2)] read_lines_line [OF nl(2) ip(3)] c1 c2
    by (simp add: add_node_def)
qed

lemma read_registrations:
  "\<forall>r \<in> set rs. reg_ok r \<Longrightarrow> read_lines (registrations rs) m = fold add_node rs m"
proof (induction rs arbitrary: m)
  case Nil
  then show ?case by (simp add: registrations_def read_lines_Nil)
next
  case (Cons r rs)
  obtain i ip port where r: "r = (i, ip, port)" by (cases r)
  have "registrations (r # rs) = run_lines i ip port @ registrations rs" by (simp add: registrations_def r)
  with Cons read_registration [of i ip port "registrations rs" m] r show ?case by simp
qed

text \<open>The first registration of a node decides its address.\<close>

lemma add_nodes_lookup:
  "(fold add_node rs m) (node_name i @ ''ip'') =
     (case m (node_name i @ ''ip'') of Some v \<Rightarrow> Some v | None \<Rightarrow> map_option fst (map_of rs i))"
  "(fold add_node rs m) (node_name i @ ''port'') =
     (case m (node_name i @ ''port'') of Some v \<Rightarrow> Some v | None \<Rightarrow> map_option (to_string \<circ> snd) (map_of rs i))"
proof (induction rs arbitrary: m)
  case Nil
  { case 1 show ?case by (simp split: option.split) }
  { case 2 show ?case by (simp split: option.split) }
next
  case (Cons r rs)
  obtain j ip port where r: "r = (j, ip, port)" by (cases r)
  have a: "add_node r m (node_name i @ ''ip'') =
      (if i = j \<and> m (node_name i @ ''ip'') = None then Some ip else m (node_name i @ ''ip''))"
    "add_node r m (node_name i @ ''port'') =
      (if i = j \<and> m (node_name i @ ''port'') = None then Some (to_string port) else m (node_name i @ ''port''))" for m
    using node_name_port [of j i] node_name_port [of i j] node_name_port [of i i]
    by (auto simp: add_node_def r emplace_config_def node_name_def to_string_inj)
  { case 1 show ?case unfolding fold_simps(2) Cons.IH(1) a by (auto simp: r split: option.split) }
  { case 2 show ?case unfolding fold_simps(2) Cons.IH(2) a by (auto simp: r comp_def split: option.split) }
qed

lemma node_loop_prefix:
  assumes "\<And>i. 0 \<le> i \<Longrightarrow> i < n \<Longrightarrow> Load (node_name i @ ''ip'') m \<noteq> []" "Load (node_name n @ ''ip'') m = []"
    "n < INT_MAX" "0 \<le> i" "i \<le> n"
  shows "node_loop m i = map (\<lambda>i. (Load (node_name i @ ''ip'') m, to_short (atoi (Load (node_name i @ ''port'') m)))) [i..n - 1]"
  using assms(4,5)
proof (induction "nat (n - i)" arbitrary: i)
  case 0
  then have "i = n" by simp
  with assms(2) show ?case by (subst node_loop.simps) simp
next
  case (Suc d)
  then have i: "i < n" "i < INT_MAX - 1" using assms(3) by simp_all
  have "d = nat (n - (i + 1))" using Suc.hyps(2) by simp
  from Suc.hyps(1) [OF this] i Suc.prems have r: "node_loop m (i + 1) = map (\<lambda>i. (Load (node_name i @ ''ip'') m,
      to_short (atoi (Load (node_name i @ ''port'') m)))) [i + 1..n - 1]" by simp
  have "[i..n - 1] = i # [i + 1..n - 1]" using i(1) by (simp add: upto_rec1)
  with r i assms(1) [of i] Suc.prems(1) show ?case by (subst node_loop.simps) (simp add: Let_def)
qed

text \<open>The addresses a node reads from the file the cluster wrote: when every node \<open>0 .. n-1\<close> is
  registered and node \<open>n\<close> is not, the list has exactly \<open>n\<close> entries, and entry \<open>i\<close> is the
  \<^emph>\<open>first\<close> registration of node \<open>i\<close>; a node that is started again with another port stays at its old
  address.\<close>

theorem registrations_first_wins:
  assumes "\<forall>r \<in> set rs. reg_ok r" "{0..<n} \<subseteq> fst ` set rs" "n \<notin> fst ` set rs" "0 \<le> n" "n < INT_MAX"
  shows "\<exists>m. LoadConfigFile (Some (registrations rs)) Map.empty = Inr m \<and>
    node_loop m 0 = map (\<lambda>i. the (map_of rs i)) [0..n - 1]"
proof -
  let ?m = "fold add_node rs Map.empty"
  have l: "Load (node_name i @ ''ip'') ?m = (case map_of rs i of None \<Rightarrow> [] | Some (ip, port) \<Rightarrow> ip)"
    "Load (node_name i @ ''port'') ?m = (case map_of rs i of None \<Rightarrow> [] | Some (ip, port) \<Rightarrow> to_string port)" for i
    by (auto simp: Load_def add_nodes_lookup split: option.split)
  have e: "\<exists>ip port. map_of rs i = Some (ip, port) \<and> ip \<noteq> [] \<and> to_short (atoi (to_string port)) = port"
    if "0 \<le> i" "i < n" for i
  proof -
    have "i \<in> fst ` set rs" using assms(2) that by auto
    then obtain ip port where p: "map_of rs i = Some (ip, port)"
      by (metis map_of_eq_None_iff option.exhaust surj_pair)
    then have "(i, ip, port) \<in> set rs" by (rule map_of_SomeD)
    with assms(1) have "reg_ok (i, ip, port)" by blast
    then show ?thesis using p by (simp add: reg_ok_def plain_def atoi_to_string to_short_id)
  qed
  have "node_loop ?m 0 = map (\<lambda>i. (Load (node_name i @ ''ip'') ?m, to_short (atoi (Load (node_name i @ ''port'') ?m)))) [0..n - 1]"
  proof (rule node_loop_prefix)
    show "Load (node_name n @ ''ip'') ?m = []" using assms(3) l(1) [of n]
      by (simp add: map_of_eq_None_iff [THEN iffD2])
    show "Load (node_name i @ ''ip'') ?m \<noteq> []" if "0 \<le> i" "i < n" for i using e [OF that] l(1) [of i] by auto
  qed (use assms in simp_all)
  also have "\<dots> = map (\<lambda>i. the (map_of rs i)) [0..n - 1]"
  proof (rule map_cong [OF refl])
    fix i assume "i \<in> set [0..n - 1]"
    then have "0 \<le> i" "i < n" by simp_all
    from e [OF this] l [of i] show "(Load (node_name i @ ''ip'') ?m, to_short (atoi (Load (node_name i @ ''port'') ?m))) =
        the (map_of rs i)" by auto
  qed
  finally show ?thesis using read_registrations [OF assms(1), of Map.empty]
    by (simp add: LoadConfigFile_def)
qed

theorem registrations_first_wins_witness:
  "\<exists>m. LoadConfigFile (Some (registrations [(1, ''10.0.0.2'', 27001), (0, ''10.0.0.1'', 27000), (0, ''10.0.0.1'', 29000)]))
      Map.empty = Inr m \<and> node_loop m 0 = [(''10.0.0.1'', 27000), (''10.0.0.2'', 27001)]"
proof -
  let ?rs = "[(1, ''10.0.0.2'', 27001), (0, ''10.0.0.1'', 27000), (0, ''10.0.0.1'', 29000)] :: registration list"
  have "\<forall>r \<in> set ?rs. reg_ok r"
    by (simp add: reg_ok_def plain_def NL_def node_name_def to_string_def dec.simps)
  moreover have "{0..<2} \<subseteq> fst ` set ?rs" by auto
  moreover have "[0..2 - 1] = [0, 1 :: int]" by (simp add: upto.simps)
  ultimately show ?thesis using registrations_first_wins [of ?rs 2] by (simp add: INT_MAX_def)
qed

end
