(* ===== verification/RpcHeader.thy ===== *)
theory RpcHeader
  imports Prelude
begin

unbundle bit_operations_syntax

text \<open>
  src/rpc/rpcheader.pb.cpp: the message \<open>RpcHeader\<close> (service name, method name, size of the
  arguments) as the protobuf compiler generated it: construction, copying, merging, parsing,
  serializing and its size. The wire primitives of the protobuf library are the record \<open>wire\<close>;
  \<open>wire_ok\<close> states their documented behaviour: what a primitive wrote, its counterpart reads back and
  leaves the rest of the input. Bytes are characters.
\<close>

record RpcHeader =
  service_name :: string
  method_name :: string
  args_size :: "32 word"
  unknown_fields :: string

subsection \<open>The library\<close>

record wire =
  write_bytes :: "nat \<Rightarrow> string \<Rightarrow> string"
  write_uint32 :: "nat \<Rightarrow> 32 word \<Rightarrow> string"
  write_unknown :: "string \<Rightarrow> string"
  bytes_size :: "string \<Rightarrow> nat"
  uint32_size :: "32 word \<Rightarrow> nat"
  unknown_size :: "string \<Rightarrow> nat"
  read_tag :: "string \<Rightarrow> (32 word \<times> string) option"
  read_bytes :: "string \<Rightarrow> (string \<times> string) option"
  read_varint32 :: "string \<Rightarrow> (32 word \<times> string) option"
  unknown_field :: "32 word \<Rightarrow> string \<Rightarrow> string \<Rightarrow> (string \<times> string) option"

definition wire_ok :: "wire \<Rightarrow> bool" where
  "wire_ok W \<longleftrightarrow>
     (\<forall>f str r. 1 \<le> f \<and> f \<le> 15 \<and> length str < 2 ^ 31 \<longrightarrow>
        (\<exists>t. read_tag W (write_bytes W f str @ r) = Some (word_of_nat (8 * f + 2), t) \<and> read_bytes W t = Some (str, r))) \<and>
     (\<forall>f v r. 1 \<le> f \<and> f \<le> 15 \<longrightarrow>
        (\<exists>t. read_tag W (write_uint32 W f v @ r) = Some (word_of_nat (8 * f), t) \<and> read_varint32 W t = Some (v, r))) \<and>
     (\<forall>f str. 1 \<le> f \<and> f \<le> 15 \<longrightarrow> length (write_bytes W f str) = 1 + bytes_size W str) \<and>
     (\<forall>f v. 1 \<le> f \<and> f \<le> 15 \<longrightarrow> length (write_uint32 W f v) = 1 + uint32_size W v) \<and>
     (\<forall>u. length (write_unknown W u) = unknown_size W u)"

subsection \<open>Construction, copying, merging\<close>

definition SharedCtor :: RpcHeader where
  "SharedCtor = \<lparr>service_name = [], method_name = [], args_size = 0, unknown_fields = []\<rparr>"

definition RpcHeader_copy :: "RpcHeader \<Rightarrow> RpcHeader" where
  "RpcHeader_copy from =
     (let h = \<lparr>service_name = [], method_name = [], args_size = 0, unknown_fields = unknown_fields from\<rparr>;
          h1 = (if service_name from \<noteq> [] then h\<lparr>service_name := service_name from\<rparr> else h);
          h2 = (if method_name from \<noteq> [] then h1\<lparr>method_name := method_name from\<rparr> else h1)
      in h2\<lparr>args_size := args_size from\<rparr>)"

definition header_Clear :: "RpcHeader \<Rightarrow> RpcHeader" where
  "header_Clear h = h\<lparr>service_name := [], method_name := [], args_size := 0, unknown_fields := []\<rparr>"

definition MergeFrom :: "RpcHeader \<Rightarrow> RpcHeader \<Rightarrow> RpcHeader" where
  "MergeFrom from h =
     (let h0 = h\<lparr>unknown_fields := unknown_fields h @ unknown_fields from\<rparr>;
          h1 = (if length (service_name from) > 0 then h0\<lparr>service_name := service_name from\<rparr> else h0);
          h2 = (if length (method_name from) > 0 then h1\<lparr>method_name := method_name from\<rparr> else h1)
      in if args_size from \<noteq> 0 then h2\<lparr>args_size := args_size from\<rparr> else h2)"

text \<open>\<open>same\<close> is the comparison of the two addresses.\<close>

definition CopyFrom :: "bool \<Rightarrow> RpcHeader \<Rightarrow> RpcHeader \<Rightarrow> RpcHeader" where
  "CopyFrom same from h = (if same then h else MergeFrom from (header_Clear h))"

definition InternalSwap :: "RpcHeader \<times> RpcHeader \<Rightarrow> RpcHeader \<times> RpcHeader" where
  "InternalSwap p = (case p of (a, b) \<Rightarrow>
     (a\<lparr>unknown_fields := unknown_fields b, service_name := service_name b, method_name := method_name b,
        args_size := args_size b\<rparr>,
      b\<lparr>unknown_fields := unknown_fields a, service_name := service_name a, method_name := method_name a,
        args_size := args_size a\<rparr>))"

subsection \<open>Serializing and parsing\<close>

definition InternalSerialize :: "wire \<Rightarrow> RpcHeader \<Rightarrow> string" where
  "InternalSerialize W h =
     (if length (service_name h) > 0 then write_bytes W 1 (service_name h) else []) @
     (if length (method_name h) > 0 then write_bytes W 2 (method_name h) else []) @
     (if args_size h \<noteq> 0 then write_uint32 W 3 (args_size h) else []) @
     (if unknown_fields h \<noteq> [] then write_unknown W (unknown_fields h) else [])"

definition ByteSizeLong :: "wire \<Rightarrow> RpcHeader \<Rightarrow> nat" where
  "ByteSizeLong W h =
     (let total_size = 0;
          total_size = (if length (service_name h) > 0 then total_size + 1 + bytes_size W (service_name h) else total_size);
          total_size = (if length (method_name h) > 0 then total_size + 1 + bytes_size W (method_name h) else total_size);
          total_size = (if args_size h \<noteq> 0 then total_size + 1 + uint32_size W (args_size h) else total_size)
      in if unknown_fields h \<noteq> [] then total_size + unknown_size W (unknown_fields h) else total_size)"

text \<open>
  The loop of \<open>_InternalParse\<close> on the input that is left. The result is \<open>None\<close> when \<open>ptr\<close> ends null,
  otherwise the message and the tag that ended the loop before the end of the input
  (\<open>SetLastTag\<close>), if any.
\<close>

partial_function (option) InternalParse :: "wire \<Rightarrow> string \<Rightarrow> RpcHeader \<Rightarrow> (RpcHeader \<times> 32 word option) option option" where
  "InternalParse W ptr h =
     (if ptr = [] then Some (Some (h, None))
      else case read_tag W ptr of None \<Rightarrow> Some None
      | Some (tag, ptr1) \<Rightarrow>
          if drop_bit 3 tag = 1 \<and> (ucast tag :: 8 word) = 10 then
            (case read_bytes W ptr1 of None \<Rightarrow> Some None
             | Some (str, ptr2) \<Rightarrow> InternalParse W ptr2 (h\<lparr>service_name := str\<rparr>))
          else if drop_bit 3 tag = 2 \<and> (ucast tag :: 8 word) = 18 then
            (case read_bytes W ptr1 of None \<Rightarrow> Some None
             | Some (str, ptr2) \<Rightarrow> InternalParse W ptr2 (h\<lparr>method_name := str\<rparr>))
          else if drop_bit 3 tag = 3 \<and> (ucast tag :: 8 word) = 24 then
            (case read_varint32 W ptr1 of None \<Rightarrow> Some None
             | Some (v, ptr2) \<Rightarrow> InternalParse W ptr2 (h\<lparr>args_size := v\<rparr>))
          else if tag AND 7 = 4 \<or> tag = 0 then Some (Some (h, Some tag))
          else
            (case unknown_field W tag (unknown_fields h) ptr1 of None \<Rightarrow> Some None
             | Some (u, ptr2) \<Rightarrow> InternalParse W ptr2 (h\<lparr>unknown_fields := u\<rparr>)))"

subsection \<open>Reading back a header\<close>

lemma wire_bytesE:
  assumes "wire_ok W" "1 \<le> f" "f \<le> 15" "length str < 2 ^ 31"
  obtains t where "read_tag W (write_bytes W f str @ r) = Some (word_of_nat (8 * f + 2), t)"
    "read_bytes W t = Some (str, r)"
  using assms unfolding wire_ok_def by blast

lemma wire_uint32E:
  assumes "wire_ok W" "1 \<le> f" "f \<le> 15"
  obtains t where "read_tag W (write_uint32 W f v @ r) = Some (word_of_nat (8 * f), t)"
    "read_varint32 W t = Some (v, r)"
  using assms unfolding wire_ok_def by blast

lemma wire_sizes:
  assumes "wire_ok W" "1 \<le> f" "f \<le> 15"
  shows "length (write_bytes W f str) = 1 + bytes_size W str" "length (write_uint32 W f v) = 1 + uint32_size W v"
    "write_bytes W f str \<noteq> []" "write_uint32 W f v \<noteq> []" "length (write_unknown W u) = unknown_size W u"
proof -
  show a: "length (write_bytes W f str) = 1 + bytes_size W str" "length (write_uint32 W f v) = 1 + uint32_size W v"
    "length (write_unknown W u) = unknown_size W u"
    using assms unfolding wire_ok_def by blast+
  show "write_bytes W f str \<noteq> []" "write_uint32 W f v \<noteq> []" using a by auto
qed

lemma parse_field:
  assumes "ptr \<noteq> []"
  shows "read_tag W ptr = Some (10, t) \<Longrightarrow> read_bytes W t = Some (str, r) \<Longrightarrow>
      InternalParse W ptr h = InternalParse W r (h\<lparr>service_name := str\<rparr>)"
    "read_tag W ptr = Some (18, t) \<Longrightarrow> read_bytes W t = Some (str, r) \<Longrightarrow>
      InternalParse W ptr h = InternalParse W r (h\<lparr>method_name := str\<rparr>)"
    "read_tag W ptr = Some (24, t) \<Longrightarrow> read_varint32 W t = Some (v, r) \<Longrightarrow>
      InternalParse W ptr h = InternalParse W r (h\<lparr>args_size := v\<rparr>)"
  using assms by (subst InternalParse.simps, simp)+

lemma parse_service:
  assumes "wire_ok W" "length str < 2 ^ 31"
  shows "InternalParse W (write_bytes W 1 str @ r) h = InternalParse W r (h\<lparr>service_name := str\<rparr>)"
proof -
  obtain t where t: "read_tag W (write_bytes W 1 str @ r) = Some (word_of_nat (8 * 1 + 2), t)"
    "read_bytes W t = Some (str, r)" using wire_bytesE [OF assms(1) _ _ assms(2), of 1] by auto
  have "write_bytes W 1 str \<noteq> []" using wire_sizes(3) [OF assms(1), of 1] by simp
  then have "write_bytes W 1 str @ r \<noteq> []" by simp
  then show ?thesis by (rule parse_field(1)) (use t in simp_all)
qed

lemma parse_method:
  assumes "wire_ok W" "length str < 2 ^ 31"
  shows "InternalParse W (write_bytes W 2 str @ r) h = InternalParse W r (h\<lparr>method_name := str\<rparr>)"
proof -
  obtain t where t: "read_tag W (write_bytes W 2 str @ r) = Some (word_of_nat (8 * 2 + 2), t)"
    "read_bytes W t = Some (str, r)" using wire_bytesE [OF assms(1) _ _ assms(2), of 2] by auto
  have "write_bytes W 2 str \<noteq> []" using wire_sizes(3) [OF assms(1), of 2] by simp
  then have "write_bytes W 2 str @ r \<noteq> []" by simp
  then show ?thesis by (rule parse_field(2)) (use t in simp_all)
qed

lemma parse_args_size:
  assumes "wire_ok W"
  shows "InternalParse W (write_uint32 W 3 v @ r) h = InternalParse W r (h\<lparr>args_size := v\<rparr>)"
proof -
  obtain t where t: "read_tag W (write_uint32 W 3 v @ r) = Some (word_of_nat (8 * 3), t)"
    "read_varint32 W t = Some (v, r)" using wire_uint32E [OF assms, of 3] by auto
  have "write_uint32 W 3 v \<noteq> []" using wire_sizes(4) [OF assms, of 3] by simp
  then have "write_uint32 W 3 v @ r \<noteq> []" by simp
  then show ?thesis by (rule parse_field(3)) (use t in simp_all)
qed

lemma parse_end: "InternalParse W [] h = Some (Some (h, None))"
  by (subst InternalParse.simps) simp

lemma parse_serialized:
  assumes "wire_ok W" "length (service_name h) < 2 ^ 31" "length (method_name h) < 2 ^ 31" "unknown_fields h = []"
  shows "InternalParse W (InternalSerialize W h) SharedCtor = Some (Some (h, None))"
proof -
  let ?h1 = "SharedCtor\<lparr>service_name := service_name h\<rparr>"
  let ?r2 = "if args_size h \<noteq> 0 then write_uint32 W 3 (args_size h) else []"
  let ?r1 = "(if length (method_name h) > 0 then write_bytes W 2 (method_name h) else []) @ ?r2"
  have 3: "InternalParse W ?r2 (?h1\<lparr>method_name := method_name h\<rparr>) = Some (Some (h, None))"
    using parse_args_size [OF assms(1), of "args_size h" "[]"] assms(4)
    by (cases h) (auto simp: parse_end SharedCtor_def)
  have 2: "InternalParse W ?r1 ?h1 = InternalParse W ?r2 (?h1\<lparr>method_name := method_name h\<rparr>)"
    using parse_method [OF assms(1,3), of ?r2 ?h1]
    by (cases "method_name h = []") (simp_all add: SharedCtor_def)
  have "InternalParse W (InternalSerialize W h) SharedCtor = InternalParse W ?r1 ?h1"
    using parse_service [OF assms(1,2), of ?r1 SharedCtor] assms(4)
    by (cases "service_name h = []") (simp_all add: InternalSerialize_def SharedCtor_def)
  with 2 3 show ?thesis by simp
qed

lemma ByteSizeLong_length:
  assumes "wire_ok W"
  shows "ByteSizeLong W h = length (InternalSerialize W h)"
  using wire_sizes(1) [OF assms, of 1] wire_sizes(1) [OF assms, of 2] wire_sizes(2) [OF assms, of 3]
    wire_sizes(5) [OF assms, of 1]
  by (simp add: ByteSizeLong_def InternalSerialize_def del: One_nat_def)

lemma CopyFrom_copies: "unknown_fields from = [] \<Longrightarrow> CopyFrom False from h = from"
  by (cases "from"; cases h) (auto simp: Let_def CopyFrom_def MergeFrom_def header_Clear_def)

lemma RpcHeader_copy_copies: "RpcHeader_copy from = from"
  by (cases "from") (simp add: RpcHeader_copy_def Let_def)

lemma InternalSwap_swaps: "InternalSwap (a, b) = (b, a)"
  by (cases a; cases b) (simp add: InternalSwap_def)

subsection \<open>The documented encoding meets the laws\<close>

text \<open>Base 128, least significant group first, the top bit set on every byte but the last.\<close>

fun put_varint :: "nat \<Rightarrow> string" where
  "put_varint n = (if n < 128 then [char_of n] else char_of (128 + n mod 128) # put_varint (n div 128))"

declare put_varint.simps [simp del]

fun get_varint :: "string \<Rightarrow> (nat \<times> string) option" where
  "get_varint [] = None"
| "get_varint (c # r) =
     (let b = of_char c :: nat in
      if b < 128 then Some (b, r)
      else case get_varint r of None \<Rightarrow> None | Some (n, q) \<Rightarrow> Some (b - 128 + 128 * n, q))"

lemma get_put_varint: "get_varint (put_varint n @ r) = Some (n, r)"
proof (induction n rule: put_varint.induct)
  case (1 n)
  show ?case
  proof (cases "n < 128")
    case True
    then show ?thesis by (subst put_varint.simps) (simp add: Let_def)
  next
    case False
    have "128 + n mod 128 < 256" using mod_less_divisor [of 128 n] by linarith
    then have "(of_char (char_of (128 + n mod 128) :: char) :: nat) = 128 + n mod 128"
      by (simp only: of_char_of mod_less)
    with 1 [OF False] False show ?thesis by (subst put_varint.simps) (simp add: Let_def)
  qed
qed

definition varint_wire :: wire where
  "varint_wire = \<lparr>
     write_bytes = (\<lambda>f str. put_varint (8 * f + 2) @ put_varint (length str) @ str),
     write_uint32 = (\<lambda>f v. put_varint (8 * f) @ put_varint (unat v)),
     write_unknown = (\<lambda>u. u),
     bytes_size = (\<lambda>str. length (put_varint (length str)) + length str),
     uint32_size = (\<lambda>v. length (put_varint (unat v))),
     unknown_size = length,
     read_tag = (\<lambda>s. map_option (\<lambda>(n, r). (word_of_nat n, r)) (get_varint s)),
     read_bytes = (\<lambda>s. case get_varint s of None \<Rightarrow> None
        | Some (n, r) \<Rightarrow> if n \<le> length r then Some (take n r, drop n r) else None),
     read_varint32 = (\<lambda>s. map_option (\<lambda>(n, r). (word_of_nat n, r)) (get_varint s)),
     unknown_field = (\<lambda>tag u s. None)\<rparr>"

lemma varint_wire_ok: "wire_ok varint_wire"
proof -
  have one: "length (put_varint n) = 1" if "n < 128" for n using that by (subst put_varint.simps) simp
  show ?thesis
    unfolding wire_ok_def
  proof (intro conjI allI impI)
    fix f :: nat and str r :: string assume "1 \<le> f \<and> f \<le> 15 \<and> length str < 2 ^ 31"
    then show "\<exists>t. read_tag varint_wire (write_bytes varint_wire f str @ r) = Some (word_of_nat (8 * f + 2), t) \<and>
        read_bytes varint_wire t = Some (str, r)"
      by (simp add: varint_wire_def get_put_varint)
  next
    fix f :: nat and v :: "32 word" and r :: string
    show "\<exists>t. read_tag varint_wire (write_uint32 varint_wire f v @ r) = Some (word_of_nat (8 * f), t) \<and>
        read_varint32 varint_wire t = Some (v, r)"
      by (simp add: varint_wire_def get_put_varint)
  qed (auto simp: varint_wire_def one)
qed

text \<open>C24. A request header survives the wire: parsing the bytes the generated code writes gives the
  header back and ends at the end of the input, whatever fields are empty, and the size computed
  before writing is the number of bytes written.\<close>

theorem RpcHeader_roundtrip:
  assumes "wire_ok W" "length (service_name h) < 2 ^ 31" "length (method_name h) < 2 ^ 31" "unknown_fields h = []"
  shows "InternalParse W (InternalSerialize W h) SharedCtor = Some (Some (h, None)) \<and>
    ByteSizeLong W h = length (InternalSerialize W h)"
  using parse_serialized [OF assms] ByteSizeLong_length [OF assms(1)] by blast

theorem RpcHeader_roundtrip_witness:
  "InternalParse varint_wire
      (InternalSerialize varint_wire \<lparr>service_name = ''KvServerRpc'', method_name = ''Get'', args_size = 300, unknown_fields = []\<rparr>)
      SharedCtor =
    Some (Some (\<lparr>service_name = ''KvServerRpc'', method_name = ''Get'', args_size = 300, unknown_fields = []\<rparr>, None))"
  using RpcHeader_roundtrip [OF varint_wire_ok,
      of "\<lparr>service_name = ''KvServerRpc'', method_name = ''Get'', args_size = 300, unknown_fields = []\<rparr>"] by simp

end
