(* ===== verification/RpcChannel.thy ===== *)
theory RpcChannel
  imports RpcHeader Config
begin

text \<open>
  src/rpc/mprpccontroller.cpp, src/rpc/mprpcchannel.cpp, src/raftCore/raftRpcUtil.cpp and
  src/raftClerk/raftServerRpcUtil.cpp: the client side of a remote call. A channel owns at most one
  connected socket; \<open>CallMethod\<close> connects when there is none, frames the request, sends it
  (reconnecting as long as that works), receives one chunk of at most 1024 bytes and parses it.

  The operating system is the record \<open>net\<close>: whether \<open>socket\<close> and \<open>connect\<close> succeed, what \<open>send\<close>
  returns, what \<open>recv\<close> delivers (\<open>None\<close> is the result -1), and \<open>errno\<close>, each on a state of the outside
  world. Descriptors are numbered as POSIX says, the lowest free number first. The stream classes of
  protobuf are the record \<open>coded\<close>; a message type is its serializer and its parser.
\<close>

subsection \<open>The controller\<close>

record MprpcController =
  m_failed :: bool
  m_errText :: string

definition newController :: MprpcController where
  "newController = \<lparr>m_failed = False, m_errText = []\<rparr>"

definition Reset :: "MprpcController \<Rightarrow> MprpcController" where
  "Reset c = c\<lparr>m_failed := False, m_errText := []\<rparr>"

definition Failed :: "MprpcController \<Rightarrow> bool" where "Failed c = m_failed c"

definition ErrorText :: "MprpcController \<Rightarrow> string" where "ErrorText c = m_errText c"

definition SetFailed :: "string \<Rightarrow> MprpcController \<Rightarrow> MprpcController" where
  "SetFailed reason c = c\<lparr>m_failed := True, m_errText := reason\<rparr>"

definition IsCanceled :: "MprpcController \<Rightarrow> bool" where "IsCanceled c = False"

lemma controller_simps [simp]:
  "\<not> Failed newController" "Failed (SetFailed r c)" "ErrorText (SetFailed r c) = r" "\<not> Failed (Reset c)"
  by (simp_all add: Failed_def ErrorText_def newController_def SetFailed_def Reset_def)

subsection \<open>The operating system and the streams\<close>

record 'w net =
  n_socket :: "'w \<Rightarrow> bool \<times> 'w"
  n_connect :: "nat \<Rightarrow> string \<Rightarrow> 16 word \<Rightarrow> 'w \<Rightarrow> bool \<times> 'w"
  n_send :: "nat \<Rightarrow> string \<Rightarrow> 'w \<Rightarrow> bool \<times> 'w"
  n_recv :: "nat \<Rightarrow> nat \<Rightarrow> 'w \<Rightarrow> string option \<times> 'w"
  n_close :: "nat \<Rightarrow> 'w \<Rightarrow> 'w"
  n_errno :: "'w \<Rightarrow> int"

record 'w host =
  os :: 'w
  open_fds :: "nat list"

definition lowest_free :: "nat list \<Rightarrow> nat" where
  "lowest_free fds = hd (filter (\<lambda>n. n \<notin> set fds) [0..<Suc (length fds)])"

definition close_fd :: "'w net \<Rightarrow> nat \<Rightarrow> 'w host \<Rightarrow> 'w host" where
  "close_fd N fd h = h\<lparr>os := n_close N fd (os h), open_fds := removeAll fd (open_fds h)\<rparr>"

record coded =
  coded_write_varint32 :: "32 word \<Rightarrow> string"
  coded_read_varint32 :: "string \<Rightarrow> 32 word \<times> string"
  coded_read_string :: "int \<Rightarrow> string \<Rightarrow> bool \<times> string \<times> string"

definition coded_ok :: "coded \<Rightarrow> bool" where
  "coded_ok C \<longleftrightarrow>
     (\<forall>v r. coded_read_varint32 C (coded_write_varint32 C v @ r) = (v, r)) \<and>
     (\<forall>n str. 0 \<le> n \<and> n \<le> int (length str) \<longrightarrow> coded_read_string C n str = (True, take (nat n) str, drop (nat n) str)) \<and>
     (\<forall>n str. int (length str) < n \<longrightarrow> \<not> fst (coded_read_string C n str))"

subsection \<open>The channel\<close>

record MprpcChannel =
  m_clientFd :: int
  m_ip :: string
  m_port :: "16 word"

type_synonym 'w chan = "MprpcChannel \<times> 'w host"

text \<open>\<open>None\<close> is the result true; \<open>Some errMsg\<close> is false with the message.\<close>

definition newConnect :: "'w net \<Rightarrow> string \<Rightarrow> 16 word \<Rightarrow> 'w chan \<Rightarrow> string option \<times> 'w chan" where
  "newConnect N ip port = (\<lambda>(c, h).
     case n_socket N (os h) of (made, w1) \<Rightarrow>
     if \<not> made then (Some (''create socket error! errno:'' @ to_string (n_errno N w1)),
                     c\<lparr>m_clientFd := -1\<rparr>, h\<lparr>os := w1\<rparr>)
     else let clientfd = lowest_free (open_fds h); h1 = h\<lparr>os := w1, open_fds := clientfd # open_fds h\<rparr> in
     case n_connect N clientfd ip port w1 of (connected, w2) \<Rightarrow>
     if \<not> connected
     then let h2 = close_fd N clientfd (h1\<lparr>os := w2\<rparr>)
          in (Some (''connect fail! errno:'' @ to_string (n_errno N (os h2))), c\<lparr>m_clientFd := -1\<rparr>, h2)
     else (None, c\<lparr>m_clientFd := int clientfd\<rparr>, h1\<lparr>os := w2\<rparr>))"

text \<open>The retries of the constructor: \<open>while (!rt && --tryCount)\<close>.\<close>

fun connect_tries :: "'w net \<Rightarrow> string \<Rightarrow> 16 word \<Rightarrow> nat \<Rightarrow> string option \<times> 'w chan \<Rightarrow> 'w chan" where
  "connect_tries N ip port tryCount (rt, s) =
     (if rt = None \<or> tryCount \<le> 1 then s
      else connect_tries N ip port (tryCount - 1) (newConnect N ip port s))"

declare connect_tries.simps [simp del]

definition MprpcChannel_ctor :: "'w net \<Rightarrow> string \<Rightarrow> int \<Rightarrow> bool \<Rightarrow> 'w host \<Rightarrow> 'w chan" where
  "MprpcChannel_ctor N ip port connectNow h =
     (let c = \<lparr>m_clientFd = -1, m_ip = ip, m_port = word_of_int port\<rparr> in
      if \<not> connectNow then (c, h)
      else connect_tries N ip (word_of_int port) 3 (newConnect N ip (word_of_int port) (c, h)))"

subsection \<open>A call\<close>

text \<open>\<open>SerializeToString\<close> of the library refuses a message of more than \<open>INT_MAX\<close> bytes.\<close>

definition SerializeToString :: "wire \<Rightarrow> RpcHeader \<Rightarrow> string option" where
  "SerializeToString W h = (if ByteSizeLong W h > 2147483647 then None else Some (InternalSerialize W h))"

definition request_header :: "string \<Rightarrow> string \<Rightarrow> string \<Rightarrow> RpcHeader" where
  "request_header svc meth args_str =
     SharedCtor\<lparr>service_name := svc, method_name := meth, args_size := word_of_nat (length args_str)\<rparr>"

definition rpc_frame :: "coded \<Rightarrow> string \<Rightarrow> string \<Rightarrow> string" where
  "rpc_frame C rpc_header_str args_str =
     coded_write_varint32 C (word_of_nat (length rpc_header_str)) @ rpc_header_str @ args_str"

text \<open>The loop around \<open>send\<close>: \<open>Inr\<close> when the request has been sent, \<open>Inl errMsg\<close> when a reconnection
  failed.\<close>

partial_function (option) send_loop :: "'w net \<Rightarrow> string \<Rightarrow> 'w chan \<Rightarrow> ((string + unit) \<times> 'w chan) option" where
  "send_loop N send_rpc_str s =
     (case s of (c, h) \<Rightarrow>
      case n_send N (nat (m_clientFd c)) send_rpc_str (os h) of (sent, w1) \<Rightarrow>
      if sent then Some (Inr (), (c, h\<lparr>os := w1\<rparr>))
      else let h2 = close_fd N (nat (m_clientFd c)) (h\<lparr>os := w1\<rparr>) in
      case newConnect N (m_ip c) (m_port c) (c\<lparr>m_clientFd := -1\<rparr>, h2) of
        (Some errMsg, s3) \<Rightarrow> Some (Inl errMsg, s3)
      | (None, s3) \<Rightarrow> send_loop N send_rpc_str s3)"

text \<open>
  After the request is sent. The buffer of the answer has 1024 bytes and no room for a terminating
  zero; printing it into the error text with \<open>%s\<close> reads up to the first zero, so a full buffer
  without one is read past its end (and the error text overflows).
\<close>

definition recv_reply ::
  "'w net \<Rightarrow> (string \<Rightarrow> 'rsp option) \<Rightarrow> MprpcController \<Rightarrow> 'w chan \<Rightarrow> ('rsp option \<times> MprpcController \<times> 'w chan) res"
where
  "recv_reply N parse ctl = (\<lambda>(c, h).
     case n_recv N (nat (m_clientFd c)) 1024 (os h) of
       (None, w1) \<Rightarrow>
         let h2 = close_fd N (nat (m_clientFd c)) (h\<lparr>os := w1\<rparr>)
         in Inr (None, SetFailed (''recv error! errno:'' @ to_string (n_errno N (os h2))) ctl, c\<lparr>m_clientFd := -1\<rparr>, h2)
     | (Some recv_buf, w1) \<Rightarrow>
         (case parse recv_buf of
            Some response \<Rightarrow> Inr (Some response, ctl, c, h\<lparr>os := w1\<rparr>)
          | None \<Rightarrow>
              if length recv_buf = 1024 \<and> CHR 0x00 \<notin> set recv_buf then Inl OutOfBounds
              else Inr (None, SetFailed (''parse error! response_str:'' @ takeWhile (\<lambda>b. b \<noteq> CHR 0x00) recv_buf) ctl,
                        c, h\<lparr>os := w1\<rparr>)))"

definition CallMethod ::
  "'w net \<Rightarrow> wire \<Rightarrow> coded \<Rightarrow> string \<Rightarrow> string \<Rightarrow> string option \<Rightarrow> (string \<Rightarrow> 'rsp option) \<Rightarrow> MprpcController \<Rightarrow> 'w chan
   \<Rightarrow> ('rsp option \<times> MprpcController \<times> 'w chan) res option"
where
  "CallMethod N W C svc meth request parse ctl s =
     (case (if m_clientFd (fst s) = -1 then newConnect N (m_ip (fst s)) (m_port (fst s)) s else (None, s)) of
        (Some errMsg, s1) \<Rightarrow> Some (Inr (None, SetFailed errMsg ctl, s1))
      | (None, s1) \<Rightarrow>
        (case request of
           None \<Rightarrow> Some (Inr (None, SetFailed ''serialize request error!'' ctl, s1))
         | Some args_str \<Rightarrow>
           (case SerializeToString W (request_header svc meth args_str) of
              None \<Rightarrow> Some (Inr (None, SetFailed ''serialize rpc header error!'' ctl, s1))
            | Some rpc_header_str \<Rightarrow>
              (case send_loop N (rpc_frame C rpc_header_str args_str) s1 of
                 None \<Rightarrow> None
               | Some (Inl errMsg, s2) \<Rightarrow> Some (Inr (None, SetFailed errMsg ctl, s2))
               | Some (Inr _, s2) \<Rightarrow> Some (recv_reply N parse ctl s2)))))"

subsection \<open>Descriptors are not leaked\<close>

text \<open>The channel owns its connected descriptor and nothing else of what is open.\<close>

definition chan_fds :: "nat set \<Rightarrow> 'w chan \<Rightarrow> bool" where
  "chan_fds others s \<longleftrightarrow>
     m_clientFd (fst s) \<ge> -1 \<and>
     set (open_fds (snd s)) = others \<union> (if m_clientFd (fst s) = -1 then {} else {nat (m_clientFd (fst s))}) \<and>
     (m_clientFd (fst s) \<noteq> -1 \<longrightarrow> nat (m_clientFd (fst s)) \<notin> others)"

lemma lowest_free_fresh: "lowest_free fds \<notin> set fds"
proof -
  have "\<not> {0..<Suc (length fds)} \<subseteq> set fds"
  proof
    assume "{0..<Suc (length fds)} \<subseteq> set fds"
    then have "card {0..<Suc (length fds)} \<le> card (set fds)" by (intro card_mono) simp_all
    then show False using card_length [of fds] by simp
  qed
  then have "filter (\<lambda>n. n \<notin> set fds) [0..<Suc (length fds)] \<noteq> []" by (auto simp: filter_empty_conv simp del: upt_Suc)
  then have "lowest_free fds \<in> set (filter (\<lambda>n. n \<notin> set fds) [0..<Suc (length fds)])"
    unfolding lowest_free_def by (rule hd_in_set)
  then show ?thesis by (simp del: upt_Suc)
qed

lemma newConnect_fds:
  assumes "chan_fds others s" "m_clientFd (fst s) = -1"
  shows "chan_fds others (snd (newConnect N ip port s))"
    "fst (newConnect N ip port s) = None \<longleftrightarrow> m_clientFd (fst (snd (newConnect N ip port s))) \<noteq> -1"
    "m_ip (fst (snd (newConnect N ip port s))) = m_ip (fst s)"
    "m_port (fst (snd (newConnect N ip port s))) = m_port (fst s)"
  using assms lowest_free_fresh [of "open_fds (snd s)"]
  by (auto simp: newConnect_def chan_fds_def close_fd_def Let_def split: prod.splits)

lemma close_fds:
  assumes "chan_fds others (c, h)" "m_clientFd c \<noteq> -1"
  shows "chan_fds others (c\<lparr>m_clientFd := -1\<rparr>, close_fd N (nat (m_clientFd c)) (h\<lparr>os := w\<rparr>))"
  using assms by (auto simp: chan_fds_def close_fd_def)

lemma connect_tries_fds:
  "chan_fds others (snd p) \<Longrightarrow> (fst p \<noteq> None \<longrightarrow> m_clientFd (fst (snd p)) = -1) \<Longrightarrow>
   chan_fds others (connect_tries N ip port n p)"
proof (induction n arbitrary: p rule: less_induct)
  case (less n)
  obtain rt s where p: "p = (rt, s)" by (cases p)
  show ?case
  proof (cases "rt = None \<or> n \<le> 1")
    case True
    then show ?thesis using less.prems p by (simp add: connect_tries.simps)
  next
    case False
    then have c: "m_clientFd (fst s) = -1" "chan_fds others s" "n - 1 < n" using less.prems p by auto
    have "fst (newConnect N ip port s) \<noteq> None \<longrightarrow> m_clientFd (fst (snd (newConnect N ip port s))) = -1"
      using newConnect_fds(2) [OF c(2,1), of N ip port] by auto
    with less.IH [OF c(3), of "newConnect N ip port s"] newConnect_fds(1) [OF c(2,1)] False show ?thesis
      by (auto simp: p connect_tries.simps [of N ip port n])
  qed
qed

lemma MprpcChannel_ctor_fds:
  "chan_fds (set (open_fds h)) (MprpcChannel_ctor N ip port connectNow h)"
proof -
  let ?s = "(\<lparr>m_clientFd = -1, m_ip = ip, m_port = word_of_int port\<rparr>, h)"
  have s: "chan_fds (set (open_fds h)) ?s" "m_clientFd (fst ?s) = -1" by (simp_all add: chan_fds_def)
  have "fst (newConnect N ip (word_of_int port) ?s) \<noteq> None \<longrightarrow>
      m_clientFd (fst (snd (newConnect N ip (word_of_int port) ?s))) = -1"
    using newConnect_fds(2) [OF s, of N ip "word_of_int port"] by auto
  with connect_tries_fds [OF newConnect_fds(1) [OF s]] s(1) show ?thesis
    by (simp add: MprpcChannel_ctor_def Let_def)
qed

lemma send_loop_fds:
  assumes "send_loop N str s = Some r" "chan_fds others s" "m_clientFd (fst s) \<noteq> -1"
  shows "chan_fds others (snd r) \<and> (m_clientFd (fst (snd r)) \<noteq> -1 \<longleftrightarrow> fst r = Inr ())"
proof -
  have "send_loop N str s = Some r \<Longrightarrow> \<forall>others. chan_fds others s \<and> m_clientFd (fst s) \<noteq> -1 \<longrightarrow>
      chan_fds others (snd r) \<and> (m_clientFd (fst (snd r)) \<noteq> -1 \<longleftrightarrow> fst r = Inr ())"
  proof (rule send_loop.raw_induct [rotated], assumption, intro allI impI)
    fix loop :: "'b net \<Rightarrow> string \<Rightarrow> 'b chan \<Rightarrow> ((string + unit) \<times> 'b chan) option" and N str s r others
    assume IH: "\<And>N str s r. loop N str s = Some r \<Longrightarrow> \<forall>others. chan_fds others s \<and> m_clientFd (fst s) \<noteq> -1 \<longrightarrow>
        chan_fds others (snd r) \<and> (m_clientFd (fst (snd r)) \<noteq> -1 \<longleftrightarrow> fst r = Inr ())"
      and eq: "(case s of (c, h) \<Rightarrow>
        case n_send N (nat (m_clientFd c)) str (os h) of (sent, w1) \<Rightarrow>
        if sent then Some (Inr (), (c, h\<lparr>os := w1\<rparr>))
        else let h2 = close_fd N (nat (m_clientFd c)) (h\<lparr>os := w1\<rparr>) in
        case newConnect N (m_ip c) (m_port c) (c\<lparr>m_clientFd := -1\<rparr>, h2) of
          (Some errMsg, s3) \<Rightarrow> Some (Inl errMsg, s3)
        | (None, s3) \<Rightarrow> loop N str s3) = Some r"
      and pre: "chan_fds others s \<and> m_clientFd (fst s) \<noteq> -1"
    obtain c h where s: "s = (c, h)" by (cases s)
    obtain sent w1 where w: "n_send N (nat (m_clientFd c)) str (os h) = (sent, w1)" by (meson surj_pair)
    let ?s2 = "(c\<lparr>m_clientFd := -1\<rparr>, close_fd N (nat (m_clientFd c)) (h\<lparr>os := w1\<rparr>))"
    obtain rt s3 where n: "newConnect N (m_ip c) (m_port c) ?s2 = (rt, s3)" by (meson surj_pair)
    have "chan_fds others ?s2" using close_fds pre s by fastforce
    from newConnect_fds(1,2) [OF this, of N "m_ip c" "m_port c"] n
    have f: "chan_fds others s3" "rt = None \<longleftrightarrow> m_clientFd (fst s3) \<noteq> -1" by simp_all
    show "chan_fds others (snd r) \<and> (m_clientFd (fst (snd r)) \<noteq> -1 \<longleftrightarrow> fst r = Inr ())"
    proof (cases sent)
      case True
      then have "r = (Inr (), (c, h\<lparr>os := w1\<rparr>))" using eq s w by simp
      then show ?thesis using pre s by (simp add: chan_fds_def)
    next
      case False
      show ?thesis
      proof (cases rt)
        case None
        then have "loop N str s3 = Some r" using eq s w n False by (simp add: Let_def)
        from IH [OF this] f None show ?thesis by blast
      next
        case (Some errMsg)
        then have "r = (Inl errMsg, s3)" using eq s w n False by (simp add: Let_def)
        then show ?thesis using f Some by simp
      qed
    qed
  qed
  with assms show ?thesis by blast
qed

lemma recv_reply_fds:
  assumes "recv_reply N parse ctl s = Inr (r, ctl', s')" "chan_fds others s" "m_clientFd (fst s) \<noteq> -1" "\<not> Failed ctl"
  shows "chan_fds others s' \<and> (Failed ctl' \<longleftrightarrow> r = None)"
proof -
  obtain c h where s: "s = (c, h)" by (cases s)
  obtain d w1 where d: "n_recv N (nat (m_clientFd c)) 1024 (os h) = (d, w1)" by (meson surj_pair)
  show ?thesis
  proof (cases d)
    case None
    with assms(1) d have "s' = (c\<lparr>m_clientFd := -1\<rparr>, close_fd N (nat (m_clientFd c)) (h\<lparr>os := w1\<rparr>))" "r = None" "Failed ctl'"
      by (auto simp: recv_reply_def s Let_def)
    with close_fds [of others c h N w1] assms(2,3) s show ?thesis by simp
  next
    case (Some buf)
    with assms(1,4) d have "s' = (c, h\<lparr>os := w1\<rparr>)" "Failed ctl' \<longleftrightarrow> r = None"
      by (cases "parse buf"; auto simp: recv_reply_def s split: if_splits)+
    with assms(2) s show ?thesis by (simp add: chan_fds_def)
  qed
qed

lemma CallMethod_fds:
  assumes "CallMethod N W C svc meth request parse ctl s = Some (Inr (r, ctl', s'))" "chan_fds others s" "\<not> Failed ctl"
  shows "chan_fds others s' \<and> (Failed ctl' \<longleftrightarrow> r = None)"
proof -
  let ?n = "if m_clientFd (fst s) = -1 then newConnect N (m_ip (fst s)) (m_port (fst s)) s else (None, s)"
  obtain rt s1 where n: "?n = (rt, s1)" by (meson surj_pair)
  have s1: "chan_fds others s1" "rt = None \<longleftrightarrow> m_clientFd (fst s1) \<noteq> -1"
  proof -
    have "chan_fds others (snd ?n) \<and> (fst ?n = None \<longleftrightarrow> m_clientFd (fst (snd ?n)) \<noteq> -1)"
      using newConnect_fds(1,2) [OF assms(2), of N "m_ip (fst s)" "m_port (fst s)"] assms(2)
      by (cases "m_clientFd (fst s) = -1") simp_all
    then show "chan_fds others s1" "rt = None \<longleftrightarrow> m_clientFd (fst s1) \<noteq> -1" using n by simp_all
  qed
  have nr: "CallMethod N W C svc meth request parse ctl s = (case (rt, s1) of
        (Some errMsg, s1) \<Rightarrow> Some (Inr (None, SetFailed errMsg ctl, s1))
      | (None, s1) \<Rightarrow>
        (case request of
           None \<Rightarrow> Some (Inr (None, SetFailed ''serialize request error!'' ctl, s1))
         | Some args_str \<Rightarrow>
           (case SerializeToString W (request_header svc meth args_str) of
              None \<Rightarrow> Some (Inr (None, SetFailed ''serialize rpc header error!'' ctl, s1))
            | Some rpc_header_str \<Rightarrow>
              (case send_loop N (rpc_frame C rpc_header_str args_str) s1 of
                 None \<Rightarrow> None
               | Some (Inl errMsg, s2) \<Rightarrow> Some (Inr (None, SetFailed errMsg ctl, s2))
               | Some (Inr _, s2) \<Rightarrow> Some (recv_reply N parse ctl s2)))))"
    unfolding CallMethod_def n by (rule refl)
  show ?thesis
  proof (cases "\<exists>args hdr. rt = None \<and> request = Some args \<and> SerializeToString W (request_header svc meth args) = Some hdr")
    case False
    with assms(1) s1 show ?thesis unfolding nr by (auto split: option.splits)
  next
    case True
    then obtain args hdr where a: "rt = None" "request = Some args"
      "SerializeToString W (request_header svc meth args) = Some hdr" by blast
    then obtain o1 s2 where l: "send_loop N (rpc_frame C hdr args) s1 = Some (o1, s2)"
      using assms(1) unfolding nr by (auto split: option.splits)
    from send_loop_fds [OF this s1(1)] s1(2) a(1)
    have f: "chan_fds others s2" "m_clientFd (fst s2) \<noteq> -1 \<longleftrightarrow> o1 = Inr ()" by simp_all
    show ?thesis
    proof (cases o1)
      case (Inl errMsg)
      with assms(1) l a f(1) show ?thesis unfolding nr by auto
    next
      case (Inr u)
      with assms(1) l a have "recv_reply N parse ctl s2 = Inr (r, ctl', s')" unfolding nr by simp
      from recv_reply_fds [OF this f(1) _ assms(3)] f(2) Inr show ?thesis by simp
    qed
  qed
qed

text \<open>C25. A channel never leaks a descriptor: whatever \<open>socket\<close>, \<open>connect\<close>, \<open>send\<close>, \<open>recv\<close> and the
  parser do, a channel that owned at most its one connected socket, and nothing of what other parts of
  the process have open, still does after a call that comes back, and the call has an answer exactly
  when the controller is not marked as failed.\<close>

theorem CallMethod_owns_one_socket:
  assumes "chan_fds others s" "\<not> Failed ctl" "CallMethod N W C svc meth request parse ctl s = Some (Inr (r, ctl', s'))"
  shows "chan_fds others s' \<and> (Failed ctl' \<longleftrightarrow> r = None)"
  using CallMethod_fds [OF assms(3,1,2)] .

subsection \<open>The callers\<close>

text \<open>
  The generated stubs forward to the channel. \<open>stub_call\<close> is what every method of \<open>RaftRpcUtil\<close> and
  \<open>raftServerRpcUtil\<close> does: a fresh controller, the call, and whether it has not failed.
\<close>

definition stub_call ::
  "'w net \<Rightarrow> wire \<Rightarrow> coded \<Rightarrow> string \<Rightarrow> string \<Rightarrow> string option \<Rightarrow> (string \<Rightarrow> 'rsp option) \<Rightarrow> 'w chan
   \<Rightarrow> (bool \<times> 'rsp option \<times> 'w chan) res option"
where
  "stub_call N W C svc meth request parse s =
     map_option (\<lambda>x. bindR x (\<lambda>(r, ctl, s'). Inr (\<not> Failed ctl, r, s')))
       (CallMethod N W C svc meth request parse newController s)"

definition RaftRpcUtil_AppendEntires where
  "RaftRpcUtil_AppendEntires N W C request parse s = stub_call N W C ''raftRpc'' ''AppendEntries'' request parse s"

definition RaftRpcUtil_InstallSnapShot where
  "RaftRpcUtil_InstallSnapShot N W C request parse s = stub_call N W C ''raftRpc'' ''InstallSnapShot'' request parse s"

definition RaftRpcUtil_RequestVote where
  "RaftRpcUtil_RequestVote N W C request parse s = stub_call N W C ''raftRpc'' ''RequestVote'' request parse s"

definition RaftRpcUtil_ctor :: "'w net \<Rightarrow> string \<Rightarrow> int \<Rightarrow> 'w host \<Rightarrow> 'w chan" where
  "RaftRpcUtil_ctor N ip port h = MprpcChannel_ctor N ip port True h"

text \<open>The stub does not own its channel, so deleting it leaves the channel and its socket alone.\<close>

definition RaftRpcUtil_dtor :: "'w chan \<Rightarrow> 'w host" where
  "RaftRpcUtil_dtor s = snd s"

definition raftServerRpcUtil_Get where
  "raftServerRpcUtil_Get N W C request parse s = stub_call N W C ''KvServerRpc'' ''Get'' request parse s"

definition raftServerRpcUtil_PutAppend where
  "raftServerRpcUtil_PutAppend N W C request parse s = stub_call N W C ''KvServerRpc'' ''PutAppend'' request parse s"

definition raftServerRpcUtil_ctor :: "'w net \<Rightarrow> string \<Rightarrow> int \<Rightarrow> 'w host \<Rightarrow> 'w chan" where
  "raftServerRpcUtil_ctor N ip port h = MprpcChannel_ctor N ip port False h"

definition raftServerRpcUtil_dtor :: "'w chan \<Rightarrow> 'w host" where
  "raftServerRpcUtil_dtor s = snd s"

subsection \<open>A network on which everything works\<close>

definition net0 :: "string \<Rightarrow> unit net" where
  "net0 answer = \<lparr>n_socket = (\<lambda>w. (True, w)), n_connect = (\<lambda>fd ip port w. (True, w)),
     n_send = (\<lambda>fd str w. (True, w)), n_recv = (\<lambda>fd n w. (Some (take n answer), w)),
     n_close = (\<lambda>fd w. w), n_errno = (\<lambda>w. 0)\<rparr>"

definition coded0 :: coded where
  "coded0 = \<lparr>coded_write_varint32 = (\<lambda>v. put_varint (unat v)),
     coded_read_varint32 = (\<lambda>s. case get_varint s of None \<Rightarrow> (0, s) | Some (n, r) \<Rightarrow> (word_of_nat n, r)),
     coded_read_string = (\<lambda>n s. if 0 \<le> n \<and> n \<le> int (length s) then (True, take (nat n) s, drop (nat n) s)
                              else (False, [], s))\<rparr>"

lemma coded0_ok: "coded_ok coded0"
  by (auto simp: coded_ok_def coded0_def get_put_varint)

definition host0 :: "unit host" where
  "host0 = \<lparr>os = (), open_fds = [0, 1, 2]\<rparr>"

lemma call_net0:
  "CallMethod (net0 answer) varint_wire coded0 ''KvServerRpc'' ''Get'' (Some ''ab'') Some newController
     (MprpcChannel_ctor (net0 answer) ''127.0.0.1'' 27000 False host0) =
   Some (Inr (Some (take 1024 answer), newController,
     (\<lparr>m_clientFd = 3, m_ip = ''127.0.0.1'', m_port = 27000\<rparr>, \<lparr>os = (), open_fds = [3, 0, 1, 2]\<rparr>)))"
proof -
  have free: "lowest_free [0, Suc 0, 2] = 3" by code_simp
  have connect: "newConnect (net0 answer) ''127.0.0.1'' 27000 (\<lparr>m_clientFd = -1, m_ip = ''127.0.0.1'', m_port = 27000\<rparr>, host0) =
    (None, (\<lparr>m_clientFd = 3, m_ip = ''127.0.0.1'', m_port = 27000\<rparr>, \<lparr>os = (), open_fds = [3, 0, 1, 2]\<rparr>))"
    by (simp add: newConnect_def net0_def host0_def free Let_def)
  obtain hdr where hdr: "SerializeToString varint_wire (request_header ''KvServerRpc'' ''Get'' ''ab'') = Some hdr"
    by (simp add: SerializeToString_def ByteSizeLong_def request_header_def SharedCtor_def varint_wire_def
        put_varint.simps split: if_splits)
  have send: "send_loop (net0 answer) str (c, h) = Some (Inr (), (c, h))" for str c h
    by (subst send_loop.simps) (simp add: net0_def)
  show ?thesis
    by (simp add: MprpcChannel_ctor_def CallMethod_def connect hdr send recv_reply_def Let_def) (simp add: net0_def)
qed

theorem CallMethod_owns_one_socket_witness:
  "\<exists>ctl s. CallMethod (net0 ''abc'') varint_wire coded0 ''KvServerRpc'' ''Get'' (Some ''ab'') Some newController
     (MprpcChannel_ctor (net0 ''abc'') ''127.0.0.1'' 27000 False host0) = Some (Inr (Some ''abc'', ctl, s)) \<and>
     chan_fds {0, 1, 2} s \<and> \<not> Failed ctl"
proof -
  have "chan_fds {0, 1, 2} (MprpcChannel_ctor (net0 ''abc'') ''127.0.0.1'' 27000 False host0)"
    using MprpcChannel_ctor_fds [of host0 "net0 ''abc''" "''127.0.0.1''" 27000 False] by (simp add: host0_def)
  from CallMethod_owns_one_socket [OF this controller_simps(1) call_net0] call_net0 [of "''abc''"] show ?thesis
    by auto
qed

end
