(* ===== verification/RpcProvider.thy ===== *)
theory RpcProvider
  imports RpcChannel
begin

text \<open>
  src/rpc/rpcprovider.cpp: the server side of a remote call. \<open>NotifyService\<close> fills the tables of
  services and methods; \<open>OnMessage\<close> takes whatever bytes have arrived, decodes one request, calls the
  method and sends the answer. The last part composes both sides: a call through a channel is the
  call of the method itself.

  A service is its descriptor (name and method names), the parser of a method's request, its code
  and the serializer of its answer; its code runs \<open>done\<close> once, at its end.
\<close>

record ('w, 'req, 'rsp) service =
  sv_name :: string
  sv_methods :: "string list"
  sv_parse :: "nat \<Rightarrow> string \<Rightarrow> 'req option"
  sv_call :: "nat \<Rightarrow> 'req \<Rightarrow> 'w \<Rightarrow> 'rsp \<times> 'w"
  sv_ser :: "nat \<Rightarrow> 'rsp \<Rightarrow> string option"

record ('w, 'req, 'rsp) ServiceInfo =
  m_service :: "('w, 'req, 'rsp) service"
  m_methodMap :: "string \<Rightarrow> nat option"

type_synonym ('w, 'req, 'rsp) service_map = "string \<Rightarrow> ('w, 'req, 'rsp) ServiceInfo option"

record conn =
  sent :: "string list"
  connected :: bool
  shut :: bool

definition emplace_new :: "'k \<Rightarrow> 'v \<Rightarrow> ('k \<Rightarrow> 'v option) \<Rightarrow> 'k \<Rightarrow> 'v option" where
  "emplace_new k v m = (if m k = None then m(k \<mapsto> v) else m)"

definition method_table :: "string list \<Rightarrow> string \<Rightarrow> nat option" where
  "method_table names = fold (\<lambda>i. emplace_new (names ! i) i) [0..<length names] Map.empty"

definition NotifyService :: "('w, 'req, 'rsp) service \<Rightarrow> ('w, 'req, 'rsp) service_map \<Rightarrow> ('w, 'req, 'rsp) service_map" where
  "NotifyService service m_serviceMap =
     emplace_new (sv_name service) \<lparr>m_service = service, m_methodMap = method_table (sv_methods service)\<rparr> m_serviceMap"

definition OnConnection :: "conn \<Rightarrow> conn" where
  "OnConnection cn = (if \<not> connected cn then cn\<lparr>shut := True\<rparr> else cn)"

definition SendRpcResponse :: "('rsp \<Rightarrow> string option) \<Rightarrow> 'rsp \<Rightarrow> conn \<Rightarrow> conn" where
  "SendRpcResponse ser response cn =
     (case ser response of None \<Rightarrow> cn | Some response_str \<Rightarrow> cn\<lparr>sent := sent cn @ [response_str]\<rparr>)"

text \<open>\<open>ParseFromString\<close> of the library: clear, parse, and the input must have ended the message.\<close>

definition ParseFromString_header :: "wire \<Rightarrow> string \<Rightarrow> RpcHeader option option" where
  "ParseFromString_header W str =
     map_option (\<lambda>r. case r of Some (h, None) \<Rightarrow> Some h | _ \<Rightarrow> None) (InternalParse W str SharedCtor)"

text \<open>
  The callback of a readable connection. The whole buffer is taken, one request is decoded from it,
  and what follows is dropped with it. The sizes are \<open>uint32\<close> and become \<open>int\<close> at the calls of
  \<open>ReadString\<close>; the limit pushed around the first of them is the number of bytes it reads.
\<close>

definition OnMessage ::
  "wire \<Rightarrow> coded \<Rightarrow> ('w, 'req, 'rsp) service_map \<Rightarrow> string \<Rightarrow> conn \<Rightarrow> 'w \<Rightarrow> (string \<times> conn \<times> 'w) option"
where
  "OnMessage W C m_serviceMap recv_buf cn w =
     (let stop = Some ([], cn, w) in
      case coded_read_varint32 C recv_buf of (header_size, in1) \<Rightarrow>
      case coded_read_string C (sint header_size) in1 of (_, rpc_header_str, in2) \<Rightarrow>
      case ParseFromString_header W rpc_header_str of
        None \<Rightarrow> None
      | Some None \<Rightarrow> stop
      | Some (Some rpcHeader) \<Rightarrow>
       (case coded_read_string C (sint (args_size rpcHeader)) in2 of (read_arg_success, args_str, in3) \<Rightarrow>
        if \<not> read_arg_success then stop
        else case m_serviceMap (service_name rpcHeader) of
          None \<Rightarrow> stop
        | Some info \<Rightarrow>
         (case m_methodMap info (method_name rpcHeader) of
            None \<Rightarrow> stop
          | Some meth \<Rightarrow>
             let service = m_service info in
             case sv_parse service meth args_str of
               None \<Rightarrow> stop
             | Some request \<Rightarrow>
                case sv_call service meth request w of (response, w') \<Rightarrow>
                  Some ([], SendRpcResponse (sv_ser service meth) response cn, w'))))"

text \<open>
  \<open>Run\<close>: the last address of the host, the lines for the configuration file, the server object and
  its callbacks. The addresses of the host and whether the file opens are arguments; a host without an
  address leaves the pointer uninitialised. Nothing here starts the server or its loop.
\<close>

record provider_host =
  conf_file :: string
  tcp_server :: "(string \<times> int) option"
  listening :: bool

definition Run :: "int \<Rightarrow> int \<Rightarrow> string list \<Rightarrow> bool \<Rightarrow> provider_host \<Rightarrow> provider_host res" where
  "Run nodeIndex port h_addr_list is_open p =
     (if h_addr_list = [] then Inl NullDeref
      else let ip = last h_addr_list in
      if \<not> is_open then Inl AssertFailed
      else Inr (p\<lparr>conf_file := conf_file p @ run_lines nodeIndex ip port, tcp_server := Some (ip, port)\<rparr>))"

subsection \<open>The tables\<close>

lemma method_table_upto:
  "n \<le> length names \<Longrightarrow> fold (\<lambda>i. emplace_new (names ! i) i) [0..<n] Map.empty k =
     (if k \<in> set (take n names) then Some (length (takeWhile (\<lambda>x. x \<noteq> k) (take n names))) else None)"
proof (induction n)
  case (Suc n)
  then have "take (Suc n) names = take n names @ [names ! n]" by (simp add: take_Suc_conv_app_nth)
  then have "length (takeWhile (\<lambda>x. x \<noteq> k) (take (Suc n) names)) =
      (if k \<in> set (take n names) then length (takeWhile (\<lambda>x. x \<noteq> k) (take n names))
       else if names ! n = k then n else Suc n)" "k \<in> set (take (Suc n) names) \<longleftrightarrow> k \<in> set (take n names) \<or> names ! n = k"
    using Suc.prems by (auto simp: takeWhile_append)
  moreover have "fold (\<lambda>i. emplace_new (names ! i) i) [0..<Suc n] Map.empty k =
     emplace_new (names ! n) n (fold (\<lambda>i. emplace_new (names ! i) i) [0..<n] Map.empty) k" by simp
  moreover have "emplace_new (names ! n) n m k = (case m k of Some v \<Rightarrow> Some v | None \<Rightarrow> if names ! n = k then Some n else None)"
    for m :: "_ \<Rightarrow> nat option" by (simp add: emplace_new_def split: option.split)
  ultimately show ?case using Suc by (auto split: option.split)
qed simp

lemma method_table_nth:
  assumes "distinct names" "i < length names"
  shows "method_table names (names ! i) = Some i"
proof -
  have "takeWhile (\<lambda>x. x \<noteq> names ! i) names = take i names"
    by (rule takeWhile_eq_take_P_nth) (use assms nth_eq_iff_index_eq in fastforce)+
  with assms method_table_upto [of "length names" names "names ! i"] show ?thesis
    by (simp add: method_table_def)
qed

lemma method_table_None: "k \<notin> set names \<Longrightarrow> method_table names k = None"
  using method_table_upto [of "length names" names k] by (simp add: method_table_def)

subsection \<open>One request\<close>

lemma sint_small: "n < 2 ^ 31 \<Longrightarrow> sint (word_of_nat n :: 32 word) = int n"
  by (simp add: signed_of_nat signed_take_bit_int_eq_self)

text \<open>What the provider does with a decoded request: the call of the method, then the answer.\<close>

definition serve ::
  "('w, 'req, 'rsp) service_map \<Rightarrow> string \<Rightarrow> string \<Rightarrow> string \<Rightarrow> conn \<Rightarrow> 'w \<Rightarrow> conn \<times> 'w"
where
  "serve sm svc meth args cn w =
     (case sm svc of None \<Rightarrow> (cn, w)
      | Some info \<Rightarrow> (case m_methodMap info meth of None \<Rightarrow> (cn, w)
        | Some i \<Rightarrow> (case sv_parse (m_service info) i args of None \<Rightarrow> (cn, w)
          | Some req \<Rightarrow> (case sv_call (m_service info) i req w of (rsp, w') \<Rightarrow>
              (SendRpcResponse (sv_ser (m_service info) i) rsp cn, w')))))"

lemma OnMessage_frame:
  assumes "wire_ok W" "coded_ok C" "length svc < 2 ^ 31" "length meth < 2 ^ 31" "length args < 2 ^ 31"
    "SerializeToString W (request_header svc meth args) = Some hdr"
  shows "OnMessage W C sm (rpc_frame C hdr args @ extra) cn w =
      (case serve sm svc meth args cn w of (cn', w') \<Rightarrow> Some ([], cn', w'))"
    "k < length args \<Longrightarrow> OnMessage W C sm (rpc_frame C hdr (take k args)) cn w = Some ([], cn, w)"
proof -
  let ?h = "request_header svc meth args"
  have h: "service_name ?h = svc" "method_name ?h = meth" "args_size ?h = word_of_nat (length args)" "unknown_fields ?h = []"
    by (simp_all add: request_header_def SharedCtor_def)
  have hdr: "hdr = InternalSerialize W ?h" "length hdr < 2 ^ 31"
    using assms(6) ByteSizeLong_length [OF assms(1), of ?h] by (auto simp: SerializeToString_def split: if_splits)
  have p: "ParseFromString_header W hdr = Some (Some ?h)"
    unfolding ParseFromString_header_def hdr(1) using parse_serialized [OF assms(1), of ?h] assms(3,4) h by simp
  have v: "coded_read_varint32 C (rpc_frame C hdr a @ e) = (word_of_nat (length hdr), hdr @ a @ e)" for a e
    using assms(2) by (simp add: coded_ok_def rpc_frame_def)
  have rd: "coded_read_string C (int n) str = (True, take n str, drop n str)" if "n \<le> length str" for n str
    using assms(2) that by (auto simp: coded_ok_def)
  have short: "\<not> fst (coded_read_string C (int n) str)" if "length str < n" for n str
    using assms(2) that by (auto simp: coded_ok_def)
  have r1: "coded_read_string C (sint (word_of_nat (length hdr) :: 32 word)) (hdr @ b) = (True, hdr, b)" for b
    using rd [of "length hdr" "hdr @ b"] sint_small [OF hdr(2)] by simp
  have r2: "coded_read_string C (sint (word_of_nat (length args) :: 32 word)) (args @ extra) = (True, args, extra)"
    using rd [of "length args" "args @ extra"] sint_small [OF assms(5)] by simp
  show "OnMessage W C sm (rpc_frame C hdr args @ extra) cn w =
      (case serve sm svc meth args cn w of (cn', w') \<Rightarrow> Some ([], cn', w'))"
    unfolding OnMessage_def v by (simp add: r1 p h r2 serve_def Let_def split: option.split prod.split)
  assume k: "k < length args"
  have "\<not> fst (coded_read_string C (sint (word_of_nat (length args) :: 32 word)) (take k args))"
    using short [of "take k args" "length args"] sint_small [OF assms(5)] k by simp
  then show "OnMessage W C sm (rpc_frame C hdr (take k args)) cn w = Some ([], cn, w)"
    unfolding OnMessage_def using v [of "take k args" "[]"] by (auto simp: r1 p h Let_def split: prod.split)
qed

lemma serve_registered:
  assumes "sm (sv_name service) = None" "distinct (sv_methods service)" "i < length (sv_methods service)"
    "sv_parse service i args = Some req" "sv_call service i req w = (rsp, w')"
  shows "serve (NotifyService service sm) (sv_name service) (sv_methods service ! i) args cn w =
    (SendRpcResponse (sv_ser service i) rsp cn, w')"
  using assms method_table_nth [OF assms(2,3)] by (simp add: serve_def NotifyService_def emplace_new_def)

text \<open>The provider takes the whole buffer and decodes one request from it: a request that arrived
  whole is served, but every byte that arrived behind it, a second pipelined request say, is dropped
  without an answer; a request of which a part is still on its way is dropped too, nothing is called
  and nothing is kept for the bytes that follow.\<close>

theorem OnMessage_one_request_per_read:
  assumes "wire_ok W" "coded_ok C" "length svc < 2 ^ 31" "length meth < 2 ^ 31" "length args < 2 ^ 31"
    "SerializeToString W (request_header svc meth args) = Some hdr" "k < length args"
  shows "OnMessage W C sm (rpc_frame C hdr args @ extra) cn w =
      (case serve sm svc meth args cn w of (cn', w') \<Rightarrow> Some ([], cn', w')) \<and>
    OnMessage W C sm (rpc_frame C hdr (take k args)) cn w = Some ([], cn, w)"
  by (intro conjI OnMessage_frame(1) [OF assms(1-6)] OnMessage_frame(2) [OF assms(1-6) assms(7)])

subsection \<open>Both sides together\<close>

text \<open>A network with the provider at the other end: every \<open>send\<close> arrives whole, the answer comes back.\<close>

definition rpc_net :: "wire \<Rightarrow> coded \<Rightarrow> ('w, 'req, 'rsp) service_map \<Rightarrow> ('w \<times> conn) net" where
  "rpc_net W C sm = \<lparr>
     n_socket = (\<lambda>x. (True, x)),
     n_connect = (\<lambda>fd ip port (w, cn). (True, (w, \<lparr>sent = [], connected = True, shut = False\<rparr>))),
     n_send = (\<lambda>fd str (w, cn). case OnMessage W C sm str cn w of
        None \<Rightarrow> (True, (w, cn)) | Some (_, cn', w') \<Rightarrow> (True, (w', cn'))),
     n_recv = (\<lambda>fd n (w, cn). case sent cn of
        [] \<Rightarrow> (None, (w, cn))
      | a # rest \<Rightarrow> (Some (take n a), (w, cn\<lparr>sent := (if length a \<le> n then rest else drop n a # rest)\<rparr>))),
     n_close = (\<lambda>fd x. x),
     n_errno = (\<lambda>x. 11)\<rparr>"

text \<open>A call from one side to the other.\<close>

lemma remote_call:
  assumes "wire_ok W" "coded_ok C" "length (sv_name service) < 2 ^ 31" "length (sv_methods service ! i) < 2 ^ 31"
    "length args < 2 ^ 31"
    "SerializeToString W (request_header (sv_name service) (sv_methods service ! i) args) = Some hdr"
    "sm (sv_name service) = None" "distinct (sv_methods service)" "i < length (sv_methods service)"
    "sv_parse service i args = Some req" "sv_call service i req w = (rsp, w')" "sv_ser service i rsp = Some answer"
    "parse (take 1024 answer) = Some r" "m_clientFd c \<noteq> -1" "sent cn = []"
  shows "\<exists>cn'. CallMethod (rpc_net W C (NotifyService service sm)) W C (sv_name service) (sv_methods service ! i)
      (Some args) parse ctl (c, \<lparr>os = (w, cn), open_fds = fds\<rparr>) =
    Some (Inr (Some r, ctl, c, \<lparr>os = (w', cn'), open_fds = fds\<rparr>)) \<and>
    (length answer \<le> 1024 \<longrightarrow> sent cn' = [] \<and> parse answer = Some r)"
proof -
  let ?N = "rpc_net W C (NotifyService service sm)"
  let ?cn1 = "cn\<lparr>sent := [answer]\<rparr>"
  let ?cn2 = "cn\<lparr>sent := (if length answer \<le> 1024 then [] else [drop 1024 answer])\<rparr>"
  have "serve (NotifyService service sm) (sv_name service) (sv_methods service ! i) args cn w = (?cn1, w')"
    using serve_registered [where sm = sm and service = service and i = i and cn = cn, OF assms(7-11)] assms(12,15) by (simp add: SendRpcResponse_def)
  with OnMessage_frame(1) [OF assms(1-6), of "NotifyService service sm" "[]" cn w]
  have om: "OnMessage W C (NotifyService service sm) (rpc_frame C hdr args) cn w = Some ([], ?cn1, w')" by simp
  have send: "send_loop ?N (rpc_frame C hdr args) (c, \<lparr>os = (w, cn), open_fds = fds\<rparr>) =
      Some (Inr (), (c, \<lparr>os = (w', ?cn1), open_fds = fds\<rparr>))"
    by (subst send_loop.simps) (simp add: rpc_net_def om)
  have recv: "recv_reply ?N parse ctl (c, \<lparr>os = (w', ?cn1), open_fds = fds\<rparr>) =
      Inr (Some r, ctl, c, \<lparr>os = (w', ?cn2), open_fds = fds\<rparr>)"
    by (simp add: recv_reply_def rpc_net_def assms(13))
  show ?thesis
    by (rule exI [of _ ?cn2]) (use assms(6,13,14) in \<open>auto simp: CallMethod_def send recv\<close>)
qed


subsection \<open>A service\<close>

text \<open>One method; it counts its calls and answers with the request reversed.\<close>

definition echo :: "(nat, string, string) service" where
  "echo = \<lparr>sv_name = ''Echo'', sv_methods = [''rev''], sv_parse = (\<lambda>i str. Some str),
     sv_call = (\<lambda>i req w. (rev req, Suc w)), sv_ser = (\<lambda>i rsp. Some rsp)\<rparr>"

lemma echo_header:
  "SerializeToString varint_wire (request_header ''Echo'' ''rev'' ''abc'') =
     Some (InternalSerialize varint_wire (request_header ''Echo'' ''rev'' ''abc''))"
  by (simp add: SerializeToString_def ByteSizeLong_def request_header_def SharedCtor_def varint_wire_def put_varint.simps)

theorem OnMessage_one_request_per_read_witness:
  "let f = rpc_frame coded0 (InternalSerialize varint_wire (request_header ''Echo'' ''rev'' ''abc'')) ''abc'';
       cn = \<lparr>sent = [], connected = True, shut = False\<rparr>
   in OnMessage varint_wire coded0 (NotifyService echo Map.empty) (f @ f) cn 0 = Some ([], cn\<lparr>sent := [''cba'']\<rparr>, 1)"
  using OnMessage_one_request_per_read [OF varint_wire_ok coded0_ok _ _ _ echo_header, where k = 0 and
      sm = "NotifyService echo Map.empty" and w = 0 and cn = "\<lparr>sent = [], connected = True, shut = False\<rparr>" and
      extra = "rpc_frame coded0 (InternalSerialize varint_wire (request_header ''Echo'' ''rev'' ''abc'')) ''abc''"]
  by (simp add: Let_def serve_def NotifyService_def emplace_new_def echo_def method_table_def SendRpcResponse_def)


end
