(* ===== verification/SkipHeap.thy ===== *)
theory SkipHeap
  imports Prelude "HOL-Library.Monad_Syntax"
begin

text \<open>
  src/skipList/include/skipList.h, the pointer structure: nodes in a heap of addresses, the walk
  along one level, the descent that fills the \<open>update\<close> array, linking and unlinking of a node,
  and the random level. A result \<open>None\<close> is a run that does not return: it follows a pointer to no
  node, indexes past an array, or loops. The mutex of the list makes insertion and deletion atomic.
\<close>

type_synonym addr = nat

record ('k, 'v) node =
  forward :: "addr option list"
  node_level :: nat
  nkey :: 'k
  nvalue :: 'v

type_synonym ('k, 'v) nheap = "addr \<Rightarrow> ('k, 'v) node option"

definition create_node :: "'k \<Rightarrow> 'v \<Rightarrow> nat \<Rightarrow> ('k, 'v) node" where
  "create_node k v level = \<lparr>forward = replicate (level + 1) None, node_level = level, nkey = k, nvalue = v\<rparr>"

subsection \<open>Reading and writing pointers\<close>

definition fwd :: "('k, 'v) nheap \<Rightarrow> addr \<Rightarrow> nat \<Rightarrow> addr option option" where
  "fwd h a i = do { n \<leftarrow> h a; if i < length (forward n) then Some (forward n ! i) else None }"

definition set_fwd :: "('k, 'v) nheap \<Rightarrow> addr \<Rightarrow> nat \<Rightarrow> addr option \<Rightarrow> ('k, 'v) nheap option" where
  "set_fwd h a i p = do { n \<leftarrow> h a;
     if i < length (forward n) then Some (h(a \<mapsto> n\<lparr>forward := (forward n)[i := p]\<rparr>)) else None }"

text \<open>The local array \<open>update\<close>, null at first.\<close>

definition upd_at :: "addr option list \<Rightarrow> nat \<Rightarrow> addr option" where
  "upd_at u i = (if i < length u then u ! i else None)"

definition upd_put :: "nat \<Rightarrow> addr \<Rightarrow> addr option list \<Rightarrow> addr option list option" where
  "upd_put i a u = (if i < length u then Some (u[i := Some a]) else None)"

primrec fold_opt :: "('a \<Rightarrow> 's \<Rightarrow> 's option) \<Rightarrow> 'a list \<Rightarrow> 's \<Rightarrow> 's option" where
  "fold_opt f [] s = Some s"
| "fold_opt f (x # xs) s = do { t \<leftarrow> f x s; fold_opt f xs t }"

lemma fold_opt_append: "fold_opt f (xs @ ys) s = do { t \<leftarrow> fold_opt f xs s; fold_opt f ys t }"
  by (induction xs arbitrary: s) (simp_all split: Option.bind_split)

subsection \<open>The walk along a level and the descent\<close>

partial_function (option) walk ::
  "('k::linorder, 'v) nheap \<Rightarrow> 'k \<Rightarrow> nat \<Rightarrow> addr \<Rightarrow> addr option" where
  "walk h k i current = do {
     f \<leftarrow> fwd h current i;
     case f of None \<Rightarrow> Some current
     | Some b \<Rightarrow> do { n \<leftarrow> h b; if nkey n < k then walk h k i b else Some current } }"

primrec descend ::
  "('k::linorder, 'v) nheap \<Rightarrow> 'k \<Rightarrow> nat \<Rightarrow> addr \<Rightarrow> addr option list \<Rightarrow> (addr \<times> addr option list) option"
where
  "descend h k 0 current u = do { c \<leftarrow> walk h k 0 current; u' \<leftarrow> upd_put 0 c u; Some (c, u') }"
| "descend h k (Suc i) current u = do {
     c \<leftarrow> walk h k (Suc i) current; u' \<leftarrow> upd_put (Suc i) c u; descend h k i c u' }"

text \<open>The descent of \<open>search_element\<close>, without the array.\<close>

primrec search_down :: "('k::linorder, 'v) nheap \<Rightarrow> 'k \<Rightarrow> nat \<Rightarrow> addr \<Rightarrow> addr option" where
  "search_down h k 0 current = walk h k 0 current"
| "search_down h k (Suc i) current = do { c \<leftarrow> walk h k (Suc i) current; search_down h k i c }"

subsection \<open>Linking, unlinking, shrinking\<close>

definition link_step :: "addr option list \<Rightarrow> addr \<Rightarrow> nat \<Rightarrow> ('k, 'v) nheap \<Rightarrow> ('k, 'v) nheap option" where
  "link_step u n i h = do {
     a \<leftarrow> upd_at u i; f \<leftarrow> fwd h a i; h1 \<leftarrow> set_fwd h n i f; set_fwd h1 a i (Some n) }"

definition link_node :: "addr option list \<Rightarrow> addr \<Rightarrow> nat \<Rightarrow> ('k, 'v) nheap \<Rightarrow> ('k, 'v) nheap option" where
  "link_node u n level h = fold_opt (link_step u n) [0..<Suc level] h"

text \<open>The loop of \<open>delete_element\<close> over the levels, with its \<open>break\<close>.\<close>

fun unlink_node :: "addr option list \<Rightarrow> addr \<Rightarrow> nat list \<Rightarrow> ('k, 'v) nheap \<Rightarrow> ('k, 'v) nheap option" where
  "unlink_node u c [] h = Some h"
| "unlink_node u c (i # is) h = do {
     a \<leftarrow> upd_at u i; f \<leftarrow> fwd h a i;
     if f \<noteq> Some c then Some h
     else do { g \<leftarrow> fwd h c i; h1 \<leftarrow> set_fwd h a i g; unlink_node u c is h1 } }"

primrec shrink_level :: "('k, 'v) nheap \<Rightarrow> addr \<Rightarrow> nat \<Rightarrow> nat option" where
  "shrink_level h hdr 0 = Some 0"
| "shrink_level h hdr (Suc l) = do {
     f \<leftarrow> fwd h hdr (Suc l); if f = None then shrink_level h hdr l else Some (Suc l) }"

subsection \<open>The random level\<close>

text \<open>\<open>rnd\<close> is the sequence of the results of \<open>rand()\<close>; the position of the next call is state.\<close>

partial_function (option) random_run :: "(nat \<Rightarrow> nat) \<Rightarrow> nat \<Rightarrow> nat \<Rightarrow> (nat \<times> nat) option" where
  "random_run rnd p k =
     (if rnd p mod 2 \<noteq> 0 then random_run rnd (Suc p) (k + 1) else Some (k, Suc p))"

definition get_random_level :: "(nat \<Rightarrow> nat) \<Rightarrow> nat \<Rightarrow> nat \<Rightarrow> (nat \<times> nat) option" where
  "get_random_level rnd max_level p = do {
     (k, q) \<leftarrow> random_run rnd p 1; Some (if k < max_level then k else max_level, q) }"

definition fair :: "(nat \<Rightarrow> nat) \<Rightarrow> bool" where
  "fair rnd \<longleftrightarrow> (\<forall>p. \<exists>q \<ge> p. even (rnd q))"

lemma random_run_even: "even (rnd p) \<Longrightarrow> random_run rnd p k = Some (k, Suc p)"
  by (subst random_run.simps) simp

lemma random_run_odd: "odd (rnd p) \<Longrightarrow> random_run rnd p k = random_run rnd (Suc p) (k + 1)"
  by (subst random_run.simps) (simp add: odd_iff_mod_2_eq_one)

lemma random_run_total:
  assumes "even (rnd q)" "p \<le> q"
  shows "\<exists>k' q'. random_run rnd p k = Some (k', q')"
  using assms(2)
proof (induction "q - p" arbitrary: p k)
  case 0
  then have "p = q" by simp
  then show ?case using assms(1) by (simp add: random_run_even)
next
  case (Suc d)
  show ?case
  proof (cases "even (rnd p)")
    case True
    then show ?thesis by (simp add: random_run_even)
  next
    case False
    with assms(1) Suc.prems have "p < q" by (cases "p = q") auto
    with Suc.hyps have "d = q - Suc p" "Suc p \<le> q" by simp_all
    from Suc.hyps(1) [OF this] False show ?thesis by (simp add: random_run_odd)
  qed
qed

lemma get_random_level_total:
  "fair rnd \<Longrightarrow> \<exists>l q. get_random_level rnd m p = Some (l, q) \<and> l \<le> m"
  using random_run_total [of rnd _ p 1] unfolding fair_def get_random_level_def by fastforce

subsection \<open>The shape of the list\<close>

definition level_of :: "('k, 'v) nheap \<Rightarrow> addr \<Rightarrow> nat" where
  "level_of h a = (case h a of None \<Rightarrow> 0 | Some n \<Rightarrow> node_level n)"

definition key_of :: "('k, 'v) nheap \<Rightarrow> addr \<Rightarrow> 'k" where
  "key_of h a = nkey (the (h a))"

definition value_of :: "('k, 'v) nheap \<Rightarrow> addr \<Rightarrow> 'v" where
  "value_of h a = nvalue (the (h a))"

text \<open>The next node of a level: the first one of the rest of the list that is high enough.\<close>

definition nxt :: "('k, 'v) nheap \<Rightarrow> nat \<Rightarrow> addr list \<Rightarrow> addr option" where
  "nxt h i xs = find (\<lambda>b. i \<le> level_of h b) xs"

definition node_ok :: "('k, 'v) nheap \<Rightarrow> addr \<Rightarrow> addr list \<Rightarrow> bool" where
  "node_ok h a xs \<longleftrightarrow> (\<exists>n. h a = Some n \<and> length (forward n) = Suc (node_level n) \<and>
     (\<forall>i \<le> node_level n. forward n ! i = nxt h i xs))"

fun chain :: "('k, 'v) nheap \<Rightarrow> addr \<Rightarrow> addr list \<Rightarrow> bool" where
  "chain h a [] = node_ok h a []"
| "chain h a (b # xs) = (node_ok h a (b # xs) \<and> chain h b xs)"

lemma chain_node_ok: "chain h a xs \<Longrightarrow> node_ok h a xs"
  by (cases xs) simp_all

lemma chain_append: "chain h a (us @ b # ws) \<longleftrightarrow>
    (\<forall>vs c ts. a # us = vs @ c # ts \<longrightarrow> node_ok h c (ts @ b # ws)) \<and> chain h b ws"
proof (induction us arbitrary: a)
  case Nil
  then show ?case by (auto simp: Cons_eq_append_conv)
next
  case (Cons x us)
  then show ?case by (auto simp: Cons_eq_append_conv all_conj_distrib)
qed

lemma fwd_node_ok: "node_ok h a xs \<Longrightarrow> i \<le> level_of h a \<Longrightarrow> fwd h a i = Some (nxt h i xs)"
  by (auto simp: node_ok_def fwd_def level_of_def)

lemma chain_head: "chain h a xs \<Longrightarrow> \<exists>n. h a = Some n"
  by (drule chain_node_ok) (auto simp: node_ok_def)

lemma chain_heap: "chain h a xs \<Longrightarrow> x \<in> set xs \<Longrightarrow> \<exists>n. h x = Some n"
  by (induction h a xs rule: chain.induct) (auto dest: chain_head)

lemma nxt_Some_split:
  assumes "nxt h i xs = Some b"
  obtains us ws where "xs = us @ b # ws" "\<forall>u \<in> set us. level_of h u < i" "i \<le> level_of h b"
  using assms unfolding nxt_def find_Some_iff
  by (metis id_take_nth_drop in_set_conv_nth leI length_take min_less_iff_conj nth_take)

lemma nxt_None: "nxt h i xs = None \<longleftrightarrow> (\<forall>u \<in> set xs. level_of h u < i)"
  by (auto simp: nxt_def find_None_iff not_le)

lemma nxt_append: "nxt h i (us @ ws) = (case nxt h i us of None \<Rightarrow> nxt h i ws | Some b \<Rightarrow> Some b)"
  by (induction us) (simp_all add: nxt_def)

subsection \<open>What the walk finds\<close>

definition ascending :: "('k::linorder, 'v) nheap \<Rightarrow> addr list \<Rightarrow> bool" where
  "ascending h xs \<longleftrightarrow> sorted_wrt (\<lambda>a b. key_of h a < key_of h b) xs"

definition below :: "('k::linorder, 'v) nheap \<Rightarrow> 'k \<Rightarrow> addr list \<Rightarrow> addr list" where
  "below h k xs = takeWhile (\<lambda>b. key_of h b < k) xs"

definition pred_at :: "('k::linorder, 'v) nheap \<Rightarrow> 'k \<Rightarrow> addr \<Rightarrow> addr list \<Rightarrow> nat \<Rightarrow> addr" where
  "pred_at h k a xs i = last (a # filter (\<lambda>b. i \<le> level_of h b) (below h k xs))"

lemma ascending_Cons: "ascending h (a # xs) \<longleftrightarrow> (\<forall>b \<in> set xs. key_of h a < key_of h b) \<and> ascending h xs"
  by (simp add: ascending_def)

lemma ascending_append: "ascending h (xs @ ys) \<longleftrightarrow>
    ascending h xs \<and> ascending h ys \<and> (\<forall>a \<in> set xs. \<forall>b \<in> set ys. key_of h a < key_of h b)"
  by (auto simp: ascending_def sorted_wrt_append)

lemma below_append: "\<forall>u \<in> set us. key_of h u < k \<Longrightarrow> below h k (us @ ws) = us @ below h k ws"
  by (simp add: below_def)

lemma below_dropWhile: "below h k (dropWhile (\<lambda>b. key_of h b < k) xs) = []"
  unfolding below_def by (induction xs) auto

lemma below_split:
  fixes h :: "('k::linorder, 'v) nheap"
  obtains zs where "xs = below h k xs @ zs" "below h k zs = []" "\<forall>u \<in> set (below h k xs). key_of h u < k"
proof
  show "xs = below h k xs @ dropWhile (\<lambda>b. key_of h b < k) xs" by (simp add: below_def)
  show "below h k (dropWhile (\<lambda>b. key_of h b < k) xs) = []" by (rule below_dropWhile)
  show "\<forall>u \<in> set (below h k xs). key_of h u < k" by (auto simp: below_def dest: set_takeWhileD)
qed

lemma walk_unfold:
  assumes "node_ok h a xs" "i \<le> level_of h a"
  shows "walk h k i a = (case nxt h i xs of None \<Rightarrow> Some a | Some b \<Rightarrow>
           do { n \<leftarrow> h b; if nkey n < k then walk h k i b else Some a })"
  using fwd_node_ok [OF assms] by (subst walk.simps) simp

lemma walk_spec:
  assumes "chain h a xs" "i \<le> level_of h a" "ascending h xs"
  shows "walk h k i a = Some (pred_at h k a xs i)"
  using assms
proof (induction "length xs" arbitrary: a xs rule: less_induct)
  case less
  note ok = chain_node_ok [OF less.prems(1)]
  show ?case
  proof (cases "nxt h i xs")
    case None
    then have "\<forall>u \<in> set xs. level_of h u < i" by (simp add: nxt_None)
    then have "filter (\<lambda>b. i \<le> level_of h b) (below h k xs) = []"
      by (auto simp: filter_empty_conv below_def not_le dest: set_takeWhileD)
    with None walk_unfold [OF ok less.prems(2)] show ?thesis by (simp add: pred_at_def)
  next
    case (Some b)
    then obtain us ws where xs: "xs = us @ b # ws" and low: "\<forall>u \<in> set us. level_of h u < i"
      and b: "i \<le> level_of h b" by (rule nxt_Some_split)
    have cb: "chain h b ws" using less.prems(1) by (simp add: xs chain_append)
    then obtain n where n: "h b = Some n" using chain_head by blast
    then have key: "key_of h b = nkey n" by (simp add: key_of_def)
    have none: "filter (\<lambda>b. i \<le> level_of h b) us = []" using low by (auto simp: filter_empty_conv)
    show ?thesis
    proof (cases "nkey n < k")
      case True
      have asc: "ascending h ws" "\<forall>u \<in> set us. key_of h u < k"
        using less.prems(3) True key by (auto simp: xs ascending_append ascending_Cons)
      have "below h k xs = us @ b # below h k ws"
        using below_append [of us h k "b # ws"] asc(2) True key by (simp add: xs below_def)
      then have "pred_at h k a xs i = pred_at h k b ws i"
        using none b by (simp add: pred_at_def)
      moreover have "walk h k i b = Some (pred_at h k b ws i)"
        by (rule less.hyps) (use xs cb b asc in simp_all)
      ultimately show ?thesis using walk_unfold [OF ok less.prems(2), of k] Some n True by simp
    next
      case False
      then have "below h k (b # ws) = []" by (simp add: below_def key)
      moreover have "filter (\<lambda>b. i \<le> level_of h b) (below h k (us @ zs)) = []"
        if "below h k zs = []" for zs
      proof -
        have "set (below h k (us @ zs)) \<subseteq> set us"
        proof (cases "\<forall>u \<in> set us. key_of h u < k")
          case True
          with that show ?thesis by (simp add: below_append)
        next
          case False
          then obtain u where "u \<in> set us" "\<not> key_of h u < k" by blast
          then have "below h k (us @ zs) = below h k us"
            unfolding below_def by (rule takeWhile_append1)
          then show ?thesis by (auto simp: below_def dest: set_takeWhileD)
        qed
        with low show ?thesis by (auto simp: filter_empty_conv not_le)
      qed
      ultimately have "pred_at h k a xs i = a" by (simp add: pred_at_def xs)
      then show ?thesis using walk_unfold [OF ok less.prems(2), of k] Some n False by simp
    qed
  qed
qed

text \<open>A walk that continues from the node another level stopped at.\<close>

lemma walk_from_pred:
  assumes "chain h a xs" "j \<le> level_of h a" "ascending h xs" "i \<le> j"
  shows "walk h k i (pred_at h k a xs j) = Some (pred_at h k a xs i)"
proof -
  let ?hi = "\<lambda>j. filter (\<lambda>b. j \<le> level_of h b)"
  obtain zs where zs: "xs = below h k xs @ zs" "below h k zs = []"
    "\<forall>u \<in> set (below h k xs). key_of h u < k" by (rule below_split)
  show ?thesis
  proof (cases "?hi j (below h k xs) = []")
    case True
    then have "pred_at h k a xs j = a" by (simp add: pred_at_def)
    with walk_spec assms show ?thesis by (metis le_trans)
  next
    case False
    then obtain b where b_def: "b = last (?hi j (below h k xs))" by blast
    have "b \<in> set (?hi j (below h k xs))" unfolding b_def using False by (rule last_in_set)
    then have b: "j \<le> level_of h b" "b \<in> set (below h k xs)" by simp_all
    from b(2) obtain us ws where s: "below h k xs = us @ b # ws" by (meson split_list)
    have xs: "xs = us @ b # (ws @ zs)" using zs(1) unfolding s by simp
    have cb: "chain h b (ws @ zs)" using assms(1) unfolding xs chain_append by blast
    have asc: "ascending h (ws @ zs)"
      using assms(3) unfolding xs by (simp add: ascending_append ascending_Cons)
    have "\<forall>u \<in> set ws. key_of h u < k" using zs(3) by (simp add: s)
    then have bw: "below h k (ws @ zs) = ws" using below_append zs(2) by fastforce
    have "walk h k i b = Some (pred_at h k b (ws @ zs) i)"
      by (rule walk_spec [OF cb _ asc]) (use b assms(4) in simp)
    moreover have "pred_at h k b (ws @ zs) i = last (b # ?hi i ws)" by (simp add: pred_at_def bw)
    moreover have "pred_at h k a xs i = last (b # ?hi i ws)"
      using b(1) assms(4) by (simp add: pred_at_def s)
    moreover have "pred_at h k a xs j = b" using False by (simp add: pred_at_def b_def)
    ultimately show ?thesis by simp
  qed
qed

subsection \<open>The descent fills the array with the predecessors\<close>

lemma descend_from:
  assumes "chain h hdr xs" "ascending h xs" "i \<le> level_of h hdr" "i < length u"
    and "\<And>m. m \<le> i \<Longrightarrow> walk h k m c = Some (pred_at h k hdr xs m)"
  shows "\<exists>u'. descend h k i c u = Some (pred_at h k hdr xs 0, u') \<and> length u' = length u \<and>
    (\<forall>m \<le> i. u' ! m = Some (pred_at h k hdr xs m)) \<and> (\<forall>m > i. u' ! m = u ! m)"
  using assms(3-)
proof (induction i arbitrary: c u)
  case 0
  then show ?case by (simp add: upd_put_def)
next
  case (Suc i)
  let ?p = "pred_at h k hdr xs"
  let ?u = "u[Suc i := Some (?p (Suc i))]"
  have w: "walk h k m (?p (Suc i)) = Some (?p m)" if "m \<le> i" for m
    by (rule walk_from_pred [OF assms(1) _ assms(2)]) (use Suc.prems(1) that in simp_all)
  from Suc.IH [OF _ _ w, of ?u] Suc.prems obtain u' where u': "descend h k i (?p (Suc i)) ?u = Some (?p 0, u')"
    "length u' = length u" "\<forall>m \<le> i. u' ! m = Some (?p m)" "\<forall>m > i. u' ! m = ?u ! m"
    by auto
  have "descend h k (Suc i) c u = Some (?p 0, u')"
    using Suc.prems u'(1) by (simp add: upd_put_def)
  moreover have "u' ! m = Some (?p m)" if "m \<le> Suc i" for m
    using u'(3,4) that Suc.prems(2) by (cases "m = Suc i") simp_all
  moreover have "u' ! m = u ! m" if "m > Suc i" for m using u'(4) that by simp
  ultimately show ?case using u'(2) by blast
qed

lemma descend_spec:
  assumes "chain h hdr xs" "ascending h xs" "i \<le> level_of h hdr" "i < length u"
  shows "\<exists>u'. descend h k i hdr u = Some (pred_at h k hdr xs 0, u') \<and> length u' = length u \<and>
    (\<forall>m \<le> i. u' ! m = Some (pred_at h k hdr xs m)) \<and> (\<forall>m > i. u' ! m = u ! m)"
  by (rule descend_from [OF assms]) (rule walk_spec [OF assms(1) _ assms(2)], use assms(3) in simp)

lemma search_down_spec:
  assumes "chain h hdr xs" "ascending h xs" "i \<le> level_of h hdr"
  shows "search_down h k i hdr = Some (pred_at h k hdr xs 0)"
proof -
  have "search_down h k i c = Some (pred_at h k hdr xs 0)"
    if "\<And>m. m \<le> i \<Longrightarrow> walk h k m c = Some (pred_at h k hdr xs m)" "i \<le> level_of h hdr" for c
    using that
  proof (induction i arbitrary: c)
    case (Suc i)
    have "walk h k m (pred_at h k hdr xs (Suc i)) = Some (pred_at h k hdr xs m)" if "m \<le> i" for m
      by (rule walk_from_pred [OF assms(1) _ assms(2)]) (use Suc.prems(2) that in simp_all)
    with Suc.IH Suc.prems show ?case by simp
  qed simp
  then show ?thesis using walk_spec [OF assms(1) _ assms(2)] assms(3) by simp
qed

text \<open>Where the predecessor of a level is, and what it points to.\<close>

lemma pred_at_split:
  assumes "i \<le> level_of h a"
  obtains vs ts where "a # below h k xs = vs @ pred_at h k a xs i # ts" "\<forall>u \<in> set ts. level_of h u < i"
    "i \<le> level_of h (pred_at h k a xs i)"
proof -
  let ?l = "a # below h k xs"
  have l: "filter (\<lambda>b. i \<le> level_of h b) ?l \<noteq> []" "pred_at h k a xs i = last (filter (\<lambda>b. i \<le> level_of h b) ?l)"
    using assms by (simp_all add: pred_at_def)
  have "\<exists>vs ts. ?l = vs @ last (filter P ?l) # ts \<and> (\<forall>u \<in> set ts. \<not> P u) \<and> P (last (filter P ?l))"
    if "filter P ?l \<noteq> []" for P
  proof -
    from that have "\<exists>x \<in> set ?l. P x" by (metis filter_False)
    from split_list_last_prop [OF this] obtain vs x ts where
      s: "?l = vs @ x # ts" "P x" "\<forall>u \<in> set ts. \<not> P u" by blast
    then have "filter P ts = []" by (simp add: filter_empty_conv)
    then have "last (filter P ?l) = x" unfolding s(1) using s(2) by simp
    with s show ?thesis by blast
  qed
  from this [OF l(1)] l(2) that show ?thesis by (auto simp: not_le)
qed

lemma chain_iff: "chain h a xs \<longleftrightarrow> (\<forall>vs c ts. a # xs = vs @ c # ts \<longrightarrow> node_ok h c ts)"
proof (induction xs arbitrary: a)
  case Nil
  then show ?case by (auto simp: Cons_eq_append_conv)
next
  case (Cons b xs)
  then show ?case by (auto simp: Cons_eq_append_conv all_conj_distrib)
qed

lemma fwd_pred:
  assumes "chain h a xs" "i \<le> level_of h a" "xs = below h k xs @ zs"
  shows "fwd h (pred_at h k a xs i) i = Some (nxt h i zs)"
proof -
  from assms(2) obtain vs ts where s: "a # below h k xs = vs @ pred_at h k a xs i # ts"
    "\<forall>u \<in> set ts. level_of h u < i" "i \<le> level_of h (pred_at h k a xs i)" by (rule pred_at_split)
  have "a # xs = vs @ pred_at h k a xs i # (ts @ zs)"
    using s(1) assms(3) by (metis append.assoc append_Cons)
  with assms(1) have "node_ok h (pred_at h k a xs i) (ts @ zs)" unfolding chain_iff by blast
  then have "fwd h (pred_at h k a xs i) i = Some (nxt h i (ts @ zs))" using s(3) by (rule fwd_node_ok)
  moreover have "nxt h i ts = None" using s(2) by (simp add: nxt_None)
  ultimately show ?thesis by (simp add: nxt_append)
qed

lemma pred_at_mem: "i \<le> level_of h a \<Longrightarrow> pred_at h k a xs i \<in> set (a # below h k xs)"
  by (erule pred_at_split [of i h a k xs]) (metis in_set_conv_decomp)

text \<open>A node of the front part is the predecessor at a level exactly when no later one is high
  enough.\<close>

lemma pred_at_iff:
  assumes "distinct (a # xs)" "a # below h k xs = vs @ c # ts" "i \<le> level_of h c"
  shows "pred_at h k a xs i = c \<longleftrightarrow> nxt h i ts = None"
proof -
  let ?P = "\<lambda>b. i \<le> level_of h b"
  have d: "distinct (vs @ c # ts)"
    using assms(1) unfolding assms(2) [symmetric] below_def by (auto dest: set_takeWhileD)
  have last: "pred_at h k a xs i = last (c # filter ?P ts)"
  proof (cases vs)
    case Nil
    with assms(2) show ?thesis by (simp add: pred_at_def)
  next
    case (Cons v vs')
    with assms(2) have "below h k xs = vs' @ c # ts" by simp
    then show ?thesis using assms(3) by (simp add: pred_at_def)
  qed
  show ?thesis
  proof (cases "filter ?P ts = []")
    case True
    with last show ?thesis by (auto simp: nxt_None filter_empty_conv not_le)
  next
    case False
    then have "last (filter ?P ts) \<in> set (filter ?P ts)" by (rule last_in_set)
    then have "last (filter ?P ts) \<in> set ts" by simp
    with d False last show ?thesis
      by (auto simp: nxt_None filter_empty_conv not_le)
  qed
qed

subsection \<open>The heap after linking\<close>

definition linked :: "('k, 'v) nheap \<Rightarrow> addr \<Rightarrow> (nat \<Rightarrow> addr) \<Rightarrow> nat \<Rightarrow> ('k, 'v) nheap" where
  "linked h n p j = (\<lambda>a. map_option (\<lambda>m. m\<lparr>forward := map (\<lambda>i.
     if i < j \<and> a = n then the (fwd h (p i) i)
     else if i < j \<and> p i = a then Some n else forward m ! i) [0..<length (forward m)]\<rparr>) (h a))"

definition has_slot :: "('k, 'v) nheap \<Rightarrow> addr \<Rightarrow> nat \<Rightarrow> bool" where
  "has_slot h a i \<longleftrightarrow> (\<exists>m. h a = Some m \<and> i < length (forward m))"

lemma linked_0: "linked h n p 0 = h"
  by (rule ext) (simp add: linked_def map_nth option.map_ident)

lemma level_of_linked [simp]: "level_of (linked h n p j) a = level_of h a"
  by (simp add: level_of_def linked_def split: option.split)

lemma key_of_linked: "h a = Some m \<Longrightarrow> key_of (linked h n p j) a = key_of h a"
  "h a = Some m \<Longrightarrow> value_of (linked h n p j) a = value_of h a"
  by (simp_all add: key_of_def value_of_def linked_def)

lemma nxt_linked [simp]: "nxt (linked h n p j) = nxt h"
  by (simp add: fun_eq_iff nxt_def)

lemma fwd_linked:
  assumes "has_slot h a i" "a \<noteq> n"
  shows "fwd (linked h n p j) a i = (if i < j \<and> p i = a then Some (Some n) else fwd h a i)"
  using assms by (auto simp: has_slot_def fwd_def linked_def)

lemma linked_Suc:
  assumes n: "has_slot h n j" and pj: "has_slot h (p j) j" "p j \<noteq> n" and u: "upd_at u j = Some (p j)"
  shows "link_step u n j (linked h n p j) = Some (linked h n p (Suc j))"
proof -
  let ?h = "linked h n p j"
  obtain m where m: "h (p j) = Some m" "j < length (forward m)" using pj(1) by (auto simp: has_slot_def)
  obtain nd where nd: "h n = Some nd" "j < length (forward nd)" using n by (auto simp: has_slot_def)
  have f: "fwd ?h (p j) j = Some (forward m ! j)" "fwd h (p j) j = Some (forward m ! j)"
    using fwd_linked [OF pj, of p j] m by (simp_all add: fwd_def)
  let ?upd = "\<lambda>(x :: ('a, 'b) node) v. x\<lparr>forward := (forward x)[j := v]\<rparr>"
  obtain n1 where n1: "?h n = Some n1" "j < length (forward n1)" using nd by (simp add: linked_def)
  obtain p1 where p1: "?h (p j) = Some p1" "j < length (forward p1)" using m by (simp add: linked_def)
  have "link_step u n j ?h =
      Some ((?h(n \<mapsto> ?upd n1 (forward m ! j)))(p j \<mapsto> ?upd p1 (Some n)))"
    using u f(1) n1 p1 pj(2) by (simp add: link_step_def set_fwd_def)
  moreover have "(?h(n \<mapsto> ?upd n1 (forward m ! j)))(p j \<mapsto> ?upd p1 (Some n)) = linked h n p (Suc j)"
  proof (rule ext)
    fix a
    consider "a = p j" | "a = n" "a \<noteq> p j" | "a \<noteq> p j" "a \<noteq> n" by blast
    then show "((?h(n \<mapsto> ?upd n1 (forward m ! j)))(p j \<mapsto> ?upd p1 (Some n))) a = linked h n p (Suc j) a"
    proof cases
      case 1
      then show ?thesis using pj(2) p1 m
        by (auto simp: linked_def less_Suc_eq nth_list_update intro!: node.equality nth_equalityI)
    next
      case 2
      then show ?thesis using n1 nd f(2)
        by (auto simp: linked_def less_Suc_eq nth_list_update intro!: node.equality nth_equalityI)
    next
      case 3
      then show ?thesis
        by (cases "h a") (auto simp: linked_def less_Suc_eq intro!: node.equality)
    qed
  qed
  ultimately show ?thesis by simp
qed

lemma link_node_linked:
  assumes "\<And>i. i \<le> l \<Longrightarrow> has_slot h n i \<and> has_slot h (p i) i \<and> p i \<noteq> n \<and> upd_at u i = Some (p i)"
  shows "link_node u n l h = Some (linked h n p (Suc l))"
proof -
  have "fold_opt (link_step u n) [0..<j] h = Some (linked h n p j)" if "j \<le> Suc l" for j
    using that
  proof (induction j)
    case 0
    show ?case by (simp add: linked_0)
  next
    case (Suc j)
    then have "link_step u n j (linked h n p j) = Some (linked h n p (Suc j))"
      using assms [of j] by (intro linked_Suc) simp_all
    with Suc show ?case by (simp add: fold_opt_append)
  qed
  then show ?thesis by (simp add: link_node_def del: upt_Suc)
qed

lemma node_ok_linkedI:
  assumes "h c = Some m" "length (forward m) = Suc (node_level m)"
    "\<And>i. i \<le> node_level m \<Longrightarrow>
      (if i < j \<and> c = n then the (fwd h (p i) i) else if i < j \<and> p i = c then Some n else forward m ! i) = nxt h i ts"
  shows "node_ok (linked h n p j) c ts"
proof -
  let ?f = "\<lambda>i. if i < j \<and> c = n then the (fwd h (p i) i)
     else if i < j \<and> p i = c then Some n else forward m ! i"
  have "linked h n p j c = Some (m\<lparr>forward := map ?f [0..<length (forward m)]\<rparr>)"
    by (simp add: linked_def assms(1))
  moreover have "map ?f [0..<length (forward m)] ! i = nxt h i ts" if "i \<le> node_level m" for i
  proof -
    have "map ?f [0..<length (forward m)] ! i = ?f i" using assms(2) that by (simp del: upt_Suc)
    also have "\<dots> = nxt h i ts" using that by (rule assms(3))
    finally show ?thesis .
  qed
  ultimately show ?thesis using assms(2) by (simp add: node_ok_def del: upt_Suc)
qed

lemma node_ok_linked_other:
  assumes "node_ok h c ts" "c \<noteq> n" "\<And>i. i < j \<Longrightarrow> p i \<noteq> c"
  shows "node_ok (linked h n p j) c ts"
proof -
  from assms(1) obtain m where m: "h c = Some m" "length (forward m) = Suc (node_level m)"
    "\<forall>i \<le> node_level m. forward m ! i = nxt h i ts" by (auto simp: node_ok_def)
  show ?thesis by (rule node_ok_linkedI, rule m(1), rule m(2)) (use m(3) assms(2,3) in auto)
qed

lemma chain_linked:
  assumes ch: "chain h hdr xs" and d: "distinct (hdr # xs)" and n: "n \<notin> set (hdr # xs)" "h n = Some nd"
    "length (forward nd) = Suc (node_level nd)" "node_level nd \<le> level_of h hdr"
    and xs: "xs = below h k xs @ zs"
  shows "chain (linked h n (pred_at h k hdr xs) (Suc (node_level nd))) hdr (below h k xs @ n # zs)"
proof -
  let ?l = "node_level nd" and ?p = "pred_at h k hdr xs" and ?ys = "below h k xs"
  let ?h = "linked h n ?p (Suc ?l)"
  have lvl: "level_of h n = ?l" using n(2) by (simp add: level_of_def)
  have pm: "?p i \<in> set (hdr # ?ys)" if "i \<le> ?l" for i using pred_at_mem that n(4) by (metis le_trans)
  have sub: "set (hdr # ?ys) \<subseteq> set (hdr # xs)" by (auto simp: below_def dest: set_takeWhileD)
  have dz: "set (hdr # ?ys) \<inter> set zs = {}"
  proof -
    have "distinct ((hdr # ?ys) @ zs)" using d xs by (metis append_Cons)
    then show ?thesis by (simp only: distinct_append)
  qed
  show ?thesis unfolding chain_iff
  proof (intro allI impI)
    fix vs c ts assume e: "hdr # ?ys @ n # zs = vs @ c # ts"
    then have e': "(hdr # ?ys) @ n # zs = vs @ c # ts" by simp
    consider (front) us where "hdr # ?ys = vs @ c # us" "ts = us @ n # zs" | (new) "c = n" "ts = zs"
      | (later) us where "n # zs = us @ c # ts" "us \<noteq> []"
    proof -
      from e' consider us where "hdr # ?ys = vs @ us" "us @ n # zs = c # ts"
        | us where "(hdr # ?ys) @ us = vs" "n # zs = us @ c # ts"
        unfolding append_eq_append_conv2 by blast
      then show thesis
      proof cases
        case (1 us)
        then show ?thesis using that(1) [of "tl us"] that(2) by (cases us) auto
      next
        case (2 us)
        then show ?thesis using that(2) that(3) [of us] by (cases us) auto
      qed
    qed
    then show "node_ok ?h c ts"
    proof cases
      case front
      have "hdr # xs = vs @ c # (us @ zs)" using front(1) xs by (metis append.assoc append_Cons)
      then have ok: "node_ok h c (us @ zs)" using ch unfolding chain_iff by blast
      have cn: "c \<noteq> n" using front(1) sub n(1) by auto
      from ok obtain m where m: "h c = Some m" "length (forward m) = Suc (node_level m)"
        "\<forall>i \<le> node_level m. forward m ! i = nxt h i (us @ zs)" by (auto simp: node_ok_def)
      have piff: "?p i = c \<longleftrightarrow> nxt h i us = None" if "i \<le> node_level m" for i
        by (rule pred_at_iff [OF d front(1)]) (use that m in \<open>simp add: level_of_def\<close>)
      have "(if i \<le> ?l \<and> ?p i = c then Some n else forward m ! i) = nxt h i ts" if "i \<le> node_level m" for i
        using piff [OF that] m(3) that lvl
        by (auto simp: front(2) nxt_append split: option.splits) (simp_all add: nxt_def)
      with cn show ?thesis
        by (intro node_ok_linkedI [where h = h and m = m] m(1,2)) (simp add: less_Suc_eq_le)
    next
      case new
      have "fwd h (?p i) i = Some (nxt h i zs)" if "i \<le> ?l" for i
        by (rule fwd_pred [OF ch _ xs]) (use that n(4) in simp)
      then show ?thesis using n(2,3) unfolding new
        by (intro node_ok_linkedI) (auto simp: less_Suc_eq_le)
    next
      case (later us)
      then have z: "zs = tl us @ c # ts" by (cases us) auto
      have "hdr # xs = (hdr # ?ys @ tl us) @ c # ts" using xs z by (metis append.assoc append_Cons)
      then have ok: "node_ok h c ts" using ch unfolding chain_iff by blast
      have "c \<in> set zs" by (simp add: z)
      then have "c \<noteq> n" "i < Suc ?l \<Longrightarrow> ?p i \<noteq> c" for i
        using n(1) dz pm [of i] xs by (auto, metis UnCI set_append)
      then show ?thesis by (intro node_ok_linked_other [OF ok]) auto
    qed
  qed
qed

subsection \<open>The heap after unlinking\<close>

definition unlinked :: "('k, 'v) nheap \<Rightarrow> addr \<Rightarrow> (nat \<Rightarrow> addr) \<Rightarrow> nat \<Rightarrow> ('k, 'v) nheap" where
  "unlinked h c p j = (\<lambda>a. map_option (\<lambda>m. m\<lparr>forward := map (\<lambda>i.
     if i < j \<and> a \<noteq> c \<and> p i = a then the (fwd h c i) else forward m ! i) [0..<length (forward m)]\<rparr>) (h a))"

lemma unlinked_0: "unlinked h c p 0 = h"
  by (rule ext) (simp add: unlinked_def map_nth option.map_ident)

lemma level_of_unlinked [simp]: "level_of (unlinked h c p j) a = level_of h a"
  by (simp add: level_of_def unlinked_def split: option.split)

lemma key_of_unlinked: "h a = Some m \<Longrightarrow> key_of (unlinked h c p j) a = key_of h a"
  "h a = Some m \<Longrightarrow> value_of (unlinked h c p j) a = value_of h a"
  by (simp_all add: key_of_def value_of_def unlinked_def)

lemma nxt_unlinked [simp]: "nxt (unlinked h c p j) = nxt h"
  by (simp add: fun_eq_iff nxt_def)

lemma fwd_unlinked:
  assumes "has_slot h a i"
  shows "fwd (unlinked h c p j) a i = (if i < j \<and> a \<noteq> c \<and> p i = a then Some (the (fwd h c i)) else fwd h a i)"
  using assms by (auto simp: has_slot_def fwd_def unlinked_def)

lemma unlinked_Suc:
  assumes c: "has_slot h c j" and pj: "has_slot h (p j) j" "p j \<noteq> c"
  shows "fwd (unlinked h c p j) c j = Some (the (fwd h c j)) \<and>
    set_fwd (unlinked h c p j) (p j) j (the (fwd h c j)) = Some (unlinked h c p (Suc j))"
proof -
  let ?h = "unlinked h c p j" and ?v = "the (fwd h c j)"
  have f: "fwd ?h c j = Some ?v"
    using fwd_unlinked [OF c, of c p j] c by (auto simp: has_slot_def fwd_def)
  obtain m where m: "h (p j) = Some m" "j < length (forward m)" using pj(1) by (auto simp: has_slot_def)
  obtain p1 where p1: "?h (p j) = Some p1" "j < length (forward p1)" using m by (simp add: unlinked_def)
  have "set_fwd ?h (p j) j ?v = Some (?h(p j \<mapsto> p1\<lparr>forward := (forward p1)[j := ?v]\<rparr>))"
    using p1 by (simp add: set_fwd_def)
  moreover have "?h(p j \<mapsto> p1\<lparr>forward := (forward p1)[j := ?v]\<rparr>) = unlinked h c p (Suc j)"
  proof (rule ext)
    fix a
    show "(?h(p j \<mapsto> p1\<lparr>forward := (forward p1)[j := ?v]\<rparr>)) a = unlinked h c p (Suc j) a"
    proof (cases "a = p j")
      case True
      then show ?thesis using pj(2) p1 m
        by (auto simp: unlinked_def less_Suc_eq nth_list_update intro!: node.equality nth_equalityI)
    next
      case False
      then show ?thesis
        by (cases "h a") (auto simp: unlinked_def less_Suc_eq intro!: node.equality)
    qed
  qed
  ultimately show ?thesis using f by simp
qed

text \<open>The loop stops at the first level the node is not linked on, its own level plus one.\<close>

lemma unlink_node_unlinked:
  assumes slots: "\<And>i. i \<le> L \<Longrightarrow> has_slot h (p i) i \<and> p i \<noteq> c \<and> upd_at u i = Some (p i)"
    and c: "\<And>i. i \<le> lc \<Longrightarrow> has_slot h c i" and lc: "lc \<le> L"
    and at: "\<And>i. i \<le> L \<Longrightarrow> fwd h (p i) i = Some (Some c) \<longleftrightarrow> i \<le> lc"
  shows "unlink_node u c [0..<Suc L] h = Some (unlinked h c p (Suc lc))"
proof -
  have "unlink_node u c [j..<Suc L] (unlinked h c p j) = Some (unlinked h c p (Suc lc))"
    if "j \<le> Suc lc" for j
    using that
  proof (induction "Suc lc - j" arbitrary: j)
    case 0
    then have j: "j = Suc lc" by simp
    show ?case
    proof (cases "Suc lc \<le> L")
      case True
      then have "fwd (unlinked h c p j) (p j) j \<noteq> Some (Some c)" "has_slot h (p j) j" "upd_at u j = Some (p j)"
        using slots [of j] at [of j] j by (auto simp: fwd_unlinked)
      moreover then obtain f where "fwd (unlinked h c p j) (p j) j = Some f"
        by (auto simp: fwd_unlinked) (auto simp: has_slot_def fwd_def)
      moreover have "[j..<Suc L] = j # [Suc j..<Suc L]" using True j by (intro upt_conv_Cons) simp
      ultimately show ?thesis by (auto simp: j simp del: upt_Suc)
    next
      case False
      with lc j show ?thesis by simp
    qed
  next
    case (Suc d)
    then have j: "j \<le> lc" "j \<le> L" "d = Suc lc - Suc j" using lc by simp_all
    from unlinked_Suc [of h c j p] c [OF j(1)] slots [OF j(2)] have
      s: "fwd (unlinked h c p j) c j = Some (the (fwd h c j))"
      "set_fwd (unlinked h c p j) (p j) j (the (fwd h c j)) = Some (unlinked h c p (Suc j))" by blast+
    have f: "fwd (unlinked h c p j) (p j) j = Some (Some c)" "upd_at u j = Some (p j)"
      using slots [OF j(2)] at [OF j(2)] j(1) by (simp_all add: fwd_unlinked)
    have "[j..<Suc L] = j # [Suc j..<Suc L]" using j by (intro upt_conv_Cons) simp
    then have "unlink_node u c [j..<Suc L] (unlinked h c p j) =
        unlink_node u c [Suc j..<Suc L] (unlinked h c p (Suc j))"
      using s f by (simp del: upt_Suc)
    with Suc.hyps(1) [OF j(3)] j show ?case by simp
  qed
  from this [of 0] show ?thesis by (simp add: unlinked_0 del: upt_Suc)
qed

lemma node_ok_unlinkedI:
  assumes "h a = Some m" "length (forward m) = Suc (node_level m)"
    "\<And>i. i \<le> node_level m \<Longrightarrow>
      (if i < j \<and> a \<noteq> c \<and> p i = a then the (fwd h c i) else forward m ! i) = nxt h i ts"
  shows "node_ok (unlinked h c p j) a ts"
proof -
  let ?f = "\<lambda>i. if i < j \<and> a \<noteq> c \<and> p i = a then the (fwd h c i) else forward m ! i"
  have "unlinked h c p j a = Some (m\<lparr>forward := map ?f [0..<length (forward m)]\<rparr>)"
    by (simp add: unlinked_def assms(1))
  moreover have "map ?f [0..<length (forward m)] ! i = nxt h i ts" if "i \<le> node_level m" for i
  proof -
    have "map ?f [0..<length (forward m)] ! i = ?f i" using assms(2) that by (simp del: upt_Suc)
    also have "\<dots> = nxt h i ts" using that by (rule assms(3))
    finally show ?thesis .
  qed
  ultimately show ?thesis using assms(2) by (simp add: node_ok_def del: upt_Suc)
qed

lemma chain_unlinked:
  assumes ch: "chain h hdr xs" and d: "distinct (hdr # xs)" and lc: "level_of h c \<le> level_of h hdr"
    and xs: "xs = below h k xs @ c # zs"
  shows "chain (unlinked h c (pred_at h k hdr xs) (Suc (level_of h c))) hdr (below h k xs @ zs)"
proof -
  let ?l = "level_of h c" and ?p = "pred_at h k hdr xs" and ?ys = "below h k xs"
  let ?h = "unlinked h c ?p (Suc ?l)"
  have pm: "?p i \<in> set (hdr # ?ys)" if "i \<le> ?l" for i using pred_at_mem that lc by (metis le_trans)
  have "distinct ((hdr # ?ys) @ c # zs)" using d xs by (metis append_Cons)
  then have dz: "set (hdr # ?ys) \<inter> set zs = {}" "c \<notin> set (hdr # ?ys)" "c \<notin> set zs"
    by (auto simp only: distinct_append) auto
  have "hdr # xs = (hdr # ?ys) @ c # zs" using xs by (metis append_Cons)
  then have "node_ok h c zs" using ch unfolding chain_iff by blast
  then have fc: "fwd h c i = Some (nxt h i zs)" if "i \<le> ?l" for i using that by (rule fwd_node_ok)
  show ?thesis unfolding chain_iff
  proof (intro allI impI)
    fix vs a ts assume e: "hdr # ?ys @ zs = vs @ a # ts"
    then have e': "(hdr # ?ys) @ zs = vs @ a # ts" by simp
    consider (front) us where "hdr # ?ys = vs @ a # us" "ts = us @ zs"
      | (later) us where "zs = us @ a # ts"
    proof -
      from e' consider us where "hdr # ?ys = vs @ us" "us @ zs = a # ts"
        | us where "(hdr # ?ys) @ us = vs" "zs = us @ a # ts"
        unfolding append_eq_append_conv2 by blast
      then show thesis
      proof cases
        case (1 us)
        then show ?thesis using that(1) [of "tl us"] that(2) [of "[]"] by (cases us) auto
      next
        case (2 us)
        then show ?thesis using that(2) [of us] by simp
      qed
    qed
    then show "node_ok ?h a ts"
    proof cases
      case front
      have "hdr # xs = vs @ a # (us @ c # zs)" using front(1) xs by (metis append.assoc append_Cons)
      then have ok: "node_ok h a (us @ c # zs)" using ch unfolding chain_iff by blast
      have ac: "a \<noteq> c" using front(1) dz(2) by (metis in_set_conv_decomp)
      from ok obtain m where m: "h a = Some m" "length (forward m) = Suc (node_level m)"
        "\<forall>i \<le> node_level m. forward m ! i = nxt h i (us @ c # zs)" by (auto simp: node_ok_def)
      show ?thesis
      proof (rule node_ok_unlinkedI, rule m(1), rule m(2))
        fix i assume i: "i \<le> node_level m"
        have "?p i = a \<longleftrightarrow> nxt h i us = None"
          by (rule pred_at_iff [OF d front(1)]) (use i m in \<open>simp add: level_of_def\<close>)
        then show "(if i < Suc ?l \<and> a \<noteq> c \<and> ?p i = a then the (fwd h c i) else forward m ! i) = nxt h i ts"
          using m(3) i ac fc
          by (auto simp: front(2) nxt_append less_Suc_eq_le split: option.splits) (simp_all add: nxt_def)
      qed
    next
      case (later us)
      have "hdr # xs = (hdr # ?ys @ c # us) @ a # ts" using xs later by (metis append.assoc append_Cons)
      then have ok: "node_ok h a ts" using ch unfolding chain_iff by blast
      from ok obtain m where m: "h a = Some m" "length (forward m) = Suc (node_level m)"
        "\<forall>i \<le> node_level m. forward m ! i = nxt h i ts" by (auto simp: node_ok_def)
      have "a \<in> set zs" by (simp add: later)
      then have "?p i \<noteq> a" if "i \<le> ?l" for i using dz(1) pm [OF that] by (metis IntI empty_iff)
      then show ?thesis using m(3)
        by (intro node_ok_unlinkedI [where h = h and m = m] m(1,2)) (auto simp: less_Suc_eq_le)
    qed
  qed
qed

lemma nxt_cong: "\<forall>b \<in> set xs. level_of h' b = level_of h b \<Longrightarrow> nxt h' i xs = nxt h i xs"
  by (induction xs) (simp_all add: nxt_def)

lemma chain_agree:
  assumes "chain h a xs" "\<forall>b \<in> set (a # xs). h' b = h b"
  shows "chain h' a xs"
  using assms
proof (induction h a xs rule: chain.induct)
  case (1 h a)
  then show ?case by (simp add: node_ok_def nxt_def)
next
  case (2 h a b xs)
  then have "nxt h' i (b # xs) = nxt h i (b # xs)" for i by (intro nxt_cong) (simp add: level_of_def)
  with 2 show ?case by (simp add: node_ok_def)
qed

lemma shrink_level_spec:
  assumes "chain h hdr xs" "L \<le> level_of h hdr" "\<forall>b \<in> set xs. level_of h b \<le> L"
  shows "\<exists>L'. shrink_level h hdr L = Some L' \<and> L' \<le> L \<and> (\<forall>b \<in> set xs. level_of h b \<le> L')"
  using assms(2,3)
proof (induction L)
  case (Suc L)
  have f: "fwd h hdr (Suc L) = Some (nxt h (Suc L) xs)"
    using fwd_node_ok [OF chain_node_ok [OF assms(1)] Suc.prems(1)] .
  show ?case
  proof (cases "nxt h (Suc L) xs")
    case None
    then have "\<forall>b \<in> set xs. level_of h b \<le> L" by (auto simp: nxt_None)
    from Suc.IH [OF _ this] Suc.prems(1) f None show ?thesis by auto
  next
    case (Some b)
    with f Suc.prems show ?thesis by auto
  qed
qed simp

end
