(* ===== verification/SkipList.thy ===== *)
theory SkipList
  imports SkipHeap "HOL-Library.Char_ord" "HOL-Library.List_Lexorder"
begin

text \<open>
  src/skipList/include/skipList.h, the class: search, insertion, deletion, replacement, dump and
  load, destruction. The invariant \<open>sl_inv\<close> names the nodes of the lowest level; \<open>sl_abs\<close> is the
  finite map the list stands for, and every operation is shown to be the map operation. The
  locale \<open>kv_store\<close> is what the server relies on.
\<close>

record ('k, 'v) SkipList =
  max_level :: nat
  skip_list_level :: nat
  header :: addr
  element_count :: int
  heap :: "('k, 'v) nheap"
  next_addr :: addr
  rand_seq :: "nat \<Rightarrow> nat"
  rand_pos :: nat

subsection \<open>Operations\<close>

text \<open>The constructor; \<open>k0\<close> and \<open>v0\<close> are the default-constructed key and value of the header.\<close>

definition SkipList_ctor :: "nat \<Rightarrow> 'k \<Rightarrow> 'v \<Rightarrow> (nat \<Rightarrow> nat) \<Rightarrow> ('k, 'v) SkipList" where
  "SkipList_ctor maxl k0 v0 rnd = \<lparr>max_level = maxl, skip_list_level = 0, header = 0, element_count = 0,
     heap = Map.empty(0 \<mapsto> create_node k0 v0 maxl), next_addr = 1, rand_seq = rnd, rand_pos = 0\<rparr>"

definition key_is :: "('k, 'v) nheap \<Rightarrow> addr option \<Rightarrow> 'k \<Rightarrow> bool option" where
  "key_is h f k = (case f of None \<Rightarrow> Some False | Some a \<Rightarrow> do { n \<leftarrow> h a; Some (nkey n = k) })"

definition search_element :: "'k::linorder \<Rightarrow> ('k, 'v) SkipList \<Rightarrow> 'v option option" where
  "search_element k s = do {
     c \<leftarrow> search_down (heap s) k (skip_list_level s) (header s);
     f \<leftarrow> fwd (heap s) c 0;
     found \<leftarrow> key_is (heap s) f k;
     if found then Some (map_option (value_of (heap s)) f) else Some None }"

definition insert_element :: "'k::linorder \<Rightarrow> 'v \<Rightarrow> ('k, 'v) SkipList \<Rightarrow> (int \<times> ('k, 'v) SkipList) option"
where
  "insert_element k v s = do {
     (c, u) \<leftarrow> descend (heap s) k (skip_list_level s) (header s) (replicate (max_level s + 1) None);
     f \<leftarrow> fwd (heap s) c 0;
     found \<leftarrow> key_is (heap s) f k;
     if found then Some (1, s)
     else do {
       (random_level, q) \<leftarrow> get_random_level (rand_seq s) (max_level s) (rand_pos s);
       u' \<leftarrow> (if random_level > skip_list_level s
              then fold_opt (\<lambda>i. upd_put i (header s)) [skip_list_level s + 1..<random_level + 1] u
              else Some u);
       let n = next_addr s;
       h \<leftarrow> link_node u' n random_level ((heap s)(n \<mapsto> create_node k v random_level));
       Some (0, s\<lparr>heap := h, next_addr := n + 1, rand_pos := q, element_count := element_count s + 1,
                 skip_list_level := max (skip_list_level s) random_level\<rparr>) } }"

definition delete_element :: "'k::linorder \<Rightarrow> ('k, 'v) SkipList \<Rightarrow> ('k, 'v) SkipList option" where
  "delete_element k s = do {
     (c, u) \<leftarrow> descend (heap s) k (skip_list_level s) (header s) (replicate (max_level s + 1) None);
     f \<leftarrow> fwd (heap s) c 0;
     found \<leftarrow> key_is (heap s) f k;
     case f of
       Some cur \<Rightarrow>
         if found then do {
           h \<leftarrow> unlink_node u cur [0..<skip_list_level s + 1] (heap s);
           l \<leftarrow> shrink_level h (header s) (skip_list_level s);
           Some (s\<lparr>heap := h(cur := None), skip_list_level := l, element_count := element_count s - 1\<rparr>) }
         else Some s
     | None \<Rightarrow> Some s }"

definition insert_set_element :: "'k::linorder \<Rightarrow> 'v \<Rightarrow> ('k, 'v) SkipList \<Rightarrow> ('k, 'v) SkipList option" where
  "insert_set_element k v s = do {
     old \<leftarrow> search_element k s;
     s1 \<leftarrow> (if old \<noteq> None then delete_element k s else Some s);
     (r, s2) \<leftarrow> insert_element k v s1;
     Some s2 }"

definition sl_size :: "('k, 'v) SkipList \<Rightarrow> int" where
  "sl_size s = element_count s"

text \<open>The nodes of a level, from a pointer on: the loops of \<open>dump_file\<close> and \<open>display_list\<close>.\<close>

partial_function (option) level_walk :: "('k, 'v) nheap \<Rightarrow> nat \<Rightarrow> addr option \<Rightarrow> ('k \<times> 'v) list option" where
  "level_walk h i f = (case f of None \<Rightarrow> Some []
     | Some a \<Rightarrow> do { n \<leftarrow> h a; g \<leftarrow> fwd h a i; rest \<leftarrow> level_walk h i g; Some ((nkey n, nvalue n) # rest) })"

definition dump_nodes :: "('k, 'v) SkipList \<Rightarrow> ('k \<times> 'v) list option" where
  "dump_nodes s = do { f \<leftarrow> fwd (heap s) (header s) 0; level_walk (heap s) 0 f }"

definition display_list :: "('k, 'v) SkipList \<Rightarrow> ('k \<times> 'v) list list option" where
  "display_list s = fold_opt (\<lambda>i out. do {
     f \<leftarrow> fwd (heap s) (header s) i; l \<leftarrow> level_walk (heap s) i f; Some (out @ [l]) })
     [0..<skip_list_level s + 1] []"

text \<open>The boost archive of \<open>SkipListDump\<close>: its key vector and its value vector.\<close>

record ('k, 'v) dump_codec =
  dump_out :: "'k list \<times> 'v list \<Rightarrow> string"
  dump_in :: "string \<Rightarrow> ('k list \<times> 'v list) option"

definition dump_file :: "('k, 'v) dump_codec \<Rightarrow> ('k, 'v) SkipList \<Rightarrow> string option" where
  "dump_file D s = do { kvs \<leftarrow> dump_nodes s; Some (dump_out D (map fst kvs, map snd kvs)) }"

definition load_file ::
  "('k::linorder, 'v) dump_codec \<Rightarrow> string \<Rightarrow> ('k, 'v) SkipList \<Rightarrow> ('k, 'v) SkipList option" where
  "load_file D dumpStr s =
     (if dumpStr = [] then Some s
      else do {
        (ks, vs) \<leftarrow> dump_in D dumpStr;
        fold_opt (\<lambda>i s. if i < length vs then map_option snd (insert_element (ks ! i) (vs ! i) s) else None)
          [0..<length ks] s })"

definition free_node :: "addr \<Rightarrow> ('k, 'v) nheap \<Rightarrow> ('k, 'v) nheap option" where
  "free_node a h = (if h a = None then None else Some (h(a := None)))"

partial_function (option) sl_clear :: "('k, 'v) nheap \<Rightarrow> addr \<Rightarrow> ('k, 'v) nheap option" where
  "sl_clear h a = do {
     f \<leftarrow> fwd h a 0;
     h1 \<leftarrow> (case f of None \<Rightarrow> Some h | Some b \<Rightarrow> sl_clear h b);
     free_node a h1 }"

definition SkipList_dtor :: "('k, 'v) SkipList \<Rightarrow> ('k, 'v) nheap option" where
  "SkipList_dtor s = do {
     f \<leftarrow> fwd (heap s) (header s) 0;
     h1 \<leftarrow> (case f of None \<Rightarrow> Some (heap s) | Some b \<Rightarrow> sl_clear (heap s) b);
     free_node (header s) h1 }"

text \<open>The private string helpers.\<close>

definition is_valid_string :: "string \<Rightarrow> bool" where
  "is_valid_string str \<longleftrightarrow> str \<noteq> [] \<and> CHR '':'' \<in> set str"

definition get_key_value_from_string :: "string \<Rightarrow> (string \<times> string) option" where
  "get_key_value_from_string str =
     (if \<not> is_valid_string str then None
      else let pos = length (takeWhile (\<lambda>c. c \<noteq> CHR '':'') str)
           in Some (take pos str, drop (pos + 1) str))"

subsection \<open>The invariant and the map\<close>

definition sl_inv :: "('k::linorder, 'v) SkipList \<Rightarrow> addr list \<Rightarrow> bool" where
  "sl_inv s xs \<longleftrightarrow>
     chain (heap s) (header s) xs \<and> distinct (header s # xs) \<and> ascending (heap s) xs \<and>
     level_of (heap s) (header s) = max_level s \<and> skip_list_level s \<le> max_level s \<and>
     (\<forall>b \<in> set xs. level_of (heap s) b \<le> skip_list_level s) \<and>
     dom (heap s) = set (header s # xs) \<and> (\<forall>a \<in> dom (heap s). a < next_addr s) \<and>
     element_count s = int (length xs) \<and> fair (rand_seq s)"

definition entries :: "('k, 'v) nheap \<Rightarrow> addr list \<Rightarrow> ('k \<times> 'v) list" where
  "entries h xs = map (\<lambda>a. (key_of h a, value_of h a)) xs"

definition sl_ok :: "('k::linorder, 'v) SkipList \<Rightarrow> bool" where
  "sl_ok s \<longleftrightarrow> (\<exists>xs. sl_inv s xs)"

definition sl_abs :: "('k, 'v) SkipList \<Rightarrow> 'k \<Rightarrow> 'v option" where
  "sl_abs s = (case dump_nodes s of None \<Rightarrow> Map.empty | Some kvs \<Rightarrow> map_of kvs)"

lemma level_walk_chain:
  assumes "chain h a xs"
  shows "level_walk h 0 (nxt h 0 xs) = Some (entries h xs)"
  using assms
proof (induction xs arbitrary: a)
  case Nil
  then show ?case by (subst level_walk.simps) (simp add: nxt_def entries_def)
next
  case (Cons b xs)
  then have c: "chain h b xs" by simp
  then obtain n where n: "h b = Some n" using chain_head by blast
  have "fwd h b 0 = Some (nxt h 0 xs)" using chain_node_ok [OF c] by (rule fwd_node_ok) simp
  with n Cons.IH [OF c] show ?case
    by (subst level_walk.simps) (simp add: nxt_def entries_def key_of_def value_of_def)
qed

lemma dump_nodes_inv: "sl_inv s xs \<Longrightarrow> dump_nodes s = Some (entries (heap s) xs)"
  using fwd_node_ok [OF chain_node_ok, of "heap s" "header s" xs 0] level_walk_chain
  by (auto simp: sl_inv_def dump_nodes_def)

lemma sl_abs_inv: "sl_inv s xs \<Longrightarrow> sl_abs s = map_of (entries (heap s) xs)"
  by (simp add: sl_abs_def dump_nodes_inv)

lemma sl_inv_ctor: "fair rnd \<Longrightarrow> sl_inv (SkipList_ctor maxl k0 v0 rnd) []"
  by (auto simp: sl_inv_def SkipList_ctor_def node_ok_def create_node_def nxt_def ascending_def level_of_def
      nth_append less_Suc_eq_le simp flip: replicate_Suc simp del: replicate.simps)

subsection \<open>Finding the place of a key\<close>

lemma entries_append [simp]: "entries h (xs @ ys) = entries h xs @ entries h ys"
  by (simp add: entries_def)

lemma entries_simps [simp]: "entries h [] = []" "entries h (a # xs) = (key_of h a, value_of h a) # entries h xs"
  by (simp_all add: entries_def)

lemma map_of_entries_None: "k \<notin> key_of h ` set xs \<Longrightarrow> map_of (entries h xs) k = None"
  by (induction xs) auto

definition first_of :: "addr list \<Rightarrow> addr option" where
  "first_of zs = (case zs of [] \<Rightarrow> None | c # _ \<Rightarrow> Some c)"

lemma nxt_first: "nxt h 0 zs = first_of zs"
  by (cases zs) (simp_all add: nxt_def first_of_def)

lemma locate:
  assumes "sl_inv s xs"
  obtains zs where "xs = below (heap s) k xs @ zs"
    "fwd (heap s) (pred_at (heap s) k (header s) xs 0) 0 = Some (first_of zs)"
    "key_is (heap s) (first_of zs) k = Some (sl_abs s k \<noteq> None)"
    "sl_abs s k \<noteq> None \<Longrightarrow> \<exists>c zs'. zs = c # zs' \<and> key_of (heap s) c = k \<and> sl_abs s k = Some (value_of (heap s) c)"
    "sl_abs s k = None \<Longrightarrow> \<forall>c \<in> set zs. k < key_of (heap s) c"
    "\<forall>c \<in> set (below (heap s) k xs). key_of (heap s) c < k"
proof -
  let ?h = "heap s"
  from assms have inv: "chain ?h (header s) xs" "ascending ?h xs" by (simp_all add: sl_inv_def)
  obtain zs where zs: "xs = below ?h k xs @ zs" "below ?h k zs = []"
    "\<forall>u \<in> set (below ?h k xs). key_of ?h u < k" by (rule below_split)
  have f: "fwd ?h (pred_at ?h k (header s) xs 0) 0 = Some (first_of zs)"
    using fwd_pred [OF inv(1) _ zs(1), of 0] by (simp add: nxt_first)
  have front: "map_of (entries ?h (below ?h k xs)) k = None"
    by (rule map_of_entries_None) (use zs(3) in auto)
  have abs: "sl_abs s k = map_of (entries ?h zs) k"
  proof -
    have "entries ?h xs = entries ?h (below ?h k xs) @ entries ?h zs" using zs(1) by (metis entries_append)
    with front show ?thesis using sl_abs_inv [OF assms] by (auto simp: map_add_def split: option.splits)
  qed
  show thesis
  proof (cases zs)
    case Nil
    then show ?thesis using that [OF zs(1) f] abs zs(3) by (simp add: key_is_def first_of_def)
  next
    case (Cons c zs')
    have "c \<in> set xs" using zs(1) Cons by (metis in_set_conv_decomp)
    then obtain n where n: "?h c = Some n" using chain_heap [OF inv(1)] by blast
    then have kc: "key_of ?h c = nkey n" by (simp add: key_of_def)
    have ge: "\<not> key_of ?h c < k" using zs(2) Cons by (simp add: below_def split: if_splits)
    have "ascending ?h (c # zs')" using inv(2) zs(1) Cons by (metis ascending_append)
    then have later: "\<forall>d \<in> set zs'. key_of ?h c < key_of ?h d" by (simp add: ascending_Cons)
    show ?thesis
    proof (cases "key_of ?h c = k")
      case True
      then show ?thesis using that [OF zs(1) f] abs zs(3) n kc
        by (simp add: Cons key_is_def first_of_def)
    next
      case False
      with ge have gt: "k < key_of ?h c" by simp
      with later have all: "\<forall>d \<in> set zs. k < key_of ?h d" by (auto simp: Cons)
      then have "map_of (entries ?h zs) k = None" by (intro map_of_entries_None) auto
      with abs have "sl_abs s k = None" by simp
      with all show ?thesis using that [OF zs(1) f] zs(3) n kc False
        by (simp add: Cons key_is_def first_of_def)
    qed
  qed
qed

lemma search_element_correct:
  assumes "sl_inv s xs"
  shows "search_element k s = Some (sl_abs s k)"
proof -
  from assms have d: "search_down (heap s) k (skip_list_level s) (header s) =
      Some (pred_at (heap s) k (header s) xs 0)"
    by (intro search_down_spec) (simp_all add: sl_inv_def)
  obtain zs where z: "fwd (heap s) (pred_at (heap s) k (header s) xs 0) 0 = Some (first_of zs)"
    "key_is (heap s) (first_of zs) k = Some (sl_abs s k \<noteq> None)"
    "sl_abs s k \<noteq> None \<Longrightarrow> \<exists>c zs'. zs = c # zs' \<and> key_of (heap s) c = k \<and> sl_abs s k = Some (value_of (heap s) c)"
    using locate [OF assms] by metis
  show ?thesis
  proof (cases "sl_abs s k")
    case None
    with d z(1,2) show ?thesis by (simp add: search_element_def)
  next
    case (Some v)
    with z(3) obtain c zs' where "zs = c # zs'" "v = value_of (heap s) c" by auto
    with d z(1,2) Some show ?thesis by (simp add: search_element_def first_of_def)
  qed
qed

text \<open>The descent at the start of insertion and deletion.\<close>

lemma descend_inv:
  assumes "sl_inv s xs"
  obtains u where "descend (heap s) k (skip_list_level s) (header s) (replicate (max_level s + 1) None) =
      Some (pred_at (heap s) k (header s) xs 0, u)" "length u = max_level s + 1"
    "\<forall>m \<le> skip_list_level s. u ! m = Some (pred_at (heap s) k (header s) xs m)"
proof -
  have "\<exists>u'. descend (heap s) k (skip_list_level s) (header s) (replicate (max_level s + 1) None) =
        Some (pred_at (heap s) k (header s) xs 0, u') \<and> length u' = length (replicate (max_level s + 1) (None :: addr option)) \<and>
      (\<forall>m \<le> skip_list_level s. u' ! m = Some (pred_at (heap s) k (header s) xs m)) \<and>
      (\<forall>m > skip_list_level s. u' ! m = replicate (max_level s + 1) None ! m)"
    by (rule descend_spec) (use assms in \<open>simp_all add: sl_inv_def\<close>)
  with that show thesis by auto
qed

lemma pred_slot:
  assumes "sl_inv s xs" "i \<le> max_level s"
  shows "has_slot (heap s) (pred_at (heap s) k (header s) xs i) i"
    "pred_at (heap s) k (header s) xs i \<in> set (header s # xs)"
proof -
  let ?p = "pred_at (heap s) k (header s) xs i"
  from assms have l: "chain (heap s) (header s) xs" "i \<le> level_of (heap s) (header s)"
    by (simp_all add: sl_inv_def)
  obtain vs ts where s: "header s # below (heap s) k xs = vs @ ?p # ts" "i \<le> level_of (heap s) ?p"
    using pred_at_split [OF l(2), of k xs] by metis
  obtain zs where "xs = below (heap s) k xs @ zs" using below_split by metis
  with s(1) have e: "header s # xs = vs @ ?p # (ts @ zs)" by (metis append.assoc append_Cons)
  then show "?p \<in> set (header s # xs)" by (metis in_set_conv_decomp)
  from l(1) e have "node_ok (heap s) ?p (ts @ zs)" unfolding chain_iff by blast
  with s(2) show "has_slot (heap s) ?p i" by (auto simp: node_ok_def has_slot_def level_of_def)
qed

subsection \<open>Insertion\<close>

lemma upd_put_range:
  assumes "j \<le> length u" "m \<le> j"
  shows "\<exists>u'. fold_opt (\<lambda>i. upd_put i a) [m..<j] u = Some u' \<and> length u' = length u \<and>
    (\<forall>i. u' ! i = (if m \<le> i \<and> i < j then Some a else u ! i))"
  using assms(2,1)
proof (induction j rule: dec_induct)
  case base
  show ?case by auto
next
  case (step j)
  then obtain u' where u': "fold_opt (\<lambda>i. upd_put i a) [m..<j] u = Some u'" "length u' = length u"
    "\<forall>i. u' ! i = (if m \<le> i \<and> i < j then Some a else u ! i)" by auto
  have "fold_opt (\<lambda>i. upd_put i a) [m..<Suc j] u = Some (u'[j := Some a])"
    using u'(1,2) step by (simp add: fold_opt_append upd_put_def)
  moreover have "u'[j := Some a] ! i = (if m \<le> i \<and> i < Suc j then Some a else u ! i)" for i
    using u'(2,3) step by (auto simp: nth_list_update less_Suc_eq)
  ultimately show ?case using u'(2) by auto
qed

lemma agree_pred_at:
  assumes "\<forall>b \<in> set (a # xs). h' b = h b"
  shows "below h' k xs = below h k xs" "pred_at h' k a xs = pred_at h k a xs"
proof -
  have k: "key_of h' b = key_of h b" "level_of h' b = level_of h b" if "b \<in> set xs" for b
    using assms that by (simp_all add: key_of_def level_of_def)
  show b: "below h' k xs = below h k xs"
    unfolding below_def by (rule takeWhile_cong) (simp_all add: k)
  have "filter (\<lambda>b. i \<le> level_of h' b) (below h k xs) = filter (\<lambda>b. i \<le> level_of h b) (below h k xs)" for i
    by (rule filter_cong) (auto simp: below_def k dest: set_takeWhileD)
  then show "pred_at h' k a xs = pred_at h k a xs" by (simp add: fun_eq_iff pred_at_def b)
qed

lemma pred_at_top: "\<forall>b \<in> set xs. level_of h b < i \<Longrightarrow> pred_at h k a xs i = a"
proof -
  assume "\<forall>b \<in> set xs. level_of h b < i"
  then have "filter (\<lambda>b. i \<le> level_of h b) (below h k xs) = []"
    by (auto simp: filter_empty_conv below_def not_le dest: set_takeWhileD)
  then show ?thesis by (simp add: pred_at_def)
qed

lemma ascending_cong: "\<forall>b \<in> set xs. key_of h' b = key_of h b \<Longrightarrow> ascending h' xs = ascending h xs"
  by (induction xs) (auto simp: ascending_Cons ascending_def)

lemma entries_cong:
  "\<forall>b \<in> set xs. key_of h' b = key_of h b \<and> value_of h' b = value_of h b \<Longrightarrow> entries h' xs = entries h xs"
  by (simp add: entries_def)

text \<open>The list after linking a new node of level \<open>l\<close>.\<close>

lemma sl_inv_linked:
  fixes s :: "('k::linorder, 'v) SkipList" and v :: 'v and q :: nat
  assumes inv: "sl_inv s xs" and l: "l \<le> max_level s" and xs: "xs = below (heap s) k xs @ zs"
    and gt: "\<forall>c \<in> set zs. k < key_of (heap s) c" and lt: "\<forall>c \<in> set (below (heap s) k xs). key_of (heap s) c < k"
  defines "n \<equiv> next_addr s"
  defines "h1 \<equiv> (heap s)(n \<mapsto> create_node k v l)"
  defines "t \<equiv> s\<lparr>heap := linked h1 n (pred_at (heap s) k (header s) xs) (Suc l), next_addr := n + 1,
      rand_pos := q, element_count := element_count s + 1, skip_list_level := max (skip_list_level s) l\<rparr>"
  shows "sl_inv t (below (heap s) k xs @ n # zs)" "sl_abs t = (sl_abs s)(k \<mapsto> v)"
proof -
  let ?h = "heap s" and ?ys = "below (heap s) k xs" and ?p = "pred_at (heap s) k (header s) xs"
  let ?h2 = "linked h1 n ?p (Suc l)"
  from inv have i: "chain ?h (header s) xs" "distinct (header s # xs)" "ascending ?h xs"
    "level_of ?h (header s) = max_level s" "dom ?h = set (header s # xs)" "\<forall>a \<in> dom ?h. a < n"
    "\<forall>b \<in> set xs. level_of ?h b \<le> skip_list_level s" "skip_list_level s \<le> max_level s"
    by (simp_all add: sl_inv_def n_def)
  have fresh: "n \<notin> set (header s # xs)" using i(5,6) by fastforce
  then have agree: "\<forall>b \<in> set (header s # xs). h1 b = ?h b" by (auto simp: h1_def)
  have n1: "h1 n = Some (create_node k v l)" by (simp add: h1_def)
  have c1: "chain h1 (header s) xs" using i(1) agree by (rule chain_agree)
  have lvl1: "level_of h1 b = (if b = n then l else level_of ?h b)" for b
    by (simp add: h1_def level_of_def create_node_def)
  have "chain (linked h1 n (pred_at h1 k (header s) xs) (Suc (node_level (create_node k v l)))) (header s)
      (below h1 k xs @ n # zs)"
    by (rule chain_linked [OF c1 i(2) fresh n1])
      (use l i(4) fresh xs lvl1 [of "header s"] agree_pred_at [OF agree] in \<open>simp_all add: create_node_def\<close>)
  then have chain: "chain ?h2 (header s) (?ys @ n # zs)"
    using agree_pred_at [OF agree, of k] by (simp add: create_node_def)
  have kv: "key_of ?h2 b = key_of ?h b \<and> value_of ?h2 b = value_of ?h b" if "b \<in> set (?ys @ zs)" for b
  proof -
    have b: "b \<in> set xs" using that xs by metis
    then obtain m where "?h b = Some m" using chain_heap [OF i(1)] by blast
    moreover have "h1 b = ?h b" using agree b by simp
    ultimately show ?thesis by (simp add: key_of_linked) (simp add: key_of_def value_of_def)
  qed
  have kn: "key_of ?h2 n = k" "value_of ?h2 n = v"
    using key_of_linked [where h = h1 and a = n and m = "create_node k v l"] n1
    by (simp_all add: key_of_def value_of_def create_node_def)
  have e: "entries ?h2 (?ys @ n # zs) = entries ?h ?ys @ (k, v) # entries ?h zs"
    using kv kn entries_cong [of ?ys ?h2 ?h] entries_cong [of zs ?h2 ?h] by simp
  have asc: "ascending ?h (?ys @ zs)" using i(3) xs by metis
  have "ascending ?h2 (?ys @ n # zs)"
    using asc kv kn gt lt ascending_cong [of ?ys ?h2 ?h] ascending_cong [of zs ?h2 ?h]
    by (auto simp: ascending_append ascending_Cons)
  moreover have "distinct (header s # ?ys @ n # zs)"
  proof -
    have "distinct (header s # ?ys @ zs)" "set xs = set (?ys @ zs)"
      using i(2) arg_cong [OF xs, of "\<lambda>l. distinct (header s # l)"] arg_cong [OF xs, of set] by blast+
    with fresh show ?thesis by auto
  qed
  moreover have set': "set (?ys @ n # zs) = insert n (set xs)" using xs by (metis Un_insert_right list.simps(15) set_append)
  moreover have "length (?ys @ n # zs) = Suc (length xs)" using xs by (metis add_Suc_right length_Cons length_append)
  moreover have "dom ?h2 = insert n (dom ?h)" by (auto simp: linked_def h1_def split: if_splits)
  ultimately show inv': "sl_inv t (?ys @ n # zs)"
    using inv chain l fresh lvl1 i(5) unfolding sl_inv_def t_def
    by (auto simp: n_def [symmetric] le_max_iff_disj less_Suc_eq)
  have "entries ?h xs = entries ?h ?ys @ entries ?h zs" using xs by (metis entries_append)
  then have old: "sl_abs s = map_of (entries ?h ?ys @ entries ?h zs)" using sl_abs_inv [OF inv] by simp
  have "k \<notin> key_of ?h ` set ?ys" using lt by force
  then have "map_of (entries ?h ?ys) k = None" by (rule map_of_entries_None)
  then have ny: "k \<notin> dom (map_of (entries ?h ?ys))" by blast
  have "sl_abs t = map_of (entries ?h2 (?ys @ n # zs))" using sl_abs_inv [OF inv'] by (simp add: t_def)
  then show "sl_abs t = (sl_abs s)(k \<mapsto> v)"
    using ny unfolding e old by (simp add: map_add_upd_left)
qed

lemma insert_element_present:
  assumes "sl_inv s xs" "sl_abs s k \<noteq> None"
  shows "insert_element k v s = Some (1, s)"
proof -
  obtain u where u: "descend (heap s) k (skip_list_level s) (header s) (replicate (max_level s + 1) None) =
      Some (pred_at (heap s) k (header s) xs 0, u)" using descend_inv [OF assms(1)] by metis
  obtain zs where z: "fwd (heap s) (pred_at (heap s) k (header s) xs 0) 0 = Some (first_of zs)"
    "key_is (heap s) (first_of zs) k = Some (sl_abs s k \<noteq> None)"
    using locate [OF assms(1)] by metis
  show ?thesis using u z assms(2) by (simp add: insert_element_def)
qed

lemma insert_element_absent:
  assumes inv: "sl_inv s xs" and "sl_abs s k = None"
  shows "\<exists>s' xs'. insert_element k v s = Some (0, s') \<and> sl_inv s' xs' \<and> sl_abs s' = (sl_abs s)(k \<mapsto> v) \<and>
    element_count s' = element_count s + 1 \<and> max_level s' = max_level s"
proof -
  let ?p = "pred_at (heap s) k (header s) xs"
  obtain u where u: "descend (heap s) k (skip_list_level s) (header s) (replicate (max_level s + 1) None) =
      Some (?p 0, u)" "length u = max_level s + 1" "\<forall>m \<le> skip_list_level s. u ! m = Some (?p m)"
    by (rule descend_inv [OF inv])
  obtain zs where z: "xs = below (heap s) k xs @ zs" "fwd (heap s) (?p 0) 0 = Some (first_of zs)"
    "key_is (heap s) (first_of zs) k = Some (sl_abs s k \<noteq> None)"
    "sl_abs s k = None \<Longrightarrow> \<forall>c \<in> set zs. k < key_of (heap s) c"
    "\<forall>c \<in> set (below (heap s) k xs). key_of (heap s) c < k"
    using locate [OF inv] by metis
  from inv have f: "fair (rand_seq s)" "skip_list_level s \<le> max_level s"
    "\<forall>b \<in> set xs. level_of (heap s) b \<le> skip_list_level s" "\<forall>a \<in> dom (heap s). a < next_addr s"
    "dom (heap s) = set (header s # xs)"
    by (simp_all add: sl_inv_def)
  obtain l q where lq: "get_random_level (rand_seq s) (max_level s) (rand_pos s) = Some (l, q)" "l \<le> max_level s"
    using get_random_level_total [OF f(1)] by metis
  have top: "?p i = header s" if "skip_list_level s < i" for i
    by (rule pred_at_top) (use f(3) that in fastforce)
  obtain u' where u': "(if l > skip_list_level s
        then fold_opt (\<lambda>i. upd_put i (header s)) [skip_list_level s + 1..<l + 1] u else Some u) = Some u'"
    "length u' = max_level s + 1" "\<forall>i \<le> l. u' ! i = Some (?p i)"
  proof (cases "l > skip_list_level s")
    case True
    with upd_put_range [of "l + 1" u "skip_list_level s + 1" "header s"] u(2) lq(2) obtain u' where
      "fold_opt (\<lambda>i. upd_put i (header s)) [skip_list_level s + 1..<l + 1] u = Some u'" "length u' = length u"
      "\<forall>i. u' ! i = (if skip_list_level s + 1 \<le> i \<and> i < l + 1 then Some (header s) else u ! i)" by auto
    with True u(2,3) top show ?thesis by (intro that [of u']) auto
  next
    case False
    with u(2,3) show ?thesis by (intro that [of u]) auto
  qed
  let ?n = "next_addr s"
  let ?h1 = "(heap s)(?n \<mapsto> create_node k v l)"
  have slots: "has_slot ?h1 ?n i \<and> has_slot ?h1 (?p i) i \<and> ?p i \<noteq> ?n \<and> upd_at u' i = Some (?p i)" if "i \<le> l" for i
  proof -
    have "?p i \<in> dom (heap s)" "has_slot (heap s) (?p i) i"
      using pred_slot [OF inv, of i k] that lq(2) f(5) by simp_all
    moreover have "?n \<notin> dom (heap s)" using f(4) by blast
    ultimately show ?thesis using u'(2,3) that lq(2)
      by (auto simp: has_slot_def create_node_def upd_at_def)
  qed
  have "link_node u' ?n l ?h1 = Some (linked ?h1 ?n ?p (Suc l))" by (rule link_node_linked) (rule slots)
  then have "insert_element k v s = Some (0, s\<lparr>heap := linked ?h1 ?n ?p (Suc l), next_addr := ?n + 1,
      rand_pos := q, element_count := element_count s + 1, skip_list_level := max (skip_list_level s) l\<rparr>)"
    using u(1) z(2,3) assms(2) lq(1) u'(1) by (simp add: insert_element_def Let_def)
  with sl_inv_linked [OF inv lq(2) z(1) z(4) [OF assms(2)] z(5)] show ?thesis by fastforce
qed

subsection \<open>Deletion\<close>

lemma sl_inv_unlinked:
  assumes inv: "sl_inv s xs" and xs: "xs = below (heap s) k xs @ c # zs" and key: "key_of (heap s) c = k"
  defines "h2 \<equiv> unlinked (heap s) c (pred_at (heap s) k (header s) xs) (Suc (level_of (heap s) c))"
  shows "\<exists>L. shrink_level h2 (header s) (skip_list_level s) = Some L \<and>
    sl_inv (s\<lparr>heap := h2(c := None), skip_list_level := L, element_count := element_count s - 1\<rparr>)
      (below (heap s) k xs @ zs) \<and>
    sl_abs (s\<lparr>heap := h2(c := None), skip_list_level := L, element_count := element_count s - 1\<rparr>) =
      (sl_abs s)(k := None)"
proof -
  let ?h = "heap s" and ?ys = "below (heap s) k xs"
  let ?zs = "?ys @ zs"
  from inv have i: "chain ?h (header s) xs" "distinct (header s # xs)" "ascending ?h xs"
    "level_of ?h (header s) = max_level s" "dom ?h = set (header s # xs)"
    "\<forall>b \<in> set xs. level_of ?h b \<le> skip_list_level s" "skip_list_level s \<le> max_level s"
    by (simp_all add: sl_inv_def)
  have set_xs: "set xs = insert c (set ?zs)" "length xs = Suc (length ?zs)" "distinct (?ys @ c # zs)"
    "ascending ?h (?ys @ c # zs)"
    using arg_cong [OF xs, of set] arg_cong [OF xs, of length] arg_cong [OF xs, of distinct] i(2,3)
      arg_cong [OF xs, of "ascending ?h"] by auto
  then have c: "c \<in> set xs" "c \<noteq> header s" "c \<notin> set ?zs" "distinct ?zs" "header s \<notin> set ?zs"
    using i(2) by auto
  have lc: "level_of ?h c \<le> level_of ?h (header s)" using i(4,6,7) c(1) by fastforce
  have chain2: "chain h2 (header s) ?zs" unfolding h2_def by (rule chain_unlinked [OF i(1,2) lc xs])
  have "\<forall>b \<in> set ?zs. level_of h2 b \<le> skip_list_level s" using i(6) set_xs(1) by (simp add: h2_def)
  moreover have "skip_list_level s \<le> level_of h2 (header s)" using i(4,7) by (simp add: h2_def)
  ultimately obtain L where L: "shrink_level h2 (header s) (skip_list_level s) = Some L"
    "L \<le> skip_list_level s" "\<forall>b \<in> set ?zs. level_of h2 b \<le> L"
    using shrink_level_spec [OF chain2] by blast
  let ?h3 = "h2(c := None)"
  let ?t = "s\<lparr>heap := ?h3, skip_list_level := L, element_count := element_count s - 1\<rparr>"
  have agree: "\<forall>b \<in> set (header s # ?zs). ?h3 b = h2 b" using c by auto
  have lvl3: "level_of ?h3 b = level_of ?h b" if "b \<noteq> c" for b
    using that by (simp add: level_of_def h2_def unlinked_def split: option.split)
  have kv: "key_of ?h3 b = key_of ?h b \<and> value_of ?h3 b = value_of ?h b" if "b \<in> set ?zs" for b
  proof -
    have "b \<in> set xs" using that set_xs(1) by blast
    then obtain m where m: "?h b = Some m" using chain_heap [OF i(1)] by blast
    have "b \<noteq> c" using that c(3) by blast
    then show ?thesis
      using key_of_unlinked [where h = ?h and a = b and m = m and c = c and j = "Suc (level_of ?h c)"
          and p = "pred_at ?h k (header s) xs"] m
      by (simp add: key_of_def value_of_def h2_def)
  qed
  have e: "entries ?h3 ?zs = entries ?h ?zs" by (rule entries_cong) (use kv in blast)
  have asc: "ascending ?h ?zs" using set_xs(4) by (simp add: ascending_append ascending_Cons)
  have "ascending ?h3 ?zs" using ascending_cong [of ?zs ?h3 ?h] kv asc by blast
  moreover have "chain ?h3 (header s) ?zs" using chain2 agree by (rule chain_agree)
  moreover have dom: "dom ?h3 = dom ?h - {c}" by (auto simp: h2_def unlinked_def split: if_splits)
  moreover have "dom ?h - {c} = set (header s # ?zs)" using i(5) set_xs(1) c by auto
  moreover have "\<forall>b \<in> set ?zs. level_of ?h3 b \<le> L"
  proof
    fix b assume b: "b \<in> set ?zs"
    then have "b \<noteq> c" using c(3) by blast
    moreover have "level_of h2 b = level_of ?h b" by (simp add: h2_def)
    ultimately show "level_of ?h3 b \<le> L" using L(3) b lvl3 by metis
  qed
  moreover have "\<forall>a \<in> dom ?h3. a < next_addr s" using inv dom by (simp add: sl_inv_def)
  ultimately have inv': "sl_inv ?t ?zs"
    using inv c lvl3 L(2) set_xs(2) i(4,7) unfolding sl_inv_def by (simp del: set_append append_assoc)
  have "map_of (entries ?h ?zs) = (map_of (entries ?h xs))(k := None)"
  proof -
    have "k \<notin> key_of ?h ` set ?zs" using set_xs(4) key by (force simp: ascending_append ascending_Cons)
    then have "map_of (entries ?h ?zs) k = None" by (rule map_of_entries_None)
    moreover have "entries ?h xs = entries ?h ?ys @ (k, value_of ?h c) # entries ?h zs"
      using arg_cong [OF xs, of "entries ?h"] key by simp
    ultimately show ?thesis by (auto simp: map_add_def fun_eq_iff split: option.splits)
  qed
  moreover have "sl_abs ?t = map_of (entries ?h3 ?zs)"
    using sl_abs_inv [OF inv'] by (simp del: entries_append map_of_append)
  ultimately have "sl_abs ?t = (sl_abs s)(k := None)"
    using sl_abs_inv [OF inv] unfolding e by simp
  with L(1) inv' show ?thesis by blast
qed

lemma delete_element_correct:
  assumes inv: "sl_inv s xs"
  shows "\<exists>s' xs'. delete_element k s = Some s' \<and> sl_inv s' xs' \<and> sl_abs s' = (sl_abs s)(k := None) \<and>
    element_count s' = element_count s - (if sl_abs s k = None then 0 else 1) \<and> max_level s' = max_level s"
proof -
  let ?p = "pred_at (heap s) k (header s) xs"
  obtain u where u: "descend (heap s) k (skip_list_level s) (header s) (replicate (max_level s + 1) None) =
      Some (?p 0, u)" "length u = max_level s + 1" "\<forall>m \<le> skip_list_level s. u ! m = Some (?p m)"
    by (rule descend_inv [OF inv])
  obtain zs where z: "xs = below (heap s) k xs @ zs" "fwd (heap s) (?p 0) 0 = Some (first_of zs)"
    "key_is (heap s) (first_of zs) k = Some (sl_abs s k \<noteq> None)"
    "sl_abs s k \<noteq> None \<Longrightarrow> \<exists>c zs'. zs = c # zs' \<and> key_of (heap s) c = k \<and> sl_abs s k = Some (value_of (heap s) c)"
    using locate [OF inv] by metis
  show ?thesis
  proof (cases "sl_abs s k = None")
    case True
    then have "(sl_abs s)(k := None) = sl_abs s" by (simp add: fun_upd_idem)
    with True u(1) z(2,3) inv show ?thesis by (auto simp: delete_element_def split: option.splits)
  next
    case False
    with z(4) obtain c zs' where zs: "zs = c # zs'" "key_of (heap s) c = k" by blast
    have xs: "xs = below (heap s) k xs @ c # zs'" using z(1) zs(1) by simp
    from inv have i: "chain (heap s) (header s) xs" "distinct (header s # xs)" "skip_list_level s \<le> max_level s"
      "level_of (heap s) (header s) = max_level s" "\<forall>b \<in> set xs. level_of (heap s) b \<le> skip_list_level s"
      by (simp_all add: sl_inv_def)
    have c: "c \<in> set xs" "c \<notin> set (header s # below (heap s) k xs)" "c \<notin> set zs'"
      using arg_cong [OF xs, of set] arg_cong [OF xs, of "\<lambda>l. distinct (header s # l)"] i(2) by auto
    have okc: "node_ok (heap s) c zs'"
    proof -
      have "header s # xs = (header s # below (heap s) k xs) @ c # zs'" using xs by (metis append_Cons)
      with i(1) show ?thesis unfolding chain_iff by blast
    qed
    have "unlink_node u c [0..<Suc (skip_list_level s)] (heap s) =
        Some (unlinked (heap s) c ?p (Suc (level_of (heap s) c)))"
    proof (rule unlink_node_unlinked)
      fix i assume "i \<le> skip_list_level s"
      then have im: "i \<le> max_level s" using i(3) by simp
      have "?p i \<in> set (header s # below (heap s) k xs)" using pred_at_mem im i(4) by metis
      then have "?p i \<noteq> c" using c(2) by metis
      then show "has_slot (heap s) (?p i) i \<and> ?p i \<noteq> c \<and> upd_at u i = Some (?p i)"
        using pred_slot [OF inv im] u(2,3) \<open>i \<le> skip_list_level s\<close> i(3) by (simp add: upd_at_def)
      have "fwd (heap s) (?p i) i = Some (nxt (heap s) i (c # zs'))"
        by (rule fwd_pred [OF i(1) _ xs]) (use im i(4) in simp)
      moreover have "nxt (heap s) i (c # zs') = Some c \<longleftrightarrow> i \<le> level_of (heap s) c"
        using c(3) by (auto simp: nxt_def find_Some_iff in_set_conv_nth)
      ultimately show "fwd (heap s) (?p i) i = Some (Some c) \<longleftrightarrow> i \<le> level_of (heap s) c" by simp
    next
      fix i assume "i \<le> level_of (heap s) c"
      with okc show "has_slot (heap s) c i" by (auto simp: node_ok_def has_slot_def level_of_def)
    next
      show "level_of (heap s) c \<le> skip_list_level s" using i(5) c(1) by blast
    qed
    moreover note sl_inv_unlinked [OF inv xs zs(2)]
    ultimately show ?thesis
      using u(1) z(2,3) False by (auto simp: delete_element_def zs(1) first_of_def simp del: upt_Suc)
  qed
qed

subsection \<open>Replacement, size, the fresh list\<close>

lemma insert_set_element_correct:
  assumes inv: "sl_inv s xs"
  shows "\<exists>s' xs'. insert_set_element k v s = Some s' \<and> sl_inv s' xs' \<and> sl_abs s' = (sl_abs s)(k \<mapsto> v)"
proof -
  have f: "search_element k s = Some (sl_abs s k)" by (rule search_element_correct [OF inv])
  obtain s1 xs1 where s1: "(if sl_abs s k \<noteq> None then delete_element k s else Some s) = Some s1"
    "sl_inv s1 xs1" "sl_abs s1 = (sl_abs s)(k := None)"
  proof (cases "sl_abs s k = None")
    case True
    then have "(sl_abs s)(k := None) = sl_abs s" by (simp add: fun_upd_idem)
    with True inv that show ?thesis by auto
  next
    case False
    with delete_element_correct [OF inv, of k] that show ?thesis by auto
  qed
  then have "sl_abs s1 k = None" by simp
  from insert_element_absent [OF s1(2) this] obtain s2 xs2 where
    "insert_element k v s1 = Some (0, s2)" "sl_inv s2 xs2" "sl_abs s2 = (sl_abs s1)(k \<mapsto> v)" by blast
  with f s1 show ?thesis by (auto simp: insert_set_element_def)
qed

lemma size_inv: "sl_inv s xs \<Longrightarrow> sl_size s = int (card (dom (sl_abs s)))"
proof -
  assume inv: "sl_inv s xs"
  then have "ascending (heap s) xs" by (simp add: sl_inv_def)
  then have "distinct (map (key_of (heap s)) xs)"
    by (induction xs) (auto simp: ascending_Cons)
  moreover have "dom (sl_abs s) = set (map (key_of (heap s)) xs)"
    by (simp add: sl_abs_inv [OF inv] dom_map_of_conv_image_fst entries_def image_image)
  ultimately have "card (dom (sl_abs s)) = length xs" by (metis distinct_card length_map)
  with inv show ?thesis by (simp add: sl_size_def sl_inv_def)
qed

lemma sl_abs_ctor:
  fixes k0 :: "'k::linorder"
  shows "fair rnd \<Longrightarrow> sl_abs (SkipList_ctor maxl k0 v0 rnd) = Map.empty"
  using sl_abs_inv [OF sl_inv_ctor, of rnd maxl k0 v0] by simp

subsection \<open>The contract of a key-value store\<close>

locale kv_store =
  fixes ok :: "'s \<Rightarrow> bool"
    and absm :: "'s \<Rightarrow> 'k \<Rightarrow> 'v option"
    and find_key :: "'k \<Rightarrow> 's \<Rightarrow> 'v option option"
    and insert_new :: "'k \<Rightarrow> 'v \<Rightarrow> 's \<Rightarrow> (int \<times> 's) option"
    and put_key :: "'k \<Rightarrow> 'v \<Rightarrow> 's \<Rightarrow> 's option"
    and remove_key :: "'k \<Rightarrow> 's \<Rightarrow> 's option"
  assumes find_law: "ok s \<Longrightarrow> find_key k s = Some (absm s k)"
    and insert_law: "ok s \<Longrightarrow> \<exists>s'. insert_new k v s = Some (if absm s k = None then 0 else 1, s') \<and> ok s' \<and>
      absm s' = (if absm s k = None then (absm s)(k \<mapsto> v) else absm s)"
    and put_law: "ok s \<Longrightarrow> \<exists>s'. put_key k v s = Some s' \<and> ok s' \<and> absm s' = (absm s)(k \<mapsto> v)"
    and remove_law: "ok s \<Longrightarrow> \<exists>s'. remove_key k s = Some s' \<and> ok s' \<and> absm s' = (absm s)(k := None)"
begin

lemma put_find: "ok s \<Longrightarrow> put_key k v s = Some s' \<Longrightarrow> find_key j s' = (if j = k then Some (Some v) else find_key j s)"
  using put_law [of s k v] find_law [of s' j] find_law [of s j] by auto

text \<open>Inserting a whole list: what was there stays, the first value of a key wins.\<close>

lemma insert_all:
  "ok s \<Longrightarrow> \<exists>s'. fold_opt (\<lambda>(k, v) t. map_option snd (insert_new k v t)) kvs s = Some s' \<and> ok s' \<and>
     absm s' = map_of kvs ++ absm s"
proof (induction kvs arbitrary: s)
  case (Cons kv kvs)
  obtain k v where kv: "kv = (k, v)" by (cases kv)
  from insert_law [OF Cons.prems, of k v] obtain s1 r where s1: "insert_new k v s = Some (r, s1)" "ok s1"
    "absm s1 = (if absm s k = None then (absm s)(k \<mapsto> v) else absm s)" by blast
  from Cons.IH [OF s1(2)] obtain s2 where
    s2: "fold_opt (\<lambda>(k, v) t. map_option snd (insert_new k v t)) kvs s1 = Some s2" "ok s2"
    "absm s2 = map_of kvs ++ absm s1" by blast
  have "absm s2 = map_of (kv # kvs) ++ absm s"
    unfolding s2(3) s1(3) kv by (auto simp: fun_eq_iff map_add_def split: option.splits)
  with s1(1) s2(1,2) show ?case unfolding kv by (auto simp: fun_upd_def)
qed simp

lemma put_all:
  "ok s \<Longrightarrow> \<exists>s'. fold_opt (\<lambda>(k, v). put_key k v) kvs s = Some s' \<and> ok s' \<and>
     absm s' = absm s ++ map_of (rev kvs)"
proof (induction kvs arbitrary: s)
  case (Cons kv kvs)
  obtain k v where kv: "kv = (k, v)" by (cases kv)
  from put_law [OF Cons.prems, of k v] obtain s1 where s1: "put_key k v s = Some s1" "ok s1"
    "absm s1 = (absm s)(k \<mapsto> v)" by blast
  from Cons.IH [OF s1(2)] obtain s2 where
    s2: "fold_opt (\<lambda>(k, v). put_key k v) kvs s1 = Some s2" "ok s2"
    "absm s2 = absm s1 ++ map_of (rev kvs)" by blast
  have "absm s2 = absm s ++ map_of (rev (kv # kvs))"
    unfolding s2(3) s1(3) kv by (auto simp: fun_eq_iff map_add_def split: option.splits)
  with s1(1) s2(1,2) show ?case by (simp add: kv)
qed simp

end

interpretation sl: kv_store sl_ok sl_abs search_element insert_element insert_set_element delete_element
proof unfold_locales
  fix s :: "('k::linorder, 'v) SkipList" and k :: 'k and v :: 'v
  assume "sl_ok s"
  then obtain xs where inv: "sl_inv s xs" by (auto simp: sl_ok_def)
  show "search_element k s = Some (sl_abs s k)" by (rule search_element_correct [OF inv])
  show "\<exists>s'. insert_element k v s = Some (if sl_abs s k = None then 0 else 1, s') \<and> sl_ok s' \<and>
      sl_abs s' = (if sl_abs s k = None then (sl_abs s)(k \<mapsto> v) else sl_abs s)"
    using insert_element_absent [OF inv, of k v] insert_element_present [OF inv, of k v] inv
    by (cases "sl_abs s k") (auto simp: sl_ok_def)
  show "\<exists>s'. insert_set_element k v s = Some s' \<and> sl_ok s' \<and> sl_abs s' = (sl_abs s)(k \<mapsto> v)"
    using insert_set_element_correct [OF inv, of k v] by (auto simp: sl_ok_def)
  show "\<exists>s'. delete_element k s = Some s' \<and> sl_ok s' \<and> sl_abs s' = (sl_abs s)(k := None)"
    using delete_element_correct [OF inv, of k] by (auto simp: sl_ok_def)
qed

lemma load_zip:
  assumes "length ks \<le> length vs"
  shows "fold_opt (\<lambda>i s. if i < length vs then map_option snd (insert_element (ks ! i) (vs ! i) s) else None)
      [0..<length ks] s = fold_opt (\<lambda>(k, v) t. map_option snd (insert_element k v t)) (zip ks vs) s"
proof -
  have "fold_opt (\<lambda>i s. if i < length vs then map_option snd (insert_element (ks ! i) (vs ! i) s) else None)
      [0..<n] s = fold_opt (\<lambda>(k, v) t. map_option snd (insert_element k v t)) (take n (zip ks vs)) s"
    if "n \<le> length ks" for n
    using that
  proof (induction n)
    case (Suc n)
    then show ?case using assms
      by (simp add: fold_opt_append take_Suc_conv_app_nth split: Option.bind_split)
  qed simp
  from this [of "length ks"] assms show ?thesis by simp
qed

text \<open>\<open>clear\<close> frees the chain behind a node, the last node first.\<close>

lemma sl_clear_chain:
  "chain h a xs \<Longrightarrow> distinct (a # xs) \<Longrightarrow>
     sl_clear h a = Some (\<lambda>b. if b \<in> set (a # xs) then None else h b)"
proof (induction h a xs rule: chain.induct)
  case (1 h a)
  then have "fwd h a 0 = Some (nxt h 0 [])" by (intro fwd_node_ok) auto
  moreover from 1 have "h a \<noteq> None" by (auto simp: node_ok_def)
  ultimately show ?case by (subst sl_clear.simps) (auto simp: nxt_def free_node_def)
next
  case (2 h a b xs)
  then have "fwd h a 0 = Some (nxt h 0 (b # xs))" by (intro fwd_node_ok) auto
  moreover from 2 have "h a \<noteq> None" by (auto simp: node_ok_def)
  ultimately show ?case using 2
    by (subst sl_clear.simps) (auto simp: nxt_def free_node_def fun_eq_iff)
qed

subsection \<open>Properties of the skip list\<close>

datatype ('k, 'v) sl_op = OpInsert 'k 'v | OpSet 'k 'v | OpDelete 'k | OpSearch 'k

datatype 'v sl_out = OutCode int | OutNone | OutFound "'v option"

fun sl_run :: "('k::linorder, 'v) sl_op list \<Rightarrow> ('k, 'v) SkipList \<Rightarrow> ('v sl_out list \<times> ('k, 'v) SkipList) option" where
  "sl_run [] s = Some ([], s)"
| "sl_run (OpInsert k v # ops) s = do {
     (r, t) \<leftarrow> insert_element k v s; (outs, u) \<leftarrow> sl_run ops t; Some (OutCode r # outs, u) }"
| "sl_run (OpSet k v # ops) s = do {
     t \<leftarrow> insert_set_element k v s; (outs, u) \<leftarrow> sl_run ops t; Some (OutNone # outs, u) }"
| "sl_run (OpDelete k # ops) s = do {
     t \<leftarrow> delete_element k s; (outs, u) \<leftarrow> sl_run ops t; Some (OutNone # outs, u) }"
| "sl_run (OpSearch k # ops) s = do {
     r \<leftarrow> search_element k s; (outs, u) \<leftarrow> sl_run ops s; Some (OutFound r # outs, u) }"

fun map_run :: "('k, 'v) sl_op list \<Rightarrow> ('k \<Rightarrow> 'v option) \<Rightarrow> 'v sl_out list \<times> ('k \<Rightarrow> 'v option)" where
  "map_run [] m = ([], m)"
| "map_run (OpInsert k v # ops) m =
     (let (outs, m') = map_run ops (if m k = None then m(k \<mapsto> v) else m)
      in (OutCode (if m k = None then 0 else 1) # outs, m'))"
| "map_run (OpSet k v # ops) m = (let (outs, m') = map_run ops (m(k \<mapsto> v)) in (OutNone # outs, m'))"
| "map_run (OpDelete k # ops) m = (let (outs, m') = map_run ops (m(k := None)) in (OutNone # outs, m'))"
| "map_run (OpSearch k # ops) m = (let (outs, m') = map_run ops m in (OutFound (m k) # outs, m'))"

text \<open>C20. The skip list is a finite map: any sequence of insertions, replacements, deletions and
  searches on a well-formed list returns, with whatever random levels a fair \<open>rand()\<close> draws, gives
  the answers of the map, leaves the list well-formed and standing for the resulting map, and its
  size is the number of keys of the map.\<close>

theorem skiplist_refines_map:
  assumes "sl_ok s"
  shows "\<exists>t. sl_run ops s = Some (fst (map_run ops (sl_abs s)), t) \<and> sl_ok t \<and>
    sl_abs t = snd (map_run ops (sl_abs s)) \<and> sl_size t = int (card (dom (sl_abs t)))"
  using assms
proof (induction ops arbitrary: s)
  case Nil
  then show ?case using size_inv by (auto simp: sl_ok_def)
next
  case (Cons op ops)
  show ?case
  proof (cases op)
    case (OpInsert k v)
    from sl.insert_law [OF Cons.prems, of k v] obtain s1 where
      s1: "insert_element k v s = Some (if sl_abs s k = None then 0 else 1, s1)" "sl_ok s1"
      "sl_abs s1 = (if sl_abs s k = None then (sl_abs s)(k \<mapsto> v) else sl_abs s)" by blast
    obtain outs m' where run: "map_run ops (sl_abs s1) = (outs, m')" by fastforce
    from Cons.IH [OF s1(2)] run obtain t where t: "sl_run ops s1 = Some (outs, t)" "sl_ok t"
      "sl_abs t = m'" "sl_size t = int (card (dom (sl_abs t)))" by auto
    have "map_run (op # ops) (sl_abs s) = (OutCode (if sl_abs s k = None then 0 else 1) # outs, m')"
      unfolding OpInsert map_run.simps s1(3) [symmetric] run by simp
    with t s1(1) show ?thesis by (simp add: OpInsert)
  next
    case (OpSet k v)
    from sl.put_law [OF Cons.prems, of k v] obtain s1 where
      s1: "insert_set_element k v s = Some s1" "sl_ok s1" "sl_abs s1 = (sl_abs s)(k \<mapsto> v)" by blast
    obtain outs m' where run: "map_run ops (sl_abs s1) = (outs, m')" by fastforce
    from Cons.IH [OF s1(2)] run obtain t where t: "sl_run ops s1 = Some (outs, t)" "sl_ok t"
      "sl_abs t = m'" "sl_size t = int (card (dom (sl_abs t)))" by auto
    have "map_run (op # ops) (sl_abs s) = (OutNone # outs, m')"
      unfolding OpSet map_run.simps s1(3) [symmetric] run by simp
    with t s1(1) show ?thesis by (simp add: OpSet)
  next
    case (OpDelete k)
    from sl.remove_law [OF Cons.prems, of k] obtain s1 where
      s1: "delete_element k s = Some s1" "sl_ok s1" "sl_abs s1 = (sl_abs s)(k := None)" by blast
    obtain outs m' where run: "map_run ops (sl_abs s1) = (outs, m')" by fastforce
    from Cons.IH [OF s1(2)] run obtain t where t: "sl_run ops s1 = Some (outs, t)" "sl_ok t"
      "sl_abs t = m'" "sl_size t = int (card (dom (sl_abs t)))" by auto
    have "map_run (op # ops) (sl_abs s) = (OutNone # outs, m')"
      unfolding OpDelete map_run.simps s1(3) [symmetric] run by simp
    with t s1(1) show ?thesis by (simp add: OpDelete)
  next
    case (OpSearch k)
    from Cons.IH [OF Cons.prems] sl.find_law [OF Cons.prems, of k] show ?thesis
      by (auto simp: OpSearch split: prod.splits)
  qed
qed

lemma fair_alternating: "fair (\<lambda>p. Suc p mod 2)"
  unfolding fair_def
proof
  fix p :: nat
  show "\<exists>q \<ge> p. even (Suc q mod 2)" by (intro exI [of _ "2 * p + 1"]) simp
qed

lemma sl_ok_ctor:
  fixes k0 :: "'k::linorder"
  shows "fair rnd \<Longrightarrow> sl_ok (SkipList_ctor maxl k0 v0 rnd)"
  unfolding sl_ok_def by (rule exI) (rule sl_inv_ctor)

theorem skiplist_refines_map_witness:
  "\<exists>t. sl_run [OpInsert 3 ''c'', OpInsert 1 ''a'', OpSet 3 ''d'', OpInsert 1 ''z'', OpSearch 3, OpDelete 1, OpSearch 1]
      (SkipList_ctor 6 (0 :: int) [] (\<lambda>p. Suc p mod 2)) =
    Some ([OutCode 0, OutCode 0, OutNone, OutCode 1, OutFound (Some ''d''), OutNone, OutFound None], t) \<and>
    sl_size t = 1"
proof -
  let ?s = "SkipList_ctor 6 (0 :: int) ([] :: string) (\<lambda>p. Suc p mod 2)"
  have a: "sl_abs ?s = Map.empty" by (rule sl_abs_ctor [OF fair_alternating])
  show ?thesis
    using skiplist_refines_map [OF sl_ok_ctor [OF fair_alternating], of "[OpInsert 3 ''c'',
      OpInsert 1 ''a'', OpSet 3 ''d'', OpInsert 1 ''z'', OpSearch 3, OpDelete 1, OpSearch 1]" 6 "0 :: int" "[]"]
    unfolding a by auto
qed

lemma load_dumped:
  assumes "sl_ok s" "sl_ok t" and "dump_file D s = Some d" "d \<noteq> []"
    and codec: "\<And>kvs. dump_nodes s = Some kvs \<Longrightarrow> dump_in D d = Some (map fst kvs, map snd kvs)"
  shows "\<exists>u. load_file D d t = Some u \<and> sl_ok u \<and> sl_abs u = sl_abs s ++ sl_abs t"
proof -
  obtain xs where xs: "sl_inv s xs" using assms(1) by (auto simp: sl_ok_def)
  let ?kvs = "entries (heap s) xs"
  have "dump_in D d = Some (map fst ?kvs, map snd ?kvs)" using codec dump_nodes_inv [OF xs] by blast
  then have "load_file D d t =
      fold_opt (\<lambda>(k, v) t. map_option snd (insert_element k v t)) (zip (map fst ?kvs) (map snd ?kvs)) t"
    using assms(4) load_zip [of "map fst ?kvs" "map snd ?kvs" t] by (simp add: load_file_def)
  then show ?thesis
    using sl.insert_all [OF assms(2), of ?kvs] sl_abs_inv [OF xs] by (simp add: zip_map_fst_snd)
qed

text \<open>Whatever the decoder returns, a load that ends without a fault adds the missing keys.\<close>

definition loaded :: "('k::linorder, 'v) dump_codec \<Rightarrow> string \<Rightarrow> ('k \<Rightarrow> 'v option) \<Rightarrow> 'k \<Rightarrow> 'v option" where
  "loaded D d m = (if d = [] then m else case dump_in D d of None \<Rightarrow> m | Some (ks, vs) \<Rightarrow> map_of (zip ks vs) ++ m)"

lemma fold_opt_step: "fold_opt f xs s = Some t \<Longrightarrow> x \<in> set xs \<Longrightarrow> \<exists>u v. f x u = Some v"
  by (induction xs arbitrary: s) (auto split: Option.bind_splits)

lemma load_file_loaded:
  assumes "sl_ok s" "load_file D d s = Some t"
  shows "sl_ok t \<and> sl_abs t = loaded D d (sl_abs s)"
proof (cases "d = []")
  case True
  with assms show ?thesis by (simp add: load_file_def loaded_def)
next
  case False
  with assms(2) obtain ks vs where k: "dump_in D d = Some (ks, vs)"
    "fold_opt (\<lambda>i s. if i < length vs then map_option snd (insert_element (ks ! i) (vs ! i) s) else None) [0..<length ks] s = Some t"
    by (auto simp: load_file_def split: Option.bind_splits)
  have "i < length vs" if "i < length ks" for i using fold_opt_step [OF k(2), of i] that by (auto split: if_splits)
  then have le: "length ks \<le> length vs" by (meson leI less_irrefl)
  from sl.insert_all [OF assms(1), of "zip ks vs"] k False show ?thesis
    by (auto simp: load_zip [OF le] loaded_def)
qed

text \<open>\<open>load_file\<close> of a dump never replaces a value: every key the list already has keeps its
  value, only missing keys are added. On a fresh list it restores the dumped map.\<close>

theorem load_file_keeps_existing:
  assumes "sl_ok s" "sl_ok t" and "dump_file D s = Some d" "d \<noteq> []"
    and codec: "\<And>p. dump_in D (dump_out D p) = Some p"
  shows "\<exists>u. load_file D d t = Some u \<and> sl_ok u \<and> sl_abs u = sl_abs s ++ sl_abs t"
  using assms(3) codec by (intro load_dumped [OF assms(1-4)]) (auto simp: dump_file_def)

text \<open>A dump lists the map in strictly ascending key order.\<close>

theorem dump_sorted:
  assumes "sl_ok s"
  shows "\<exists>kvs. dump_nodes s = Some kvs \<and> sorted_wrt (<) (map fst kvs) \<and> map_of kvs = sl_abs s"
proof -
  obtain xs where xs: "sl_inv s xs" using assms by (auto simp: sl_ok_def)
  then have "sorted_wrt (<) (map fst (entries (heap s) xs))"
    by (simp add: sl_inv_def ascending_def entries_def sorted_wrt_map o_def)
  with dump_nodes_inv [OF xs] sl_abs_inv [OF xs] show ?thesis by simp
qed

text \<open>The destructor frees every node of the list and its header exactly once: no pointer is
  followed after it was freed, nothing is freed twice, and nothing of the list is left.\<close>

theorem SkipList_dtor_frees_all:
  assumes "sl_ok s"
  shows "SkipList_dtor s = Some Map.empty"
proof -
  obtain xs where xs: "sl_inv s xs" using assms by (auto simp: sl_ok_def)
  then have i: "chain (heap s) (header s) xs" "distinct (header s # xs)" "dom (heap s) = set (header s # xs)"
    by (simp_all add: sl_inv_def)
  have f: "fwd (heap s) (header s) 0 = Some (nxt (heap s) 0 xs)"
    using chain_node_ok [OF i(1)] by (rule fwd_node_ok) simp
  have none: "heap s a = None" if "a \<notin> set (header s # xs)" for a using i(3) that by blast
  have hd: "heap s (header s) \<noteq> None" using i(3) by auto
  show ?thesis
  proof (cases xs)
    case Nil
    then have "SkipList_dtor s = Some ((heap s)(header s := None))"
      using f hd by (simp add: SkipList_dtor_def nxt_first first_of_def free_node_def)
    moreover have "(heap s)(header s := None) = Map.empty" using none Nil by (simp add: fun_eq_iff)
    ultimately show ?thesis by simp
  next
    case (Cons b ys)
    let ?h = "\<lambda>a. if a \<in> set xs then None else heap s a"
    have "sl_clear (heap s) b = Some ?h" using i(1,2) unfolding Cons by (intro sl_clear_chain) simp_all
    then have "SkipList_dtor s = free_node (header s) ?h"
      using f by (simp add: SkipList_dtor_def nxt_first first_of_def Cons)
    also have "\<dots> = Some (?h(header s := None))" using i(2) hd by (simp add: free_node_def)
    also have "?h(header s := None) = Map.empty" using none by (simp add: fun_eq_iff)
    finally show ?thesis .
  qed
qed

theorem SkipList_dtor_frees_all_witness:
  "\<exists>t. insert_element 7 ''x'' (SkipList_ctor 6 (0 :: int) [] (\<lambda>p. Suc p mod 2)) = Some (0, t) \<and>
     SkipList_dtor t = Some Map.empty"
proof -
  let ?s = "SkipList_ctor 6 (0 :: int) ([] :: string) (\<lambda>p. Suc p mod 2)"
  have ok: "sl_ok ?s" "sl_abs ?s = Map.empty"
    by (rule sl_ok_ctor [OF fair_alternating], rule sl_abs_ctor [OF fair_alternating])
  from sl.insert_law [OF ok(1), of 7 "''x''"] ok(2) obtain t where
    "insert_element 7 ''x'' ?s = Some (0, t)" "sl_ok t" by auto
  with SkipList_dtor_frees_all show ?thesis by blast
qed

theorem dump_sorted_witness:
  "\<exists>t kvs. insert_set_element 7 ''x'' (SkipList_ctor 6 (0 :: int) [] (\<lambda>p. Suc p mod 2)) = Some t \<and>
     dump_nodes t = Some kvs \<and> map_of kvs = [7 \<mapsto> ''x''] \<and> sorted_wrt (<) (map fst kvs)"
proof -
  let ?s = "SkipList_ctor 6 (0 :: int) ([] :: string) (\<lambda>p. Suc p mod 2)"
  have ok: "sl_ok ?s" "sl_abs ?s = Map.empty"
    by (rule sl_ok_ctor [OF fair_alternating], rule sl_abs_ctor [OF fair_alternating])
  from sl.put_law [OF ok(1), of 7 "''x''"] ok(2) obtain t where
    "insert_set_element 7 ''x'' ?s = Some t" "sl_ok t" "sl_abs t = [7 \<mapsto> ''x'']" by auto
  with dump_sorted [of t] show ?thesis by auto
qed

text \<open>A codec for the closed example: the number of keys in unary, then both vectors.\<close>

definition char_codec :: "(char, char) dump_codec" where
  "char_codec = \<lparr>dump_out = (\<lambda>(ks, vs). replicate (length ks) CHR ''k'' @ CHR '':'' # ks @ vs),
     dump_in = (\<lambda>str. let n = length (takeWhile (\<lambda>c. c = CHR ''k'') str); rest = drop (n + 1) str
       in Some (take n rest, drop n rest))\<rparr>"

lemma char_codec_reads_back: "dump_in char_codec (dump_out char_codec p) = Some p"
proof -
  have "takeWhile (\<lambda>c. c = CHR ''k'') (replicate n CHR ''k'' @ CHR '':'' # xs) = replicate n CHR ''k''" for n xs
    by (induction n) simp_all
  then show ?thesis by (cases p) (simp add: char_codec_def Let_def)
qed

theorem load_file_keeps_existing_witness:
  "\<exists>s t d u. insert_element CHR ''a'' CHR ''1'' (SkipList_ctor 6 CHR '' '' CHR '' '' (\<lambda>p. Suc p mod 2)) = Some (0, s) \<and>
     insert_element CHR ''a'' CHR ''2'' (SkipList_ctor 6 CHR '' '' CHR '' '' (\<lambda>p. Suc p mod 2)) = Some (0, t) \<and>
     dump_file char_codec s = Some d \<and> load_file char_codec d t = Some u \<and> sl_abs u CHR ''a'' = Some CHR ''2''"
proof -
  let ?s = "SkipList_ctor 6 CHR '' '' CHR '' '' (\<lambda>p. Suc p mod 2)"
  have ok: "sl_ok ?s" "sl_abs ?s = Map.empty"
    by (rule sl_ok_ctor [OF fair_alternating], rule sl_abs_ctor [OF fair_alternating])
  have ins: "\<exists>t. insert_element CHR ''a'' v ?s = Some (0, t) \<and> sl_ok t \<and> sl_abs t = [CHR ''a'' \<mapsto> v]" for v
    using sl.insert_law [OF ok(1), of "CHR ''a''" v] ok(2) by auto
  from ins obtain s t where
    s: "insert_element CHR ''a'' CHR ''1'' ?s = Some (0, s)" "sl_ok s" "sl_abs s = [CHR ''a'' \<mapsto> CHR ''1'']" and
    t: "insert_element CHR ''a'' CHR ''2'' ?s = Some (0, t)" "sl_ok t" "sl_abs t = [CHR ''a'' \<mapsto> CHR ''2'']"
    by metis
  obtain xs where xs: "sl_inv s xs" using s(2) by (auto simp: sl_ok_def)
  obtain d where d: "dump_file char_codec s = Some d" "d \<noteq> []"
    using dump_nodes_inv [OF xs] by (simp add: dump_file_def char_codec_def)
  from load_file_keeps_existing [OF s(2) t(2) d char_codec_reads_back] s t d show ?thesis by auto
qed

end
