(* ===== verification/KvServer.thy ===== *)
theory KvServer
  imports RaftRecovery SkipList
begin

text \<open>
  src/raftCore/KvServer.cpp: the server of one node. Requests go into the raft log; a loop takes the
  committed commands from the channel of the raft node, applies them to the skip list and wakes the
  request that waits for the log index; snapshots are made when the log is large and installed when
  the raft node sends one. A request handler is split at its only blocking call, \<open>timeoutPop\<close>: the
  part before, the wait, and the part after. Channels for waiting requests live in a heap, because
  the code deletes them through pointers.
\<close>

record GetArgs = ga_key :: string  ga_clientid :: string  ga_requestid :: int
record GetReply = gr_err :: string  gr_value :: string
record PutAppendArgs =
  pa_key :: string  pa_value :: string  pa_op :: string  pa_clientid :: string  pa_requestid :: int
record PutAppendReply = pr_err :: string

record KvServer =
  kv_me :: int
  m_raftNode :: Raft
  m_maxRaftState :: int
  m_serializedKVData :: string
  m_skipList :: "(string, string) SkipList"
  waitApplyCh :: "int \<Rightarrow> addr option option"
  channels :: "addr \<Rightarrow> Op LockQueue option"
  next_channel :: addr
  m_lastRequestId :: "string \<Rightarrow> int option"
  m_lastSnapshotRaftLogIndex :: int

text \<open>The archive of the server's own members (\<open>serialize\<close>), and of the skip list dump.\<close>

record kv_codec =
  kv_out :: "string \<times> (string \<Rightarrow> int option) \<Rightarrow> string"
  kv_in :: "string \<Rightarrow> (string \<times> (string \<Rightarrow> int option)) option"
  kv_dump :: "(string, string) dump_codec"

text \<open>A call of the skip list that does not return.\<close>

definition list_res :: "'a option \<Rightarrow> 'a res" where
  "list_res r = (case r of None \<Rightarrow> Inl NoReturn | Some x \<Rightarrow> Inr x)"

lemma list_res_simps [simp]: "list_res (Some x) = Inr x" "list_res None = Inl NoReturn"
  by (simp_all add: list_res_def)

subsection \<open>Executing a command\<close>

definition DprintfKVDB :: "KvServer \<Rightarrow> unit res" where
  "DprintfKVDB s = bindR (list_res (display_list (m_skipList s))) (\<lambda>_. Inr ())"

definition ExecuteAppendOpOnKVDB :: "Op \<Rightarrow> KvServer \<Rightarrow> KvServer res" where
  "ExecuteAppendOpOnKVDB op s =
     bindR (list_res (insert_set_element (key op) (opvalue op) (m_skipList s))) (\<lambda>l.
     let s1 = s\<lparr>m_skipList := l, m_lastRequestId := (m_lastRequestId s)(clientId op \<mapsto> requestId op)\<rparr>
     in bindR (DprintfKVDB s1) (\<lambda>_. Inr s1))"

definition ExecuteGetOpOnKVDB :: "Op \<Rightarrow> KvServer \<Rightarrow> (string \<times> bool \<times> KvServer) res" where
  "ExecuteGetOpOnKVDB op s =
     bindR (list_res (search_element (key op) (m_skipList s))) (\<lambda>r.
     let s1 = s\<lparr>m_lastRequestId := (m_lastRequestId s)(clientId op \<mapsto> requestId op)\<rparr>;
         (v, exist) = (case r of Some v \<Rightarrow> (v, True) | None \<Rightarrow> ([], False))
     in bindR (DprintfKVDB s1) (\<lambda>_. Inr (v, exist, s1)))"

definition ExecutePutOpOnKVDB :: "Op \<Rightarrow> KvServer \<Rightarrow> KvServer res" where
  "ExecutePutOpOnKVDB op s =
     bindR (list_res (insert_set_element (key op) (opvalue op) (m_skipList s))) (\<lambda>l.
     let s1 = s\<lparr>m_skipList := l, m_lastRequestId := (m_lastRequestId s)(clientId op \<mapsto> requestId op)\<rparr>
     in bindR (DprintfKVDB s1) (\<lambda>_. Inr s1))"

definition ifRequestDuplicate :: "string \<Rightarrow> int \<Rightarrow> KvServer \<Rightarrow> bool" where
  "ifRequestDuplicate client request s =
     (case m_lastRequestId s client of None \<Rightarrow> False | Some latest \<Rightarrow> request \<le> latest)"

subsection \<open>Snapshots\<close>

definition GetSnapShotData :: "kv_codec \<Rightarrow> KvServer \<Rightarrow> (string \<times> KvServer) res" where
  "GetSnapShotData K s =
     bindR (list_res (dump_file (kv_dump K) (m_skipList s))) (\<lambda>d.
     Inr (kv_out K (d, m_lastRequestId s), s\<lparr>m_serializedKVData := []\<rparr>))"

definition MakeSnapShot :: "kv_codec \<Rightarrow> KvServer \<Rightarrow> (string \<times> KvServer) res" where
  "MakeSnapShot K s = GetSnapShotData K s"

definition ParseFromString :: "kv_codec \<Rightarrow> string \<Rightarrow> KvServer \<Rightarrow> KvServer res" where
  "ParseFromString K str s =
     (case kv_in K str of None \<Rightarrow> Inl ArchiveError
      | Some (d, requests) \<Rightarrow>
          bindR (list_res (load_file (kv_dump K) d (m_skipList s))) (\<lambda>l.
          Inr (s\<lparr>m_skipList := l, m_lastRequestId := requests, m_serializedKVData := []\<rparr>)))"

definition ReadSnapShotToInstall :: "kv_codec \<Rightarrow> string \<Rightarrow> KvServer \<Rightarrow> KvServer res" where
  "ReadSnapShotToInstall K snapshot s = (if snapshot = [] then Inr s else ParseFromString K snapshot s)"

definition GetSnapShotFromRaft :: "kv_codec \<Rightarrow> ApplyMsg \<Rightarrow> KvServer \<Rightarrow> KvServer res" where
  "GetSnapShotFromRaft K msg s =
     (if CondInstallSnapshot (SnapshotTerm msg) (SnapshotIndex msg) (Snapshot_data msg)
      then bindR (ReadSnapShotToInstall K (Snapshot_data msg) s) (\<lambda>s1.
           Inr (s1\<lparr>m_lastSnapshotRaftLogIndex := SnapshotIndex msg\<rparr>))
      else Inr s)"

text \<open>
  The comparison \<open>size > m_maxRaftState / 10.0\<close> of an integer with a double; the argument
  \<open>proportion\<close> is not used by the code.
\<close>

definition IfNeedToSendSnapShotCommand ::
  "raft_codec \<Rightarrow> kv_codec \<Rightarrow> int \<Rightarrow> int \<Rightarrow> KvServer \<Rightarrow> KvServer res" where
  "IfNeedToSendSnapShotCommand C K raftIndex proportion s =
     (if 10 * GetRaftStateSize (m_raftNode s) > m_maxRaftState s
      then bindR (MakeSnapShot K s) (\<lambda>(snapshot, s1).
           bindR (Snapshot C raftIndex snapshot (m_raftNode s1)) (\<lambda>r.
           Inr (s1\<lparr>m_raftNode := r\<rparr>)))
      else Inr s)"

subsection \<open>The apply loop\<close>

definition SendMessageToWaitChan :: "Op \<Rightarrow> int \<Rightarrow> KvServer \<Rightarrow> (bool \<times> KvServer) res" where
  "SendMessageToWaitChan op raftIndex s =
     (case waitApplyCh s raftIndex of
        None \<Rightarrow> Inr (False, s)
      | Some None \<Rightarrow> Inl NullDeref
      | Some (Some a) \<Rightarrow>
          (case channels s a of None \<Rightarrow> Inl NullDeref
           | Some q \<Rightarrow> Inr (True, s\<lparr>channels := (channels s)(a \<mapsto> Push op q)\<rparr>)))"

definition GetCommandFromRaft :: "raft_codec \<Rightarrow> kv_codec \<Rightarrow> ApplyMsg \<Rightarrow> KvServer \<Rightarrow> KvServer res" where
  "GetCommandFromRaft C K msg s =
     (case iaOp C (Command msg) of None \<Rightarrow> Inl ArchiveError
      | Some op \<Rightarrow>
        if CommandIndex msg \<le> m_lastSnapshotRaftLogIndex s then Inr s
        else
          bindR (if \<not> ifRequestDuplicate (clientId op) (requestId op) s
                 then bindR (if operation op = ''Put'' then ExecutePutOpOnKVDB op s else Inr s) (\<lambda>s1.
                      if operation op = ''Append'' then ExecuteAppendOpOnKVDB op s1 else Inr s1)
                 else Inr s) (\<lambda>s2.
          bindR (if m_maxRaftState s2 \<noteq> -1
                 then IfNeedToSendSnapShotCommand C K (CommandIndex msg) 9 s2 else Inr s2) (\<lambda>s3.
          bindR (SendMessageToWaitChan op (CommandIndex msg) s3) (\<lambda>(sent, s4). Inr s4))))"

text \<open>One turn of \<open>ReadRaftApplyCommandLoop\<close>: \<open>None\<close> while the channel is empty.\<close>

definition apply_turn :: "raft_codec \<Rightarrow> kv_codec \<Rightarrow> KvServer \<Rightarrow> KvServer res option" where
  "apply_turn C K s =
     (case pop (applyChan (m_raftNode s)) of None \<Rightarrow> None
      | Some (msg, q) \<Rightarrow>
          let s0 = s\<lparr>m_raftNode := (m_raftNode s)\<lparr>applyChan := q\<rparr>\<rparr> in
          Some (bindR (if CommandValid msg then GetCommandFromRaft C K msg s0 else Inr s0) (\<lambda>s1.
                if SnapShotValid msg then GetSnapShotFromRaft K msg s1 else Inr s1)))"

fun apply_turns :: "raft_codec \<Rightarrow> kv_codec \<Rightarrow> nat \<Rightarrow> KvServer \<Rightarrow> KvServer res option" where
  "apply_turns C K 0 s = Some (Inr s)"
| "apply_turns C K (Suc n) s =
     (case apply_turn C K s of None \<Rightarrow> None | Some (Inl e) \<Rightarrow> Some (Inl e)
      | Some (Inr t) \<Rightarrow> apply_turns C K n t)"

subsection \<open>Requests\<close>

datatype 'r pending = Replied 'r | Waiting Op int "addr option"

definition submit :: "raft_codec \<Rightarrow> Op \<Rightarrow> KvServer \<Rightarrow> int \<times> bool \<times> KvServer" where
  "submit C op s = (let (idx, term, isLeader, r) = Start C op (m_raftNode s)
     in (idx, isLeader, s\<lparr>m_raftNode := r\<rparr>))"

text \<open>\<open>new LockQueue<Op>()\<close>, with the address \<open>emplace\<close> is given.\<close>

definition new_channel :: "KvServer \<Rightarrow> addr \<times> KvServer" where
  "new_channel s = (next_channel s,
     s\<lparr>channels := (channels s)(next_channel s \<mapsto> newLockQueue), next_channel := next_channel s + 1\<rparr>)"

definition emplace :: "int \<Rightarrow> addr \<Rightarrow> KvServer \<Rightarrow> KvServer" where
  "emplace idx a s =
     (if waitApplyCh s idx = None then s\<lparr>waitApplyCh := (waitApplyCh s)(idx \<mapsto> Some a)\<rparr> else s)"

text \<open>\<open>waitApplyCh[idx]\<close>: a missing entry is created, holding a null pointer.\<close>

definition subscript :: "int \<Rightarrow> KvServer \<Rightarrow> addr option \<times> KvServer" where
  "subscript idx s = (case waitApplyCh s idx of Some p \<Rightarrow> (p, s)
     | None \<Rightarrow> (None, s\<lparr>waitApplyCh := (waitApplyCh s)(idx \<mapsto> None)\<rparr>))"

definition get_op :: "GetArgs \<Rightarrow> Op" where
  "get_op args = \<lparr>operation = ''Get'', key = ga_key args, opvalue = [], clientId = ga_clientid args,
     requestId = ga_requestid args\<rparr>"

text \<open>The locked section in which a handler gets the channel it will wait on.\<close>

definition get_channel :: "int \<Rightarrow> KvServer \<Rightarrow> addr option \<times> KvServer" where
  "get_channel raftIndex s =
     subscript raftIndex
       (if waitApplyCh s raftIndex \<noteq> None then (let (a, s') = new_channel s in emplace raftIndex a s') else s)"

definition put_channel :: "int \<Rightarrow> KvServer \<Rightarrow> addr option \<times> KvServer" where
  "put_channel raftIndex s =
     subscript raftIndex
       (if waitApplyCh s raftIndex = None then (let (a, s') = new_channel s in emplace raftIndex a s') else s)"

definition Get_begin :: "raft_codec \<Rightarrow> GetArgs \<Rightarrow> GetReply \<Rightarrow> KvServer \<Rightarrow> GetReply pending \<times> KvServer" where
  "Get_begin C args reply s =
     (let op = get_op args; (raftIndex, isLeader, s1) = submit C op s in
      if \<not> isLeader then (Replied (reply\<lparr>gr_err := ErrWrongLeader\<rparr>), s1)
      else
        let (ch, s2) = get_channel raftIndex s1 in (Waiting op raftIndex ch, s2))"

definition put_op :: "PutAppendArgs \<Rightarrow> Op" where
  "put_op args = \<lparr>operation = pa_op args, key = pa_key args, opvalue = pa_value args,
     clientId = pa_clientid args, requestId = pa_requestid args\<rparr>"

definition PutAppend_begin ::
  "raft_codec \<Rightarrow> PutAppendArgs \<Rightarrow> PutAppendReply \<Rightarrow> KvServer \<Rightarrow> PutAppendReply pending \<times> KvServer" where
  "PutAppend_begin C args reply s =
     (let op = put_op args; (raftIndex, isLeader, s1) = submit C op s in
      if \<not> isLeader then (Replied (reply\<lparr>pr_err := ErrWrongLeader\<rparr>), s1)
      else
        let (ch, s2) = put_channel raftIndex s1 in (Waiting op raftIndex ch, s2))"

text \<open>
  The wait: \<open>timedout\<close> says whether the wait on the condition variable ends by timeout. The result
  is \<open>None\<close> while the request still waits, \<open>Some None\<close> after a timeout, \<open>Some (Some op)\<close> when a
  command was popped.
\<close>

definition wait_channel :: "addr option \<Rightarrow> bool \<Rightarrow> KvServer \<Rightarrow> (Op option option \<times> KvServer) res" where
  "wait_channel ch timedout s =
     (case ch of None \<Rightarrow> Inl NullDeref
      | Some a \<Rightarrow>
          (case channels s a of None \<Rightarrow> Inl NullDeref
           | Some q \<Rightarrow>
               (case timeoutPop q [([], timedout)] of None \<Rightarrow> Inr (None, s)
                | Some (r, q') \<Rightarrow> Inr (Some r, s\<lparr>channels := (channels s)(a \<mapsto> q')\<rparr>))))"

text \<open>The end of both handlers: the channel is taken out of the map and deleted.\<close>

definition drop_channel :: "int \<Rightarrow> KvServer \<Rightarrow> KvServer" where
  "drop_channel raftIndex s =
     (let (tmp, s1) = subscript raftIndex s;
          s2 = s1\<lparr>waitApplyCh := (waitApplyCh s1)(raftIndex := None)\<rparr>
      in (case tmp of None \<Rightarrow> s2 | Some a \<Rightarrow> s2\<lparr>channels := (channels s2)(a := None)\<rparr>))"

definition get_reply :: "Op \<Rightarrow> GetReply \<Rightarrow> KvServer \<Rightarrow> (GetReply \<times> KvServer) res" where
  "get_reply op reply s =
     bindR (ExecuteGetOpOnKVDB op s) (\<lambda>(v, exist, s1).
     Inr (if exist then reply\<lparr>gr_err := OK, gr_value := v\<rparr>
          else reply\<lparr>gr_err := ErrNoKey, gr_value := []\<rparr>, s1))"

definition Get_end :: "Op \<Rightarrow> int \<Rightarrow> Op option \<Rightarrow> GetReply \<Rightarrow> KvServer \<Rightarrow> (GetReply \<times> KvServer) res" where
  "Get_end op raftIndex popped reply s =
     bindR (case popped of
         None \<Rightarrow>
           if ifRequestDuplicate (clientId op) (requestId op) s then get_reply op reply s
           else Inr (reply\<lparr>gr_err := ErrWrongLeader\<rparr>, s)
       | Some c \<Rightarrow>
           if clientId c = clientId op \<and> requestId c = requestId op then get_reply op reply s
           else Inr (reply\<lparr>gr_err := ErrWrongLeader\<rparr>, s)) (\<lambda>(r, s1).
     Inr (r, drop_channel raftIndex s1))"

definition PutAppend_end ::
  "Op \<Rightarrow> int \<Rightarrow> Op option \<Rightarrow> PutAppendReply \<Rightarrow> KvServer \<Rightarrow> PutAppendReply \<times> KvServer" where
  "PutAppend_end op raftIndex popped reply s =
     (let r = (case popped of
           None \<Rightarrow> if ifRequestDuplicate (clientId op) (requestId op) s then reply\<lparr>pr_err := OK\<rparr>
                   else reply\<lparr>pr_err := ErrWrongLeader\<rparr>
         | Some c \<Rightarrow> if clientId c = clientId op \<and> requestId c = requestId op then reply\<lparr>pr_err := OK\<rparr>
                     else reply\<lparr>pr_err := ErrWrongLeader\<rparr>)
      in (r, drop_channel raftIndex s))"

subsection \<open>The server's invariant\<close>

text \<open>
  \<open>kv_ok\<close>: the list is well-formed, the raft node satisfies its invariant, and every entry of the
  waiting map points to a live channel, no two to the same one.
\<close>

definition wait_ok :: "KvServer \<Rightarrow> bool" where
  "wait_ok s \<longleftrightarrow> (\<forall>i p. waitApplyCh s i = Some p \<longrightarrow> (\<exists>a. p = Some a \<and> channels s a \<noteq> None)) \<and>
     (\<forall>i j a. waitApplyCh s i = Some (Some a) \<longrightarrow> waitApplyCh s j = Some (Some a) \<longrightarrow> i = j) \<and>
     (\<forall>a. channels s a \<noteq> None \<longrightarrow> a < next_channel s)"

definition kv_ok :: "KvServer \<Rightarrow> bool" where
  "kv_ok s \<longleftrightarrow> sl_ok (m_skipList s) \<and> raft_wf (m_raftNode s) \<and> wait_ok s"

text \<open>What remains of it where a request may have left a null pointer in the waiting map.\<close>

definition data_ok :: "KvServer \<Rightarrow> bool" where
  "data_ok s \<longleftrightarrow> sl_ok (m_skipList s) \<and> raft_wf (m_raftNode s)"

lemma kv_ok_iff: "kv_ok s \<longleftrightarrow> data_ok s \<and> wait_ok s"
  by (simp add: kv_ok_def data_ok_def)

lemma wait_ok_simps [simp]:
  "wait_ok (s\<lparr>m_raftNode := r\<rparr>) = wait_ok s" "wait_ok (s\<lparr>m_skipList := l\<rparr>) = wait_ok s"
  "wait_ok (s\<lparr>m_lastRequestId := f\<rparr>) = wait_ok s" "wait_ok (s\<lparr>m_serializedKVData := d\<rparr>) = wait_ok s"
  "wait_ok (s\<lparr>m_lastSnapshotRaftLogIndex := i\<rparr>) = wait_ok s"
  by (simp_all add: wait_ok_def)

text \<open>What the server stands for: the map and the last request of every client.\<close>

type_synonym kv_state = "(string \<Rightarrow> string option) \<times> (string \<Rightarrow> int option)"

definition kv_abs :: "KvServer \<Rightarrow> kv_state" where
  "kv_abs s = (sl_abs (m_skipList s), m_lastRequestId s)"

text \<open>The state machine the log is meant to drive; \<open>Put\<close> and \<open>Append\<close> both store the value.\<close>

definition duplicate :: "Op \<Rightarrow> kv_state \<Rightarrow> bool" where
  "duplicate op st = (case snd st (clientId op) of None \<Rightarrow> False | Some latest \<Rightarrow> requestId op \<le> latest)"

definition kv_apply :: "Op \<Rightarrow> kv_state \<Rightarrow> kv_state" where
  "kv_apply op st =
     (if \<not> duplicate op st \<and> (operation op = ''Put'' \<or> operation op = ''Append'')
      then ((fst st)(key op \<mapsto> opvalue op), (snd st)(clientId op \<mapsto> requestId op)) else st)"

lemma duplicate_iff: "ifRequestDuplicate (clientId op) (requestId op) s = duplicate op (kv_abs s)"
  by (simp add: ifRequestDuplicate_def duplicate_def kv_abs_def)

subsection \<open>The list operations of the server\<close>

lemma level_walk_level:
  assumes "chain h a xs"
  shows "level_walk h i (nxt h i xs) = Some (entries h (filter (\<lambda>b. i \<le> level_of h b) xs))"
  using assms
proof (induction xs arbitrary: a)
  case Nil
  then show ?case by (subst level_walk.simps) (simp add: nxt_def)
next
  case (Cons b xs)
  then have c: "chain h b xs" by simp
  then obtain n where n: "h b = Some n" using chain_head by blast
  show ?case
  proof (cases "i \<le> level_of h b")
    case True
    with chain_node_ok [OF c] have "fwd h b i = Some (nxt h i xs)" by (intro fwd_node_ok)
    with n Cons.IH [OF c] True show ?thesis
      by (subst level_walk.simps) (simp add: nxt_def key_of_def value_of_def)
  next
    case False
    with Cons.IH [OF c] show ?thesis by (simp add: nxt_def)
  qed
qed

lemma display_list_total: "sl_ok s \<Longrightarrow> \<exists>out. display_list s = Some out"
proof -
  assume "sl_ok s"
  then obtain xs where inv: "sl_inv s xs" by (auto simp: sl_ok_def)
  then have c: "chain (heap s) (header s) xs" "level_of (heap s) (header s) = max_level s"
    "skip_list_level s \<le> max_level s" by (simp_all add: sl_inv_def)
  have "\<exists>out'. fold_opt (\<lambda>i out. do {
     f \<leftarrow> fwd (heap s) (header s) i; l \<leftarrow> level_walk (heap s) i f; Some (out @ [l]) }) is out = Some out'"
    if "\<forall>i \<in> set is. i \<le> max_level s" for "is" out
    using that
  proof (induction "is" arbitrary: out)
    case (Cons i "is")
    then have "fwd (heap s) (header s) i = Some (nxt (heap s) i xs)"
      using chain_node_ok [OF c(1)] c(2) by (intro fwd_node_ok) simp_all
    with level_walk_level [OF c(1), of i] Cons show ?case by simp
  qed simp
  then show ?thesis using c(3) by (simp add: display_list_def)
qed

lemma DprintfKVDB_total [simp]: "sl_ok (m_skipList s) \<Longrightarrow> DprintfKVDB s = Inr ()"
  using display_list_total by (fastforce simp: DprintfKVDB_def)

lemma execute_put_total:
  assumes "sl_ok (m_skipList s)"
  shows "\<exists>l. sl_ok l \<and> sl_abs l = (sl_abs (m_skipList s))(key op \<mapsto> opvalue op) \<and>
    ExecutePutOpOnKVDB op s =
      Inr (s\<lparr>m_skipList := l, m_lastRequestId := (m_lastRequestId s)(clientId op \<mapsto> requestId op)\<rparr>)"
proof -
  from sl.put_law [OF assms] obtain l where
    "insert_set_element (key op) (opvalue op) (m_skipList s) = Some l" "sl_ok l"
    "sl_abs l = (sl_abs (m_skipList s))(key op \<mapsto> opvalue op)" by blast
  then show ?thesis by (intro exI [of _ l]) (simp add: ExecutePutOpOnKVDB_def)
qed

lemma append_is_put: "ExecuteAppendOpOnKVDB op s = ExecutePutOpOnKVDB op s"
  by (simp add: ExecuteAppendOpOnKVDB_def ExecutePutOpOnKVDB_def)

lemma execute_get_total:
  assumes "sl_ok (m_skipList s)"
  shows "ExecuteGetOpOnKVDB op s =
    Inr (case sl_abs (m_skipList s) (key op) of Some v \<Rightarrow> v | None \<Rightarrow> [], sl_abs (m_skipList s) (key op) \<noteq> None,
      s\<lparr>m_lastRequestId := (m_lastRequestId s)(clientId op \<mapsto> requestId op)\<rparr>)"
  using sl.find_law [OF assms] assms by (simp add: ExecuteGetOpOnKVDB_def split: option.split)

lemma dump_file_total: "sl_ok l \<Longrightarrow> \<exists>d. dump_file D l = Some d"
  using dump_nodes_inv by (fastforce simp: sl_ok_def dump_file_def)

definition kv_frame :: "KvServer \<Rightarrow> KvServer \<Rightarrow> bool" where
  "kv_frame s t \<longleftrightarrow> waitApplyCh t = waitApplyCh s \<and> next_channel t = next_channel s \<and>
     m_maxRaftState t = m_maxRaftState s \<and> m_lastSnapshotRaftLogIndex t = m_lastSnapshotRaftLogIndex s \<and>
     applyChan (m_raftNode t) = applyChan (m_raftNode s)"

lemma kv_frame_refl [simp]: "kv_frame s s"
  by (simp add: kv_frame_def)

lemma kv_frame_trans: "kv_frame s t \<Longrightarrow> kv_frame t u \<Longrightarrow> kv_frame s u"
  by (simp add: kv_frame_def)

lemma wait_ok_frame: "kv_frame s t \<Longrightarrow> channels t = channels s \<Longrightarrow> wait_ok t = wait_ok s"
  by (simp add: kv_frame_def wait_ok_def)

text \<open>The raft node is left as it is, or takes the snapshot.\<close>

definition may_snapshot :: "raft_codec \<Rightarrow> int \<Rightarrow> KvServer \<Rightarrow> KvServer \<Rightarrow> bool" where
  "may_snapshot C i s t \<longleftrightarrow> m_raftNode t = m_raftNode s \<or> (\<exists>snap. Snapshot C i snap (m_raftNode s) = Inr (m_raftNode t))"

lemma snapshot_if_needed:
  assumes "data_ok s"
  shows "\<exists>t. IfNeedToSendSnapShotCommand C K i p s = Inr t \<and> data_ok t \<and> kv_abs t = kv_abs s \<and>
    kv_frame s t \<and> channels t = channels s \<and> may_snapshot C i s t"
proof -
  from assms have wf: "sl_ok (m_skipList s)" "raft_wf (m_raftNode s)" by (simp_all add: data_ok_def)
  obtain d where d: "dump_file (kv_dump K) (m_skipList s) = Some d" using dump_file_total [OF wf(1)] by blast
  have "\<exists>r. Snapshot C i snap (m_raftNode s) = Inr r \<and> applyChan r = applyChan (m_raftNode s)" for snap
  proof (cases "m_lastSnapshotIncludeIndex (m_raftNode s) < i \<and> i \<le> m_commitIndex (m_raftNode s)")
    case True
    then show ?thesis using Snapshot_accepts [OF wf(2)] by (simp add: snapshot_state_def Let_def)
  next
    case False
    then have "i \<le> m_lastSnapshotIncludeIndex (m_raftNode s) \<or> m_commitIndex (m_raftNode s) < i" by linarith
    then show ?thesis using Snapshot_rejects by blast
  qed
  then obtain r where r: "Snapshot C i (kv_out K (d, m_lastRequestId s)) (m_raftNode s) = Inr r"
    "applyChan r = applyChan (m_raftNode s)" by blast
  show ?thesis
  proof (cases "10 * GetRaftStateSize (m_raftNode s) > m_maxRaftState s")
    case True
    then have "IfNeedToSendSnapShotCommand C K i p s = Inr (s\<lparr>m_serializedKVData := [], m_raftNode := r\<rparr>)"
      using r(1) d by (simp add: IfNeedToSendSnapShotCommand_def MakeSnapShot_def GetSnapShotData_def)
    with raft_wf_Snapshot [OF wf(2) r(1)] r wf show ?thesis
      by (auto simp: data_ok_def kv_abs_def kv_frame_def may_snapshot_def)
  next
    case False
    with assms show ?thesis by (simp add: IfNeedToSendSnapShotCommand_def may_snapshot_def)
  qed
qed

subsection \<open>Applying a command\<close>

lemma execute_command:
  assumes "data_ok s"
  shows "\<exists>t. (if \<not> ifRequestDuplicate (clientId op) (requestId op) s
      then bindR (if operation op = ''Put'' then ExecutePutOpOnKVDB op s else Inr s) (\<lambda>s1.
           if operation op = ''Append'' then ExecuteAppendOpOnKVDB op s1 else Inr s1)
      else Inr s) = Inr t \<and> data_ok t \<and> kv_abs t = kv_apply op (kv_abs s) \<and> kv_frame s t \<and> channels t = channels s \<and>
    m_raftNode t = m_raftNode s"
proof -
  from assms have "sl_ok (m_skipList s)" by (simp add: data_ok_def)
  from execute_put_total [OF this, of op] obtain l where l: "sl_ok l"
    "sl_abs l = (sl_abs (m_skipList s))(key op \<mapsto> opvalue op)"
    "ExecutePutOpOnKVDB op s =
      Inr (s\<lparr>m_skipList := l, m_lastRequestId := (m_lastRequestId s)(clientId op \<mapsto> requestId op)\<rparr>)" by blast
  consider "duplicate op (kv_abs s)" | "\<not> duplicate op (kv_abs s)" "operation op = ''Put''"
    | "\<not> duplicate op (kv_abs s)" "operation op = ''Append''"
    | "\<not> duplicate op (kv_abs s)" "operation op \<noteq> ''Put''" "operation op \<noteq> ''Append''" by blast
  then show ?thesis
  proof cases
    case 1
    with assms show ?thesis by (simp add: duplicate_iff kv_apply_def kv_frame_def)
  next
    case 4
    with assms show ?thesis by (simp add: duplicate_iff kv_apply_def kv_frame_def)
  qed (use assms l in \<open>simp_all add: duplicate_iff append_is_put kv_apply_def kv_frame_def data_ok_def kv_abs_def\<close>)
qed

lemma wait_okD:
  assumes "wait_ok s" "waitApplyCh s i = Some p"
  obtains a q where "p = Some a" "channels s a = Some q"
  using assms unfolding wait_ok_def by blast

lemma wait_ok_update:
  assumes "wait_ok s" "channels s a = Some q"
  shows "wait_ok (s\<lparr>channels := (channels s)(a \<mapsto> r)\<rparr>)"
proof -
  have "(((channels s)(a \<mapsto> r)) b \<noteq> None) = (channels s b \<noteq> None)" for b using assms(2) by simp
  then show ?thesis using assms(1) unfolding wait_ok_def by simp
qed

text \<open>A command up to the message to the request that waits for it.\<close>

lemma GetCommandFromRaft_run:
  assumes ok: "data_ok s" and op: "iaOp C (Command msg) = Some op"
    and idx: "m_lastSnapshotRaftLogIndex s < CommandIndex msg"
  shows "\<exists>u. GetCommandFromRaft C K msg s =
      bindR (SendMessageToWaitChan op (CommandIndex msg) u) (\<lambda>(sent, t). Inr t) \<and>
    data_ok u \<and> kv_abs u = kv_apply op (kv_abs s) \<and> kv_frame s u \<and> channels u = channels s \<and>
    may_snapshot C (CommandIndex msg) s u"
proof -
  from execute_command [OF ok, of op] obtain s2 where
    s2: "(if \<not> ifRequestDuplicate (clientId op) (requestId op) s
      then bindR (if operation op = ''Put'' then ExecutePutOpOnKVDB op s else Inr s) (\<lambda>s1.
           if operation op = ''Append'' then ExecuteAppendOpOnKVDB op s1 else Inr s1)
      else Inr s) = Inr s2" "data_ok s2" "kv_abs s2 = kv_apply op (kv_abs s)" "kv_frame s s2" "channels s2 = channels s"
      "m_raftNode s2 = m_raftNode s"
    by blast
  from snapshot_if_needed [OF s2(2), of C K "CommandIndex msg" 9] obtain s3 where
    s3: "(if m_maxRaftState s2 \<noteq> -1
       then IfNeedToSendSnapShotCommand C K (CommandIndex msg) 9 s2 else Inr s2) = Inr s3"
    "data_ok s3" "kv_abs s3 = kv_abs s2" "kv_frame s2 s3" "channels s3 = channels s2" "may_snapshot C (CommandIndex msg) s2 s3"
    using s2(2) by (cases "m_maxRaftState s2 = -1") (fastforce simp: may_snapshot_def)+
  have "GetCommandFromRaft C K msg s = bindR (SendMessageToWaitChan op (CommandIndex msg) s3) (\<lambda>(sent, t). Inr t)"
    using idx by (simp add: GetCommandFromRaft_def op s2(1) s3(1))
  moreover have "kv_frame s s3" using s2(4) s3(4) by (rule kv_frame_trans)
  ultimately show ?thesis using s3 s2(3,5,6) by (intro exI [of _ s3]) (simp add: may_snapshot_def)
qed

lemma SendMessageToWaitChan_cases:
  assumes "SendMessageToWaitChan op i s = Inr (sent, t)"
  obtains "waitApplyCh s i = None" "t = s"
    | a q where "waitApplyCh s i = Some (Some a)" "channels s a = Some q" "t = s\<lparr>channels := (channels s)(a \<mapsto> Push op q)\<rparr>"
  using assms by (auto simp: SendMessageToWaitChan_def split: option.splits)

lemma GetCommandFromRaft_result:
  assumes ok: "kv_ok s" and op: "iaOp C (Command msg) = Some op"
    and idx: "m_lastSnapshotRaftLogIndex s < CommandIndex msg"
  shows "\<exists>t. GetCommandFromRaft C K msg s = Inr t \<and> kv_ok t \<and> kv_abs t = kv_apply op (kv_abs s) \<and>
    kv_frame s t \<and>
    (\<forall>a. channels t a = (if waitApplyCh s (CommandIndex msg) = Some (Some a)
       then map_option (Push op) (channels s a) else channels s a))"
proof -
  from ok have ok': "data_ok s" "wait_ok s" by (simp_all add: kv_ok_iff)
  from GetCommandFromRaft_run [OF ok'(1) op idx, of K] obtain u where u:
    "GetCommandFromRaft C K msg s = bindR (SendMessageToWaitChan op (CommandIndex msg) u) (\<lambda>(sent, t). Inr t)"
    "data_ok u" "kv_abs u = kv_apply op (kv_abs s)" "kv_frame s u" "channels u = channels s" by blast
  have w: "wait_ok u" "waitApplyCh u = waitApplyCh s" using wait_ok_frame [OF u(4,5)] ok'(2) u(4) by (simp_all add: kv_frame_def)
  show ?thesis
  proof (cases "waitApplyCh u (CommandIndex msg)")
    case None
    with u w show ?thesis by (simp add: SendMessageToWaitChan_def kv_ok_iff)
  next
    case (Some p)
    obtain a q where a: "p = Some a" "channels u a = Some q" by (rule wait_okD [OF w(1) Some])
    let ?t = "u\<lparr>channels := (channels u)(a \<mapsto> Push op q)\<rparr>"
    have "GetCommandFromRaft C K msg s = Inr ?t"
      using Some a by (simp add: u(1) SendMessageToWaitChan_def)
    moreover have "kv_ok ?t" "kv_abs ?t = kv_abs u" "kv_frame s ?t"
      using u(2,4) wait_ok_update [OF w(1) a(2)] by (simp_all add: kv_ok_def data_ok_def kv_abs_def kv_frame_def)
    moreover have "\<forall>b. channels ?t b = (if waitApplyCh s (CommandIndex msg) = Some (Some b)
         then map_option (Push op) (channels s b) else channels s b)"
      using Some a w(2) u(5) by simp
    ultimately show ?thesis using u(3) by (intro exI [of _ ?t]) simp
  qed
qed

subsection \<open>Applying the channel\<close>

definition set_queue :: "ApplyMsg list \<Rightarrow> KvServer \<Rightarrow> KvServer" where
  "set_queue ms s = s\<lparr>m_raftNode := (m_raftNode s)\<lparr>applyChan := (applyChan (m_raftNode s))\<lparr>m_queue := ms\<rparr>\<rparr>\<rparr>"

definition apply_queue :: "KvServer \<Rightarrow> ApplyMsg list" where
  "apply_queue s = m_queue (applyChan (m_raftNode s))"

lemma set_queue_simps [simp]:
  "kv_ok (set_queue ms s) = kv_ok s" "kv_abs (set_queue ms s) = kv_abs s" "apply_queue (set_queue ms s) = ms"
  "m_lastSnapshotRaftLogIndex (set_queue ms s) = m_lastSnapshotRaftLogIndex s"
  "waitApplyCh (set_queue ms s) = waitApplyCh s" "channels (set_queue ms s) = channels s"
  by (simp_all add: set_queue_def kv_ok_def kv_abs_def apply_queue_def wait_ok_def raft_wf_def)

lemma apply_turn_command:
  assumes "apply_queue s = m # ms" "CommandValid m" "\<not> SnapShotValid m"
  shows "apply_turn C K s = Some (GetCommandFromRaft C K m (set_queue ms s))"
proof -
  have "pop (applyChan (m_raftNode s)) = Some (m, (applyChan (m_raftNode s))\<lparr>m_queue := ms\<rparr>)"
    using assms(1) by (simp add: pop_def apply_queue_def)
  moreover have "bindR x Inr = x" for x :: "KvServer res" by (cases x) simp_all
  ultimately show ?thesis using assms(2,3) by (simp add: apply_turn_def set_queue_def Let_def)
qed

lemma apply_turns_commands:
  assumes "kv_ok s" "apply_queue s = ms @ rest" "m_lastSnapshotRaftLogIndex s = b"
    "list_all2 (\<lambda>m op. CommandValid m \<and> \<not> SnapShotValid m \<and> iaOp C (Command m) = Some op \<and>
       b < CommandIndex m) ms ops"
  shows "\<exists>t. apply_turns C K (length ms) s = Some (Inr t) \<and> kv_ok t \<and> apply_queue t = rest \<and>
    kv_abs t = fold kv_apply ops (kv_abs s) \<and> m_lastSnapshotRaftLogIndex t = b"
  using assms(4,1-3)
proof (induction ms ops arbitrary: s rule: list_all2_induct)
  case Nil
  then show ?case by simp
next
  case (Cons m ms op ops)
  let ?s0 = "set_queue (ms @ rest) s"
  have q: "apply_queue s = m # (ms @ rest)" using Cons.prems by simp
  have "kv_ok ?s0" "iaOp C (Command m) = Some op" "m_lastSnapshotRaftLogIndex ?s0 < CommandIndex m"
    using Cons.prems Cons.hyps by simp_all
  from GetCommandFromRaft_result [OF this, of K] obtain t where t: "GetCommandFromRaft C K m ?s0 = Inr t" "kv_ok t"
    "kv_abs t = kv_apply op (kv_abs s)" "kv_frame ?s0 t" by auto
  then have r: "apply_queue t = ms @ rest" "m_lastSnapshotRaftLogIndex t = b"
    using Cons.prems(3) by (simp_all add: kv_frame_def apply_queue_def) (simp add: set_queue_def)
  have "apply_turn C K s = Some (Inr t)" using apply_turn_command [OF q] Cons.hyps t(1) by simp
  moreover from Cons.IH [of t] t(2) r Cons.hyps(2) have "\<exists>u. apply_turns C K (length ms) t = Some (Inr u) \<and> kv_ok u \<and>
      apply_queue u = rest \<and> kv_abs u = fold kv_apply ops (kv_abs t) \<and>
      m_lastSnapshotRaftLogIndex u = b" by simp
  ultimately show ?case using t(3) by auto
qed

subsection \<open>Duplicates\<close>

lemma duplicate_apply: "duplicate op st \<Longrightarrow> duplicate op (kv_apply op' st)"
  by (auto simp: duplicate_def kv_apply_def split: option.splits)

lemma duplicate_fold: "duplicate op st \<Longrightarrow> duplicate op (fold kv_apply ops st)"
  by (induction ops arbitrary: st) (simp_all add: duplicate_apply)

lemma duplicate_after:
  "operation op = ''Put'' \<or> operation op = ''Append'' \<Longrightarrow> duplicate op (kv_apply op st)"
  by (auto simp: duplicate_def kv_apply_def)

lemma kv_apply_duplicate: "duplicate op st \<Longrightarrow> kv_apply op st = st"
  by (simp add: kv_apply_def)

subsection \<open>Handlers\<close>

lemma submit_follower: "m_status (m_raftNode s) \<noteq> Leader \<Longrightarrow> submit C op s = (-1, False, s)"
  by (simp add: submit_def Start_def)

lemma submit_leader:
  assumes "m_status (m_raftNode s) = Leader" "raft_wf (m_raftNode s)"
  shows "\<exists>r. submit C op s = (getNewCommandIndex (m_raftNode s), True, s\<lparr>m_raftNode := r\<rparr>) \<and> raft_wf r \<and>
    m_logs r = m_logs (m_raftNode s) @ [\<lparr>command = oaOp C op, logterm = m_currentTerm (m_raftNode s),
      logindex = getNewCommandIndex (m_raftNode s)\<rparr>] \<and> applyChan r = applyChan (m_raftNode s)"
proof -
  obtain i tm l r where st: "Start C op (m_raftNode s) = (i, tm, l, r)" by (cases "Start C op (m_raftNode s)")
  with raft_wf_Start [OF assms(2) st] assms(1) show ?thesis
    by (auto simp: submit_def Start_def Let_def)
qed

lemma wait_ok_new_entry:
  assumes "wait_ok s" "waitApplyCh s i = None"
  shows "wait_ok (s\<lparr>channels := (channels s)(next_channel s \<mapsto> q), next_channel := next_channel s + 1,
    waitApplyCh := (waitApplyCh s)(i \<mapsto> Some (next_channel s))\<rparr>)"
proof -
  have fresh: "channels s (next_channel s) = None" using assms(1) unfolding wait_ok_def by blast
  have live: "\<exists>a. p = Some a \<and> a \<noteq> next_channel s \<and> channels s a \<noteq> None" if "waitApplyCh s j = Some p" for j p
    using assms(1) that fresh unfolding wait_ok_def by metis
  have lt: "a < next_channel s + 1" if "channels s a \<noteq> None" for a
    using assms(1) that unfolding wait_ok_def by fastforce
  show ?thesis
    unfolding wait_ok_def
  proof (intro conjI allI impI)
    fix j p
    assume "waitApplyCh (s\<lparr>channels := (channels s)(next_channel s \<mapsto> q), next_channel := next_channel s + 1,
      waitApplyCh := (waitApplyCh s)(i \<mapsto> Some (next_channel s))\<rparr>) j = Some p"
    then show "\<exists>a. p = Some a \<and> channels (s\<lparr>channels := (channels s)(next_channel s \<mapsto> q),
      next_channel := next_channel s + 1, waitApplyCh := (waitApplyCh s)(i \<mapsto> Some (next_channel s))\<rparr>) a \<noteq> None"
      using live by (fastforce split: if_splits)
  next
    fix j k a
    assume "waitApplyCh (s\<lparr>channels := (channels s)(next_channel s \<mapsto> q), next_channel := next_channel s + 1,
        waitApplyCh := (waitApplyCh s)(i \<mapsto> Some (next_channel s))\<rparr>) j = Some (Some a)"
      "waitApplyCh (s\<lparr>channels := (channels s)(next_channel s \<mapsto> q), next_channel := next_channel s + 1,
        waitApplyCh := (waitApplyCh s)(i \<mapsto> Some (next_channel s))\<rparr>) k = Some (Some a)"
    then show "j = k" using live [of j "Some a"] live [of k "Some a"] assms(1)
      by (auto simp: wait_ok_def split: if_splits)
  next
    fix a
    assume "channels (s\<lparr>channels := (channels s)(next_channel s \<mapsto> q), next_channel := next_channel s + 1,
      waitApplyCh := (waitApplyCh s)(i \<mapsto> Some (next_channel s))\<rparr>) a \<noteq> None"
    then show "a < next_channel (s\<lparr>channels := (channels s)(next_channel s \<mapsto> q), next_channel := next_channel s + 1,
      waitApplyCh := (waitApplyCh s)(i \<mapsto> Some (next_channel s))\<rparr>)" using lt by (auto split: if_splits)
  qed
qed

lemma wait_ok_drop:
  assumes "wait_ok s" "waitApplyCh s i = Some (Some a)"
  shows "drop_channel i s = s\<lparr>waitApplyCh := (waitApplyCh s)(i := None), channels := (channels s)(a := None)\<rparr>"
    and "wait_ok (drop_channel i s)"
proof -
  show d: "drop_channel i s = s\<lparr>waitApplyCh := (waitApplyCh s)(i := None), channels := (channels s)(a := None)\<rparr>"
    using assms(2) by (simp add: drop_channel_def subscript_def)
  have other: "b \<noteq> a" if "j \<noteq> i" "waitApplyCh s j = Some (Some b)" for j b
    using assms that unfolding wait_ok_def by metis
  show "wait_ok (drop_channel i s)"
    unfolding d wait_ok_def
  proof (intro conjI allI impI)
    fix j p
    assume "waitApplyCh (s\<lparr>waitApplyCh := (waitApplyCh s)(i := None), channels := (channels s)(a := None)\<rparr>) j = Some p"
    then have j: "j \<noteq> i" "waitApplyCh s j = Some p" by (simp_all split: if_splits)
    then obtain b q where "p = Some b" "channels s b = Some q" using wait_okD [OF assms(1)] by metis
    with other j show "\<exists>b. p = Some b \<and>
      channels (s\<lparr>waitApplyCh := (waitApplyCh s)(i := None), channels := (channels s)(a := None)\<rparr>) b \<noteq> None" by simp
  next
    fix j k b
    assume "waitApplyCh (s\<lparr>waitApplyCh := (waitApplyCh s)(i := None), channels := (channels s)(a := None)\<rparr>) j = Some (Some b)"
      "waitApplyCh (s\<lparr>waitApplyCh := (waitApplyCh s)(i := None), channels := (channels s)(a := None)\<rparr>) k = Some (Some b)"
    then have "waitApplyCh s j = Some (Some b)" "waitApplyCh s k = Some (Some b)" by (simp_all split: if_splits)
    then show "j = k" using assms(1) unfolding wait_ok_def by blast
  next
    fix b
    assume "channels (s\<lparr>waitApplyCh := (waitApplyCh s)(i := None), channels := (channels s)(a := None)\<rparr>) b \<noteq> None"
    then have "channels s b \<noteq> None" by (simp split: if_splits)
    then show "b < next_channel (s\<lparr>waitApplyCh := (waitApplyCh s)(i := None), channels := (channels s)(a := None)\<rparr>)"
      using assms(1) unfolding wait_ok_def by simp
  qed
qed

lemma kv_ok_drop:
  assumes "kv_ok s" "waitApplyCh s i = Some (Some a)"
  shows "kv_ok (drop_channel i s)" "kv_abs (drop_channel i s) = kv_abs s"
  using assms wait_ok_drop [of s i a] by (simp_all add: kv_ok_def kv_abs_def)

subsection \<open>Properties of the server\<close>


text \<open>At most once: a command that stores and reaches the log a second time, with any other
  commands in between, has no effect the second time.\<close>

theorem apply_at_most_once:
  assumes "kv_ok s" "apply_queue s = (m # ms @ [m']) @ rest" "operation op = ''Put'' \<or> operation op = ''Append''"
    "list_all2 (\<lambda>m op. CommandValid m \<and> \<not> SnapShotValid m \<and> iaOp C (Command m) = Some op \<and>
       m_lastSnapshotRaftLogIndex s < CommandIndex m) (m # ms @ [m']) (op # ops @ [op])"
  shows "\<exists>t. apply_turns C K (length (m # ms @ [m'])) s = Some (Inr t) \<and> kv_ok t \<and>
    kv_abs t = fold kv_apply (op # ops) (kv_abs s)"
proof -
  have "duplicate op (fold kv_apply (op # ops) (kv_abs s))"
    using duplicate_fold [OF duplicate_after [OF assms(3)]] by simp
  from kv_apply_duplicate [OF this] have "fold kv_apply (op # ops @ [op]) (kv_abs s) = fold kv_apply (op # ops) (kv_abs s)"
    by simp
  with apply_turns_commands [OF assms(1,2) refl assms(4), of K] show ?thesis by auto
qed

text \<open>\<open>Append\<close> does not append: it replaces the value, whatever was stored before.\<close>

theorem append_overwrites:
  assumes "kv_ok s" "iaOp C (Command msg) = Some op" "m_lastSnapshotRaftLogIndex s < CommandIndex msg"
    and "operation op = ''Append''" "\<not> duplicate op (kv_abs s)" "fst (kv_abs s) (key op) = Some old"
  shows "\<exists>t. GetCommandFromRaft C K msg s = Inr t \<and> fst (kv_abs t) (key op) = Some (opvalue op)"
  using GetCommandFromRaft_result [OF assms(1-3), of K] assms(4,5) by (auto simp: kv_apply_def)

text \<open>The first half of \<open>PutAppend\<close>: a node that is not leader answers \<open>ErrWrongLeader\<close> and
  changes nothing; the leader appends the command to its log and waits on a new empty channel
  registered under the command's index.\<close>

theorem PutAppend_begin_correct:
  assumes "kv_ok s" "waitApplyCh s (getNewCommandIndex (m_raftNode s)) = None"
  shows "\<exists>p t. PutAppend_begin C args reply s = (p, t) \<and> kv_ok t \<and> kv_abs t = kv_abs s \<and>
    (if m_status (m_raftNode s) = Leader
     then \<exists>a. p = Waiting (put_op args) (getNewCommandIndex (m_raftNode s)) (Some a) \<and>
            channels s a = None \<and> channels t a = Some newLockQueue \<and>
            waitApplyCh t = (waitApplyCh s)(getNewCommandIndex (m_raftNode s) \<mapsto> Some a) \<and>
            m_logs (m_raftNode t) = m_logs (m_raftNode s) @ [\<lparr>command = oaOp C (put_op args),
              logterm = m_currentTerm (m_raftNode s), logindex = getNewCommandIndex (m_raftNode s)\<rparr>]
     else p = Replied (reply\<lparr>pr_err := ErrWrongLeader\<rparr>) \<and> t = s)"
proof (cases "m_status (m_raftNode s) = Leader")
  case False
  then show ?thesis using assms(1) by (simp add: PutAppend_begin_def put_channel_def submit_follower)
next
  case True
  let ?i = "getNewCommandIndex (m_raftNode s)" and ?a = "next_channel s"
  from assms(1) have wf: "raft_wf (m_raftNode s)" "wait_ok s" by (simp_all add: kv_ok_def)
  from submit_leader [OF True wf(1), of C "put_op args"] obtain r where r:
    "submit C (put_op args) s = (?i, True, s\<lparr>m_raftNode := r\<rparr>)" "raft_wf r"
    "m_logs r = m_logs (m_raftNode s) @ [\<lparr>command = oaOp C (put_op args),
       logterm = m_currentTerm (m_raftNode s), logindex = ?i\<rparr>]" by blast
  let ?t = "s\<lparr>m_raftNode := r, channels := (channels s)(?a \<mapsto> newLockQueue), next_channel := ?a + 1,
      waitApplyCh := (waitApplyCh s)(?i \<mapsto> Some ?a)\<rparr>"
  have "PutAppend_begin C args reply s = (Waiting (put_op args) ?i (Some ?a), ?t)"
    using r(1) assms(2) by (simp add: PutAppend_begin_def put_channel_def Let_def new_channel_def emplace_def subscript_def)
  moreover have "wait_ok (s\<lparr>m_raftNode := r\<rparr>)" using wf(2) by simp
  from wait_ok_new_entry [OF this, of ?i newLockQueue] assms(2) have "wait_ok ?t" by simp
  then have "kv_ok ?t" using assms(1) r(2) by (simp add: kv_ok_def)
  moreover have "channels s ?a = None" using wf(2) unfolding wait_ok_def by blast
  ultimately show ?thesis using True r(3) by (simp add: kv_abs_def)
qed

text \<open>C21. The second half of \<open>PutAppend\<close>: once the apply loop handles the command at the index the
  request waits for, the request pops it, answers OK, and its channel is gone; the command has been
  applied exactly as the state machine says.\<close>

theorem PutAppend_committed:
  assumes "kv_ok s" "waitApplyCh s (CommandIndex msg) = Some (Some a)" "channels s a = Some newLockQueue"
    and "iaOp C (Command msg) = Some op" "m_lastSnapshotRaftLogIndex s < CommandIndex msg"
  shows "\<exists>t u v. GetCommandFromRaft C K msg s = Inr t \<and>
    wait_channel (Some a) timedout t = Inr (Some (Some op), u) \<and>
    PutAppend_end op (CommandIndex msg) (Some op) reply u = (reply\<lparr>pr_err := OK\<rparr>, v) \<and>
    kv_ok v \<and> waitApplyCh v (CommandIndex msg) = None \<and> channels v a = None \<and>
    kv_abs v = kv_apply op (kv_abs s)"
proof -
  from GetCommandFromRaft_result [OF assms(1,4,5), of K] obtain t where t: "GetCommandFromRaft C K msg s = Inr t"
    "kv_ok t" "kv_abs t = kv_apply op (kv_abs s)" "kv_frame s t"
    "channels t a = map_option (Push op) (channels s a)" using assms(2) by auto
  let ?u = "t\<lparr>channels := (channels t)(a \<mapsto> newLockQueue)\<rparr>"
  have ca: "channels t a = Some (Push op newLockQueue)" using t(5) assms(3) by simp
  then have w: "wait_channel (Some a) timedout t = Inr (Some (Some op), ?u)"
    by (simp add: wait_channel_def timeoutPop.simps Push_def newLockQueue_def)
  have wt: "waitApplyCh t (CommandIndex msg) = Some (Some a)" using t(4) assms(2) by (simp add: kv_frame_def)
  have "kv_ok ?u" "kv_abs ?u = kv_abs t" using t(2) wait_ok_update [OF _ ca, of newLockQueue]
    by (simp_all add: kv_ok_def kv_abs_def)
  moreover have "waitApplyCh ?u (CommandIndex msg) = Some (Some a)" using wt by simp
  ultimately have "kv_ok (drop_channel (CommandIndex msg) ?u)"
    "kv_abs (drop_channel (CommandIndex msg) ?u) = kv_abs t"
    "drop_channel (CommandIndex msg) ?u = ?u\<lparr>waitApplyCh := (waitApplyCh ?u)(CommandIndex msg := None),
       channels := (channels ?u)(a := None)\<rparr>"
    using kv_ok_drop [of ?u "CommandIndex msg" a] wait_ok_drop(1) [of ?u "CommandIndex msg" a]
    by (simp_all add: kv_ok_def)
  then show ?thesis using t w by (auto simp: PutAppend_end_def)
qed

text \<open>C22. \<open>Get\<close> on the leader never answers: the test that should create the channel is inverted, so
  the handler registers a null pointer and waits on it; and when the command is applied the apply
  loop pushes through the same null pointer.\<close>

theorem Get_on_leader_null:
  assumes "kv_ok s" "m_status (m_raftNode s) = Leader"
    "waitApplyCh s (getNewCommandIndex (m_raftNode s)) = None"
  shows "\<exists>t. Get_begin C args reply s =
      (Waiting (get_op args) (getNewCommandIndex (m_raftNode s)) None, t) \<and>
    wait_channel None timedout t = Inl NullDeref \<and>
    SendMessageToWaitChan (get_op args) (getNewCommandIndex (m_raftNode s)) t = Inl NullDeref"
proof -
  from assms(1) have "raft_wf (m_raftNode s)" by (simp add: kv_ok_def)
  from submit_leader [OF assms(2) this, of C "get_op args"] obtain r where
    "submit C (get_op args) s = (getNewCommandIndex (m_raftNode s), True, s\<lparr>m_raftNode := r\<rparr>)" by blast
  with assms(3) show ?thesis
    by (simp add: Get_begin_def get_channel_def subscript_def wait_channel_def SendMessageToWaitChan_def)
qed

text \<open>A retried \<open>Get\<close> with an old request number, on a node where it is a duplicate, sets the
  client's last request back to that number: a stored command with a newer number, which was a
  duplicate before, would be executed again.\<close>

theorem Get_forgets_newer_requests:
  assumes "kv_ok s" "waitApplyCh s i = Some (Some a)" "duplicate op (kv_abs s)"
    and newer: "clientId op' = clientId op" "requestId op < requestId op'" "duplicate op' (kv_abs s)"
  shows "\<exists>r t. Get_end op i None reply s = Inr (r, t) \<and> kv_ok t \<and>
    gr_err r = (if fst (kv_abs s) (key op) = None then ErrNoKey else OK) \<and> \<not> duplicate op' (kv_abs t)"
proof -
  from assms(1) have sl: "sl_ok (m_skipList s)" by (simp add: kv_ok_def)
  let ?s1 = "s\<lparr>m_lastRequestId := (m_lastRequestId s)(clientId op \<mapsto> requestId op)\<rparr>"
  obtain r where "get_reply op reply s = Inr (r, ?s1)"
    "gr_err r = (if fst (kv_abs s) (key op) = None then ErrNoKey else OK)"
    using execute_get_total [OF sl, of op] by (auto simp: get_reply_def kv_abs_def)
  moreover have "ifRequestDuplicate (clientId op) (requestId op) s" using assms(3) by (simp add: duplicate_iff)
  moreover have "kv_ok ?s1" using assms(1) by (simp add: kv_ok_def)
  with kv_ok_drop [of ?s1 i a] assms(2) have "kv_ok (drop_channel i ?s1)" "kv_abs (drop_channel i ?s1) = kv_abs ?s1"
    by simp_all
  ultimately show ?thesis using newer(1,2) by (simp add: Get_end_def duplicate_def kv_abs_def)
qed

text \<open>C23. Installing a snapshot: the last requests are the sender's, the map is the sender's only on
  the keys the receiver did not have; every key the receiver had keeps its old value, although the
  requests that changed it are now duplicates.\<close>

theorem snapshot_install_keeps_stale:
  assumes "kv_ok s" "kv_ok t" "MakeSnapShot K s = Inr (snap, s')" "snap \<noteq> []"
    and "\<And>d. dump_file (kv_dump K) (m_skipList s) = Some d \<Longrightarrow>
      d \<noteq> [] \<and> kv_in K snap = Some (d, m_lastRequestId s) \<and>
      (\<forall>kvs. dump_nodes (m_skipList s) = Some kvs \<longrightarrow> dump_in (kv_dump K) d = Some (map fst kvs, map snd kvs))"
  shows "\<exists>u. GetSnapShotFromRaft K (newApplyMsg\<lparr>SnapShotValid := True, Snapshot_data := snap, SnapshotIndex := i\<rparr>) t =
      Inr u \<and> kv_ok u \<and> kv_abs u = (fst (kv_abs s) ++ fst (kv_abs t), snd (kv_abs s)) \<and>
      m_lastSnapshotRaftLogIndex u = i"
proof -
  from assms(1,2) have sl: "sl_ok (m_skipList s)" "sl_ok (m_skipList t)" by (simp_all add: kv_ok_def)
  obtain d where d: "dump_file (kv_dump K) (m_skipList s) = Some d" using dump_file_total [OF sl(1)] by blast
  from load_dumped [OF sl d] assms(5) [OF d] obtain l where
    l: "load_file (kv_dump K) d (m_skipList t) = Some l" "sl_ok l"
    "sl_abs l = sl_abs (m_skipList s) ++ sl_abs (m_skipList t)" by blast
  have "GetSnapShotFromRaft K (newApplyMsg\<lparr>SnapShotValid := True, Snapshot_data := snap, SnapshotIndex := i\<rparr>) t =
      Inr (t\<lparr>m_skipList := l, m_lastRequestId := m_lastRequestId s, m_serializedKVData := [],
        m_lastSnapshotRaftLogIndex := i\<rparr>)"
    using assms(4) assms(5) [OF d] l(1)
    by (simp add: GetSnapShotFromRaft_def CondInstallSnapshot_def ReadSnapShotToInstall_def ParseFromString_def newApplyMsg_def)
  with l assms(2) show ?thesis by (simp add: kv_ok_def kv_abs_def)
qed

subsection \<open>Closed examples\<close>

definition op_put :: Op where
  "op_put = \<lparr>operation = ''Put'', key = ''k'', opvalue = ''v'', clientId = ''c'', requestId = 1\<rparr>"

definition op_append :: Op where
  "op_append = \<lparr>operation = ''Append'', key = ''k'', opvalue = ''w'', clientId = ''c'', requestId = 2\<rparr>"

definition kv_codec0 :: kv_codec where
  "kv_codec0 = \<lparr>kv_out = (\<lambda>p. []), kv_in = (\<lambda>str. None),
     kv_dump = \<lparr>dump_out = (\<lambda>p. []), dump_in = (\<lambda>str. None)\<rparr>\<rparr>"

definition op_codec :: raft_codec where
  "op_codec = codec0\<lparr>iaOp := (\<lambda>str. if str = ''put'' then Some op_put else if str = ''append'' then Some op_append else None)\<rparr>"

definition server0 :: "Raft \<Rightarrow> KvServer" where
  "server0 r = \<lparr>kv_me = 0, m_raftNode = r, m_maxRaftState = -1, m_serializedKVData = [],
     m_skipList = SkipList_ctor 6 [] [] (\<lambda>p. Suc p mod 2), waitApplyCh = Map.empty, channels = Map.empty,
     next_channel = 0, m_lastRequestId = Map.empty, m_lastSnapshotRaftLogIndex = 0\<rparr>"

lemma server0_ok: "raft_wf r \<Longrightarrow> kv_ok (server0 r)" "kv_abs (server0 r) = (Map.empty, Map.empty)"
  using sl_ok_ctor [OF fair_alternating] sl_abs_ctor [OF fair_alternating]
  by (simp_all add: server0_def kv_ok_def kv_abs_def wait_ok_def)

lemma sample_kv_ok: "kv_ok (server0 sample_follower)" "kv_ok (server0 sample_leader)"
  using sample_follower_wf(1) sample_leader_wf(1) by (simp_all add: server0_ok)

lemma op_codec_simps [simp]: "iaOp op_codec ''put'' = Some op_put" "iaOp op_codec ''append'' = Some op_append"
  by (simp_all add: op_codec_def)


theorem apply_at_most_once_witness:
  "\<exists>t. apply_turns op_codec kv_codec0 3 (set_queue [cmd_msg ''put'' 1, cmd_msg ''append'' 2, cmd_msg ''put'' 3]
       (server0 sample_follower)) = Some (Inr t) \<and> kv_abs t = ([''k'' \<mapsto> ''w''], [''c'' \<mapsto> 2])"
proof -
  let ?s = "set_queue [cmd_msg ''put'' 1, cmd_msg ''append'' 2, cmd_msg ''put'' 3] (server0 sample_follower)"
  have "m_lastSnapshotRaftLogIndex ?s = 0" by (simp add: server0_def)
  then show ?thesis
    using apply_at_most_once [of ?s "cmd_msg ''put'' 1" "[cmd_msg ''append'' 2]" "cmd_msg ''put'' 3" "[]" op_put
        op_codec "[op_append]" kv_codec0] sample_kv_ok(1)
    by (auto simp: kv_apply_def duplicate_def server0_ok op_put_def op_append_def eval_nat_numeral)
qed

theorem append_overwrites_witness:
  "\<exists>s t. kv_abs s = ([''k'' \<mapsto> ''v''], [''c'' \<mapsto> 1]) \<and>
     GetCommandFromRaft op_codec kv_codec0 (cmd_msg ''append'' 2) s = Inr t \<and> fst (kv_abs t) ''k'' = Some ''w''"
proof -
  have i: "m_lastSnapshotRaftLogIndex (server0 sample_follower) < CommandIndex (cmd_msg ''put'' 1)"
    by (simp add: server0_def)
  from GetCommandFromRaft_result [OF sample_kv_ok(1) _ i, of op_codec op_put kv_codec0] obtain s where
    s: "kv_ok s" "kv_abs s = kv_apply op_put (Map.empty, Map.empty)" "kv_frame (server0 sample_follower) s"
    by (auto simp: server0_ok)
  have a: "kv_abs s = ([''k'' \<mapsto> ''v''], [''c'' \<mapsto> 1])"
    using s(2) by (simp add: kv_apply_def duplicate_def op_put_def)
  have i2: "m_lastSnapshotRaftLogIndex s < CommandIndex (cmd_msg ''append'' 2)"
    using s(3) by (simp add: kv_frame_def server0_def)
  have o: "operation op_append = ''Append''" "\<not> duplicate op_append (kv_abs s)"
    "fst (kv_abs s) (key op_append) = Some ''v''" "key op_append = ''k''" "opvalue op_append = ''w''"
    by (simp_all add: op_append_def a duplicate_def)
  have "iaOp op_codec (Command (cmd_msg ''append'' 2)) = Some op_append" by simp
  from append_overwrites [OF s(1) this i2 o(1-3), of kv_codec0] a o(4,5) show ?thesis by auto
qed

theorem PutAppend_begin_correct_witness:
  "\<exists>t. PutAppend_begin codec0 \<lparr>pa_key = ''k'', pa_value = ''v'', pa_op = ''Put'', pa_clientid = ''c'', pa_requestid = 1\<rparr>
     \<lparr>pr_err = []\<rparr> (server0 sample_leader) = (Waiting op_put 3 (Some 0), t) \<and> kv_ok t \<and>
     length (m_logs (m_raftNode t)) = 3"
proof -
  let ?args = "\<lparr>pa_key = ''k'', pa_value = ''v'', pa_op = ''Put'', pa_clientid = ''c'', pa_requestid = 1\<rparr>"
  let ?s = "server0 sample_leader"
  have f: "m_status (m_raftNode ?s) = Leader" "getNewCommandIndex (m_raftNode ?s) = 3"
    "length (m_logs (m_raftNode ?s)) = 2" "waitApplyCh ?s (getNewCommandIndex (m_raftNode ?s)) = None"
    using sample_leader_wf(2)
    by (simp_all add: server0_def sample_leader_def sample_follower_def sample_log_def getNewCommandIndex_def)
  have p: "put_op ?args = op_put" by (simp add: put_op_def op_put_def)
  have "next_channel ?s = 0" by (simp add: server0_def)
  have "fst (PutAppend_begin codec0 ?args \<lparr>pr_err = []\<rparr> ?s) = Waiting op_put 3 (Some 0)"
    using f p by (simp add: PutAppend_begin_def put_channel_def submit_def Start_def Let_def new_channel_def emplace_def subscript_def)
      (simp add: server0_def)
  with PutAppend_begin_correct [OF sample_kv_ok(2) f(4), of codec0 ?args "\<lparr>pr_err = []\<rparr>"] f p show ?thesis
    by auto
qed

text \<open>A server with one waiting request, at index 1.\<close>

definition server1 :: KvServer where
  "server1 = (server0 sample_follower)\<lparr>waitApplyCh := [1 \<mapsto> Some 0], channels := [0 \<mapsto> newLockQueue],
     next_channel := 1\<rparr>"

lemma server1_ok: "kv_ok server1" "kv_abs server1 = (Map.empty, Map.empty)"
  using sample_kv_ok(1) server0_ok(2) [of sample_follower]
  by (auto simp: server1_def kv_ok_def kv_abs_def wait_ok_def)

theorem PutAppend_committed_witness:
  "\<exists>t u v. GetCommandFromRaft op_codec kv_codec0 (cmd_msg ''put'' 1) server1 = Inr t \<and>
     wait_channel (Some 0) False t = Inr (Some (Some op_put), u) \<and>
     PutAppend_end op_put 1 (Some op_put) \<lparr>pr_err = []\<rparr> u = (\<lparr>pr_err = OK\<rparr>, v) \<and>
     kv_abs v = ([''k'' \<mapsto> ''v''], [''c'' \<mapsto> 1])"
proof -
  have "waitApplyCh server1 (CommandIndex (cmd_msg ''put'' 1)) = Some (Some 0)"
    "channels server1 0 = Some newLockQueue" "iaOp op_codec (Command (cmd_msg ''put'' 1)) = Some op_put"
    "m_lastSnapshotRaftLogIndex server1 < CommandIndex (cmd_msg ''put'' 1)"
    by (simp_all add: server1_def server0_def)
  from PutAppend_committed [OF server1_ok(1) this, of kv_codec0 False "\<lparr>pr_err = []\<rparr>"] show ?thesis
    by (auto simp: server1_ok kv_apply_def duplicate_def op_put_def)
qed

theorem Get_on_leader_null_witness:
  "\<exists>t. Get_begin codec0 \<lparr>ga_key = ''k'', ga_clientid = ''c'', ga_requestid = 1\<rparr> \<lparr>gr_err = [], gr_value = []\<rparr>
      (server0 sample_leader) = (Waiting (get_op \<lparr>ga_key = ''k'', ga_clientid = ''c'', ga_requestid = 1\<rparr>) 3 None, t) \<and>
     wait_channel None False t = Inl NullDeref"
proof -
  let ?s = "server0 sample_leader"
  have f: "m_status (m_raftNode ?s) = Leader" "getNewCommandIndex (m_raftNode ?s) = 3"
    "waitApplyCh ?s (getNewCommandIndex (m_raftNode ?s)) = None"
    using sample_leader_wf(2) by (simp_all add: server0_def sample_leader_def getNewCommandIndex_def)
  show ?thesis
    using Get_on_leader_null [OF sample_kv_ok(2) f(1,3), of codec0
        "\<lparr>ga_key = ''k'', ga_clientid = ''c'', ga_requestid = 1\<rparr>" "\<lparr>gr_err = [], gr_value = []\<rparr>" False] f(2)
    by auto
qed

theorem Get_forgets_newer_requests_witness:
  "\<exists>r t. Get_end \<lparr>operation = ''Get'', key = ''k'', opvalue = [], clientId = ''c'', requestId = 1\<rparr> 1 None
      \<lparr>gr_err = [], gr_value = []\<rparr> (server1\<lparr>m_lastRequestId := [''c'' \<mapsto> 2]\<rparr>) = Inr (r, t) \<and>
     gr_err r = ErrNoKey \<and> \<not> duplicate op_append (kv_abs t)"
proof -
  let ?s = "server1\<lparr>m_lastRequestId := [''c'' \<mapsto> 2]\<rparr>"
  let ?op = "\<lparr>operation = ''Get'', key = ''k'', opvalue = [], clientId = ''c'', requestId = 1\<rparr>"
  have ok: "kv_ok ?s" using server1_ok(1) by (simp add: kv_ok_def)
  have w: "waitApplyCh ?s 1 = Some (Some 0)" by (simp add: server1_def)
  have a: "kv_abs ?s = (Map.empty, [''c'' \<mapsto> 2])" using server1_ok(2) by (simp add: kv_abs_def)
  have d: "duplicate ?op (kv_abs ?s)" "clientId op_append = clientId ?op" "requestId ?op < requestId op_append"
    "duplicate op_append (kv_abs ?s)"
    by (simp_all add: a duplicate_def op_append_def)
  show ?thesis using Get_forgets_newer_requests [OF ok w d, of "\<lparr>gr_err = [], gr_value = []\<rparr>"] a by auto
qed

theorem snapshot_install_keeps_stale_witness:
  "\<exists>K s t snap s' u. fst (kv_abs s) = [''k'' \<mapsto> ''v''] \<and> fst (kv_abs t) = [''k'' \<mapsto> ''old''] \<and>
     MakeSnapShot K s = Inr (snap, s') \<and>
     GetSnapShotFromRaft K (newApplyMsg\<lparr>SnapShotValid := True, Snapshot_data := snap, SnapshotIndex := 5\<rparr>) t = Inr u \<and>
     fst (kv_abs u) = [''k'' \<mapsto> ''old''] \<and> snd (kv_abs u) = snd (kv_abs s)"
proof -
  have put: "\<exists>t. kv_ok t \<and> kv_abs t = ([''k'' \<mapsto> opvalue op], [clientId op \<mapsto> requestId op])" if kk: "key op = ''k''" for op :: Op
  proof -
    have "sl_ok (m_skipList (server0 sample_follower))" using sample_kv_ok(1) by (simp add: kv_ok_def)
    from execute_put_total [OF this, of op] obtain l where "sl_ok l"
      "sl_abs l = (sl_abs (m_skipList (server0 sample_follower)))(''k'' \<mapsto> opvalue op)" using kk by auto
    then have "kv_ok ((server0 sample_follower)\<lparr>m_skipList := l, m_lastRequestId := [clientId op \<mapsto> requestId op]\<rparr>)"
      "kv_abs ((server0 sample_follower)\<lparr>m_skipList := l, m_lastRequestId := [clientId op \<mapsto> requestId op]\<rparr>) =
        ([''k'' \<mapsto> opvalue op], [clientId op \<mapsto> requestId op])"
      using sample_kv_ok(1) server0_ok(2) [of sample_follower] by (simp_all add: kv_ok_def kv_abs_def)
    then show ?thesis by blast
  qed
  have k: "key op_put = ''k''" "key (op_append\<lparr>opvalue := ''old''\<rparr>) = ''k''"
    by (simp_all add: op_put_def op_append_def)
  from put [OF k(1)] obtain s where s: "kv_ok s" "kv_abs s = ([''k'' \<mapsto> ''v''], [''c'' \<mapsto> 1])"
    by (auto simp: op_put_def)
  from put [OF k(2)] obtain t where t: "kv_ok t" "kv_abs t = ([''k'' \<mapsto> ''old''], [''c'' \<mapsto> 2])"
    by (auto simp: op_append_def)
  from s(1) obtain kvs where kvs: "dump_nodes (m_skipList s) = Some kvs"
    using dump_nodes_inv by (auto simp: kv_ok_def sl_ok_def)
  let ?D = "\<lparr>dump_out = (\<lambda>p. ''d''), dump_in = (\<lambda>str. Some (map fst kvs, map snd kvs))\<rparr>"
  let ?K = "\<lparr>kv_out = (\<lambda>p. ''s''), kv_in = (\<lambda>str. Some (''d'', m_lastRequestId s)), kv_dump = ?D\<rparr>"
  have m: "MakeSnapShot ?K s = Inr (''s'', s\<lparr>m_serializedKVData := []\<rparr>)"
    using kvs by (simp add: MakeSnapShot_def GetSnapShotData_def dump_file_def)
  from snapshot_install_keeps_stale [OF s(1) t(1) m, of 5] kvs obtain u where
    "GetSnapShotFromRaft ?K (newApplyMsg\<lparr>SnapShotValid := True, Snapshot_data := ''s'', SnapshotIndex := 5\<rparr>) t = Inr u"
    "kv_abs u = (fst (kv_abs s) ++ fst (kv_abs t), snd (kv_abs s))"
    by (auto simp: dump_file_def)
  with m s(2) t(2) show ?thesis
    by (intro exI [of _ ?K] exI [of _ s] exI [of _ t] exI [of _ "''s''"]
        exI [of _ "s\<lparr>m_serializedKVData := []\<rparr>"] exI [of _ u]) simp
qed

end
