(* ===== verification/Clerk.thy ===== *)
theory Clerk
  imports KvServer RpcChannel
begin

text \<open>
  src/raftClerk/clerk.cpp: the client of the store. A request goes to the server that answered last
  and, as long as a call fails or its answer is \<open>ErrWrongLeader\<close>, to the next one, round robin. The
  loops of \<open>Get\<close> and \<open>PutAppend\<close> have one shape, \<open>retry_loop\<close>, and differ in the answers that end
  them. A loop that never ends is the value \<open>None\<close>.
\<close>

subsection \<open>The client\<close>

record Clerk =
  m_servers :: "MprpcChannel list"
  m_clientId :: string
  m_requestId :: int
  m_recentLeaderId :: nat

text \<open>Serializers and parsers of the messages, and their default-constructed answers.\<close>

record kv_messages =
  ser_get :: "GetArgs \<Rightarrow> string option"
  par_get :: "string \<Rightarrow> GetReply option"
  ser_put :: "PutAppendArgs \<Rightarrow> string option"
  par_put :: "string \<Rightarrow> PutAppendReply option"

record 'w rpc_env =
  rpc_os :: "'w net"
  rpc_wire :: wire
  rpc_coded :: coded
  rpc_messages :: kv_messages

text \<open>The four results of \<open>rand()\<close> are an argument.\<close>

definition uuid :: "int \<Rightarrow> int \<Rightarrow> int \<Rightarrow> int \<Rightarrow> string" where
  "uuid r1 r2 r3 r4 = to_string r1 @ to_string r2 @ to_string r3 @ to_string r4"

definition Clerk_ctor :: "string \<Rightarrow> Clerk" where
  "Clerk_ctor u = \<lparr>m_servers = [], m_clientId = u, m_requestId = 0, m_recentLeaderId = 0\<rparr>"

definition connect_servers :: "'w net \<Rightarrow> (string \<times> int) list \<Rightarrow> 'w host \<Rightarrow> MprpcChannel list \<times> 'w host" where
  "connect_servers N ipPortVt h =
     foldl (\<lambda>(chs, h) (ip, port). case raftServerRpcUtil_ctor N ip port h of (c, h') \<Rightarrow> (chs @ [c], h')) ([], h) ipPortVt"

definition Clerk_Init :: "'w net \<Rightarrow> string option \<Rightarrow> Clerk \<times> 'w host \<Rightarrow> (Clerk \<times> 'w host) res" where
  "Clerk_Init N configFile = (\<lambda>(c, h).
     bindR (LoadConfigFile configFile Map.empty) (\<lambda>config.
       case connect_servers N (node_loop config 0) h of (chs, h') \<Rightarrow> Inr (c\<lparr>m_servers := m_servers c @ chs\<rparr>, h')))"

subsection \<open>The retry loop\<close>

type_synonym ('st, 'rsp) call = "nat \<Rightarrow> 'st \<Rightarrow> (bool \<times> 'rsp \<times> 'st) res option"

partial_function (option) retry_loop ::
  "nat \<Rightarrow> ('st, 'rsp) call \<Rightarrow> ('rsp \<Rightarrow> string) \<Rightarrow> ('rsp \<Rightarrow> ('a \<times> bool) option) \<Rightarrow> nat \<Rightarrow> 'st
   \<Rightarrow> ('a \<times> nat option \<times> 'st) res option"
where
  "retry_loop n call err final server st =
     (case call server st of
        None \<Rightarrow> None
      | Some (Inl e) \<Rightarrow> Some (Inl e)
      | Some (Inr (ok, reply, st')) \<Rightarrow>
          if \<not> ok \<or> err reply = ErrWrongLeader then retry_loop n call err final ((server + 1) mod n) st'
          else (case final reply of
             Some (v, leader) \<Rightarrow> Some (Inr (v, if leader then Some server else None, st'))
           | None \<Rightarrow> retry_loop n call err final server st'))"

text \<open>A call to one of the servers: \<open>m_servers[server]\<close> and the stub's method, with a fresh reply.\<close>

definition server_call ::
  "('w chan \<Rightarrow> (bool \<times> 'rsp option \<times> 'w chan) res option) \<Rightarrow> 'rsp \<Rightarrow> (MprpcChannel list \<times> 'w host, 'rsp) call"
where
  "server_call call fresh server = (\<lambda>(chs, h).
     if server < length chs
     then map_option (\<lambda>x. bindR x (\<lambda>(ok, r, (c, h')).
            Inr (ok, case r of None \<Rightarrow> fresh | Some reply \<Rightarrow> reply, (chs[server := c], h'))))
          (call (chs ! server, h))
     else Some (Inl OutOfBounds))"

definition Get_final :: "GetReply \<Rightarrow> (string \<times> bool) option" where
  "Get_final reply =
     (if gr_err reply = ErrNoKey then Some ([], False)
      else if gr_err reply = OK then Some (gr_value reply, True) else None)"

definition PutAppend_final :: "PutAppendReply \<Rightarrow> (unit \<times> bool) option" where
  "PutAppend_final reply = (if pr_err reply = OK then Some ((), True) else None)"

definition set_leader :: "nat option \<Rightarrow> Clerk \<Rightarrow> Clerk" where
  "set_leader l c = (case l of None \<Rightarrow> c | Some server \<Rightarrow> c\<lparr>m_recentLeaderId := server\<rparr>)"

definition clerk_get_call :: "'w rpc_env \<Rightarrow> GetArgs \<Rightarrow> (MprpcChannel list \<times> 'w host, GetReply) call" where
  "clerk_get_call E args = server_call
     (raftServerRpcUtil_Get (rpc_os E) (rpc_wire E) (rpc_coded E) (ser_get (rpc_messages E) args) (par_get (rpc_messages E)))
     \<lparr>gr_err = [], gr_value = []\<rparr>"

definition clerk_put_call :: "'w rpc_env \<Rightarrow> PutAppendArgs \<Rightarrow> (MprpcChannel list \<times> 'w host, PutAppendReply) call" where
  "clerk_put_call E args = server_call
     (raftServerRpcUtil_PutAppend (rpc_os E) (rpc_wire E) (rpc_coded E) (ser_put (rpc_messages E) args) (par_put (rpc_messages E)))
     \<lparr>pr_err = []\<rparr>"

subsection \<open>The operations\<close>

definition clerk_get_args :: "string \<Rightarrow> Clerk \<Rightarrow> GetArgs" where
  "clerk_get_args k c = \<lparr>ga_key = k, ga_clientid = m_clientId c, ga_requestid = m_requestId c\<rparr>"

definition Clerk_Get :: "'w rpc_env \<Rightarrow> string \<Rightarrow> Clerk \<times> 'w host \<Rightarrow> (string \<times> Clerk \<times> 'w host) res option" where
  "Clerk_Get E k = (\<lambda>(c0, h).
     let c = c0\<lparr>m_requestId := m_requestId c0 + 1\<rparr> in
     map_option (\<lambda>x. bindR x (\<lambda>(v, l, (chs, h')). Inr (v, (set_leader l c)\<lparr>m_servers := chs\<rparr>, h')))
       (retry_loop (length (m_servers c)) (clerk_get_call E (clerk_get_args k c)) gr_err Get_final
          (m_recentLeaderId c) (m_servers c, h)))"

definition clerk_put_args :: "string \<Rightarrow> string \<Rightarrow> string \<Rightarrow> Clerk \<Rightarrow> PutAppendArgs" where
  "clerk_put_args k v op c =
     \<lparr>pa_key = k, pa_value = v, pa_op = op, pa_clientid = m_clientId c, pa_requestid = m_requestId c\<rparr>"

definition Clerk_PutAppend ::
  "'w rpc_env \<Rightarrow> string \<Rightarrow> string \<Rightarrow> string \<Rightarrow> Clerk \<times> 'w host \<Rightarrow> (Clerk \<times> 'w host) res option"
where
  "Clerk_PutAppend E k v op = (\<lambda>(c0, h).
     let c = c0\<lparr>m_requestId := m_requestId c0 + 1\<rparr> in
     map_option (\<lambda>x. bindR x (\<lambda>(u, l, (chs, h')). Inr ((set_leader l c)\<lparr>m_servers := chs\<rparr>, h')))
       (retry_loop (length (m_servers c)) (clerk_put_call E (clerk_put_args k v op c)) pr_err PutAppend_final
          (m_recentLeaderId c) (m_servers c, h)))"

definition Clerk_Put :: "'w rpc_env \<Rightarrow> string \<Rightarrow> string \<Rightarrow> Clerk \<times> 'w host \<Rightarrow> (Clerk \<times> 'w host) res option" where
  "Clerk_Put E k v = Clerk_PutAppend E k v ''Put''"

definition Clerk_Append :: "'w rpc_env \<Rightarrow> string \<Rightarrow> string \<Rightarrow> Clerk \<times> 'w host \<Rightarrow> (Clerk \<times> 'w host) res option" where
  "Clerk_Append E k v = Clerk_PutAppend E k v ''Append''"

subsection \<open>When the loop ends\<close>

text \<open>The state after the calls to \<open>k\<close> servers in turn.\<close>

fun after_calls :: "nat \<Rightarrow> ('st, 'rsp) call \<Rightarrow> nat \<Rightarrow> nat \<Rightarrow> 'st \<Rightarrow> 'st" where
  "after_calls n call server 0 st = st"
| "after_calls n call server (Suc k) st =
     (case call server st of Some (Inr (ok, reply, st')) \<Rightarrow> after_calls n call ((server + 1) mod n) k st' | _ \<Rightarrow> st)"

definition redirects :: "('rsp \<Rightarrow> string) \<Rightarrow> ('st \<Rightarrow> bool) \<Rightarrow> ('st, 'rsp) call \<Rightarrow> nat \<Rightarrow> bool" where
  "redirects err good call i \<longleftrightarrow> (\<forall>st. good st \<longrightarrow> (\<exists>ok reply st'. call i st = Some (Inr (ok, reply, st')) \<and> good st' \<and>
     (\<not> ok \<or> err reply = ErrWrongLeader)))"

definition answers :: "('rsp \<Rightarrow> string) \<Rightarrow> ('st \<Rightarrow> bool) \<Rightarrow> ('st, 'rsp) call \<Rightarrow> nat \<Rightarrow> 'rsp \<Rightarrow> bool" where
  "answers err good call i reply \<longleftrightarrow>
     (\<forall>st. good st \<longrightarrow> (\<exists>st'. call i st = Some (Inr (True, reply, st')) \<and> good st')) \<and> err reply \<noteq> ErrWrongLeader"

lemma retry_loop_unfold:
  "call server st = Some (Inr (ok, reply, st')) \<Longrightarrow>
   retry_loop n call err final server st =
     (if \<not> ok \<or> err reply = ErrWrongLeader then retry_loop n call err final ((server + 1) mod n) st'
      else (case final reply of
         Some (v, leader) \<Rightarrow> Some (Inr (v, if leader then Some server else None, st'))
       | None \<Rightarrow> retry_loop n call err final server st'))"
  by (subst retry_loop.simps) simp

lemma rotation_step:
  fixes server leader n :: nat
  assumes "server < n" "leader < n" "server \<noteq> leader"
  shows "(leader + n - server) mod n = Suc ((leader + n - (server + 1) mod n) mod n)"
proof (cases "server + 1 = n")
  case True
  then have "leader + n - server = Suc leader" "Suc leader < n" using assms by linarith+
  with True assms show ?thesis by simp
next
  case False
  then have s: "(server + 1) mod n = server + 1" using assms(1) by simp
  show ?thesis
  proof (cases "server < leader")
    case True
    then have "leader + n - server = (leader - server) + n" "leader + n - (server + 1) = (leader - server - 1) + n"
      "leader - server < n" "0 < leader - server" using assms by linarith+
    then show ?thesis unfolding s by (simp only: mod_add_self2) simp
  next
    case False
    then have "leader + n - server < n" "0 < leader + n - server" using assms by linarith+
    then show ?thesis unfolding s by simp
  qed
qed

lemma retry_loop_reaches:
  assumes "leader < n" "\<And>i. i < n \<Longrightarrow> i \<noteq> leader \<Longrightarrow> redirects err good call i" "answers err good call leader reply"
    "final reply = Some (v, lead)" "server < n" "good st"
  shows "retry_loop n call err final server st = Some (Inr (v, if lead then Some leader else None,
      after_calls n call server (Suc ((leader + n - server) mod n)) st)) \<and>
    good (after_calls n call server (Suc ((leader + n - server) mod n)) st)"
  using assms(5,6)
proof (induction "(leader + n - server) mod n" arbitrary: server st rule: less_induct)
  case less
  show ?case
  proof (cases "server = leader")
    case True
    from assms(3) less.prems(2) obtain st' where c: "call leader st = Some (Inr (True, reply, st'))" "good st'"
      "err reply \<noteq> ErrWrongLeader" unfolding answers_def by blast
    have "(leader + n - server) mod n = 0" using True by simp
    moreover have "retry_loop n call err final leader st = Some (Inr (v, if lead then Some leader else None, st'))"
      unfolding retry_loop_unfold [of call leader, OF c(1)] using c(3) assms(4) by simp
    ultimately show ?thesis using c(1,2) True by simp
  next
    case False
    from assms(2) [OF less.prems(1) False] less.prems(2) obtain ok r st' where
      c: "call server st = Some (Inr (ok, r, st'))" "good st'" "\<not> ok \<or> err r = ErrWrongLeader"
      unfolding redirects_def by blast
    let ?s = "(server + 1) mod n"
    have e: "(leader + n - server) mod n = Suc ((leader + n - ?s) mod n)"
      by (rule rotation_step [OF less.prems(1) assms(1) False])
    have "?s < n" using assms(1) by simp
    from less.hyps [OF _ this c(2)] e
    show ?thesis unfolding retry_loop_unfold [of call server, OF c(1)] e using c by simp
  qed
qed

text \<open>An answer that is neither final nor a redirection: the loop asks the same server for ever.\<close>

lemma retry_loop_spins:
  assumes "answers err good call server reply" "final reply = None" "good st"
  shows "retry_loop n call err final server st = None"
proof (rule ccontr)
  assume "retry_loop n call err final server st \<noteq> None"
  then obtain y where "retry_loop n call err final server st = Some y" by blast
  then have "\<not> (answers err good call server reply \<and> final reply = None \<and> good st)"
  proof (rule retry_loop.raw_induct [rotated])
    fix loop :: "nat \<Rightarrow> ('b, 'a) call \<Rightarrow> ('a \<Rightarrow> string) \<Rightarrow> ('a \<Rightarrow> ('c \<times> bool) option) \<Rightarrow> nat \<Rightarrow> 'b \<Rightarrow> ('c \<times> nat option \<times> 'b) res option"
      and n call err final server st y
    assume IH: "\<And>n call err final server st y. loop n call err final server st = Some y \<Longrightarrow>
        \<not> (answers err good call server reply \<and> final reply = None \<and> good st)"
      and eq: "(case call server st of
        None \<Rightarrow> None
      | Some (Inl e) \<Rightarrow> Some (Inl e)
      | Some (Inr (ok, reply, st')) \<Rightarrow>
          if \<not> ok \<or> err reply = ErrWrongLeader then loop n call err final ((server + 1) mod n) st'
          else (case final reply of
             Some (v, leader) \<Rightarrow> Some (Inr (v, if leader then Some server else None, st'))
           | None \<Rightarrow> loop n call err final server st')) = Some y"
    show "\<not> (answers err good call server reply \<and> final reply = None \<and> good st)"
    proof
      assume a: "answers err good call server reply \<and> final reply = None \<and> good st"
      then obtain st' where c: "call server st = Some (Inr (True, reply, st'))" "good st'" "err reply \<noteq> ErrWrongLeader"
        unfolding answers_def by blast
      with eq a have "loop n call err final server st' = Some y" by simp
      from IH [OF this] a c(2) show False by blast
    qed
  qed
  with assms show False by blast
qed

lemma Clerk_Get_unfold:
  "retry_loop (length (m_servers c)) (clerk_get_call E (clerk_get_args k (c\<lparr>m_requestId := m_requestId c + 1\<rparr>))) gr_err Get_final
      (m_recentLeaderId c) (m_servers c, h) = Some (Inr (v, l, chs, h')) \<Longrightarrow>
   Clerk_Get E k (c, h) = Some (Inr (v, (set_leader l (c\<lparr>m_requestId := m_requestId c + 1\<rparr>))\<lparr>m_servers := chs\<rparr>, h'))"
  by (simp add: Clerk_Get_def Let_def)

text \<open>C28. A read returns as soon as some server answers as the leader: when every other server only fails
  or redirects and server \<open>leader\<close> answers OK, \<open>Get\<close> returns the leader's value after one call to each
  server from the last known leader round to the new one, at most as many calls as there are servers,
  and remembers the new leader.\<close>

theorem Clerk_Get_finds_leader:
  fixes c :: Clerk and k :: string and E :: "'w rpc_env" and leader :: nat
  defines "n \<equiv> length (m_servers c)" and "c1 \<equiv> c\<lparr>m_requestId := m_requestId c + 1\<rparr>"
  defines "call \<equiv> clerk_get_call E (clerk_get_args k c1)" and "m \<equiv> (leader + n - m_recentLeaderId c) mod n + 1"
  assumes "leader < n" "m_recentLeaderId c < n"
    "\<And>i. i < n \<Longrightarrow> i \<noteq> leader \<Longrightarrow> redirects gr_err good call i"
    "answers gr_err good call leader reply" "gr_err reply = OK" "good (m_servers c, h)"
  shows "m \<le> n \<and> (\<exists>chs h'. after_calls n call (m_recentLeaderId c) m (m_servers c, h) = (chs, h') \<and>
    Clerk_Get E k (c, h) = Some (Inr (gr_value reply, c1\<lparr>m_recentLeaderId := leader, m_servers := chs\<rparr>, h')))"
proof -
  have f: "Get_final reply = Some (gr_value reply, True)"
    using assms(9) by (simp add: Get_final_def OK_def ErrNoKey_def)
  have m: "m = Suc ((leader + n - m_recentLeaderId c) mod n)" by (simp add: m_def)
  obtain chs h' where a: "after_calls n call (m_recentLeaderId c) m (m_servers c, h) = (chs, h')" by (meson surj_pair)
  have "retry_loop n call gr_err Get_final (m_recentLeaderId c) (m_servers c, h) =
      Some (Inr (gr_value reply, Some leader, chs, h'))"
    using retry_loop_reaches [where err = gr_err and good = good and call = call and final = Get_final and reply = reply,
        OF assms(5) assms(7) assms(8) f assms(6) assms(10)] a unfolding m by simp
  then have "Clerk_Get E k (c, h) = Some (Inr (gr_value reply, c1\<lparr>m_recentLeaderId := leader, m_servers := chs\<rparr>, h'))"
    using Clerk_Get_unfold [of c E k h] unfolding n_def call_def c1_def by (simp add: set_leader_def)
  moreover have "0 < n" using assms(5) by simp
  then have "m \<le> n" unfolding m by (rule Suc_leI [OF mod_less_divisor])
  ultimately show ?thesis using a by blast
qed

text \<open>A write never returns when the server it asks keeps answering with an error code other than
  \<open>OK\<close> and \<open>ErrWrongLeader\<close>: the loop asks the same server for ever. An empty answer, which is what a
  connection closed by the server parses to, is such an answer.\<close>

theorem Clerk_PutAppend_spins:
  assumes "answers pr_err good (clerk_put_call E (clerk_put_args k v op (c\<lparr>m_requestId := m_requestId c + 1\<rparr>)))
      (m_recentLeaderId c) reply" "pr_err reply \<noteq> OK" "good (m_servers c, h)"
  shows "Clerk_PutAppend E k v op (c, h) = None"
proof -
  have "PutAppend_final reply = None" using assms(2) by (simp add: PutAppend_final_def)
  from retry_loop_spins [where good = good and err = pr_err and server = "m_recentLeaderId c" and
      st = "(m_servers c, h)" and final = PutAppend_final and reply = reply and
      call = "clerk_put_call E (clerk_put_args k v op (c\<lparr>m_requestId := m_requestId c + 1\<rparr>))", OF assms(1) this assms(3)] show ?thesis
    by (simp add: Clerk_PutAppend_def Let_def)
qed

subsection \<open>The cluster from the configuration file\<close>

lemma connect_servers_lazy:
  "connect_servers N l h = (map (\<lambda>(ip, port). \<lparr>m_clientFd = -1, m_ip = ip, m_port = word_of_int port\<rparr>) l, h)"
proof -
  have "foldl (\<lambda>(chs, h) (ip, port). case raftServerRpcUtil_ctor N ip port h of (c, h') \<Rightarrow> (chs @ [c], h')) (acc, h) l =
      (acc @ map (\<lambda>(ip, port). \<lparr>m_clientFd = -1, m_ip = ip, m_port = word_of_int port\<rparr>) l, h)" for acc
    by (induction l arbitrary: acc) (auto simp: raftServerRpcUtil_ctor_def MprpcChannel_ctor_def Let_def)
  then show ?thesis by (simp add: connect_servers_def)
qed

subsection \<open>Sample runs\<close>

text \<open>Messages of one letter per field; the answer \<open>O v\<close> is \<open>OK\<close> with the value \<open>v\<close>.\<close>

definition messages0 :: kv_messages where
  "messages0 = \<lparr>ser_get = (\<lambda>a. Some ''ab''),
     par_get = (\<lambda>s. case s of CHR ''O'' # v \<Rightarrow> Some \<lparr>gr_err = OK, gr_value = v\<rparr> | _ \<Rightarrow> Some \<lparr>gr_err = ErrWrongLeader, gr_value = []\<rparr>),
     ser_put = (\<lambda>a. Some ''ab''), par_put = (\<lambda>s. if s = [] then Some \<lparr>pr_err = []\<rparr> else Some \<lparr>pr_err = OK\<rparr>)\<rparr>"

definition env0 :: "(nat \<Rightarrow> string) \<Rightarrow> unit rpc_env" where
  "env0 answer = \<lparr>rpc_os = (net0 [])\<lparr>n_recv := (\<lambda>fd n w. (Some (take n (answer fd)), w))\<rparr>,
     rpc_wire = varint_wire, rpc_coded = coded0, rpc_messages = messages0\<rparr>"

definition servers0 :: "MprpcChannel list" where
  "servers0 = [\<lparr>m_clientFd = 3, m_ip = ''10.0.0.1'', m_port = 27000\<rparr>, \<lparr>m_clientFd = 4, m_ip = ''10.0.0.2'', m_port = 27000\<rparr>]"

definition clerk0 :: Clerk where
  "clerk0 = (Clerk_ctor ''1234'')\<lparr>m_servers := servers0\<rparr>"

lemma headers0:
  "\<exists>hdr. SerializeToString varint_wire (request_header ''KvServerRpc'' ''Get'' ''ab'') = Some hdr"
  "\<exists>hdr. SerializeToString varint_wire (request_header ''KvServerRpc'' ''PutAppend'' ''ab'') = Some hdr"
  by (simp_all add: SerializeToString_def ByteSizeLong_def request_header_def SharedCtor_def varint_wire_def put_varint.simps)

lemma call_env0:
  assumes "m_clientFd c = int fd" "\<exists>hdr. SerializeToString varint_wire (request_header svc meth ''ab'') = Some hdr"
    "parse (take 1024 (answer fd)) = Some r"
  shows "stub_call (rpc_os (env0 answer)) varint_wire coded0 svc meth (Some ''ab'') parse (c, h) =
    Some (Inr (True, Some r, (c, h)))"
proof -
  from assms(2) obtain hdr where hdr: "SerializeToString varint_wire (request_header svc meth ''ab'') = Some hdr" ..
  have send: "send_loop (rpc_os (env0 answer)) str (c, h) = Some (Inr (), (c, h))" for str
    by (subst send_loop.simps) (simp add: env0_def net0_def)
  have "recv_reply (rpc_os (env0 answer)) parse newController (c, h) = Inr (Some r, newController, (c, h))"
    using assms(1,3) by (simp add: recv_reply_def env0_def)
  then show ?thesis using assms(1) by (simp add: stub_call_def CallMethod_def hdr send)
qed

lemma env0_simps [simp]:
  "rpc_wire (env0 a) = varint_wire" "rpc_coded (env0 a) = coded0" "rpc_messages (env0 a) = messages0"
  "ser_get messages0 g = Some ''ab''" "ser_put messages0 p = Some ''ab''"
  by (simp_all add: env0_def messages0_def)

theorem Clerk_Get_finds_leader_witness:
  "Clerk_Get (env0 (\<lambda>fd. if fd = 4 then ''Ov'' else ''N'')) ''k'' (clerk0, host0) =
     Some (Inr (''v'', clerk0\<lparr>m_requestId := 1, m_recentLeaderId := 1\<rparr>, host0))"
proof -
  let ?E = "env0 (\<lambda>fd. if fd = 4 then ''Ov'' else ''N'')"
  let ?call = "clerk_get_call ?E (clerk_get_args ''k'' (clerk0\<lparr>m_requestId := m_requestId clerk0 + 1\<rparr>))"
  let ?good = "\<lambda>st. st = (servers0, host0)"
  have c: "?call 0 (servers0, host0) = Some (Inr (True, \<lparr>gr_err = ErrWrongLeader, gr_value = []\<rparr>, (servers0, host0)))"
    "?call 1 (servers0, host0) = Some (Inr (True, \<lparr>gr_err = OK, gr_value = ''v''\<rparr>, (servers0, host0)))"
    by (simp_all add: clerk_get_call_def server_call_def raftServerRpcUtil_Get_def servers0_def
        call_env0 [where fd = 3, OF _ headers0(1)] call_env0 [where fd = 4, OF _ headers0(1)] messages0_def)
  have n: "length (m_servers clerk0) = 2" "m_recentLeaderId clerk0 = 0" "m_servers clerk0 = servers0" "m_requestId clerk0 = 0"
    by (simp_all add: clerk0_def servers0_def Clerk_ctor_def)
  have r: "redirects gr_err ?good ?call i" if "i < length (m_servers clerk0)" "i \<noteq> 1" for i
  proof -
    from that n(1) have "i = 0" by simp
    with c(1) show ?thesis unfolding redirects_def by auto
  qed
  have a: "answers gr_err ?good ?call 1 \<lparr>gr_err = OK, gr_value = ''v''\<rparr>"
    using c(2) by (simp add: answers_def OK_def ErrWrongLeader_def)
  have two: "after_calls 2 ?call 0 2 (servers0, host0) = (servers0, host0)"
    using c by (simp add: eval_nat_numeral)
  have e: "clerk0\<lparr>m_requestId := 1, m_recentLeaderId := 1, m_servers := servers0\<rparr> = clerk0\<lparr>m_requestId := 1, m_recentLeaderId := 1\<rparr>"
    by (simp add: clerk0_def)
  have m: "(1 + length (m_servers clerk0) - m_recentLeaderId clerk0) mod length (m_servers clerk0) + 1 = 2" unfolding n(1,2) by simp
  have two': "after_calls (length (m_servers clerk0)) ?call (m_recentLeaderId clerk0) 2 (m_servers clerk0, host0) = (servers0, host0)"
    unfolding n(1,2) unfolding n(3) by (rule two)
  have lt: "1 < length (m_servers clerk0)" "m_recentLeaderId clerk0 < length (m_servers clerk0)" unfolding n(1,2) by simp_all
  have g: "?good (m_servers clerk0, host0)" by (simp add: n)
  have ok: "gr_err \<lparr>gr_err = OK, gr_value = ''v''\<rparr> = OK" by simp
  from Clerk_Get_finds_leader [where E = ?E, OF lt r a ok g] obtain chs h' where
    "(servers0, host0) = (chs, h')" "Clerk_Get ?E ''k'' (clerk0, host0) = Some (Inr (''v'',
       clerk0\<lparr>m_requestId := m_requestId clerk0 + 1, m_recentLeaderId := 1, m_servers := chs\<rparr>, h'))"
    unfolding m two' by auto
  with e show ?thesis by (simp add: n)
qed

theorem Clerk_PutAppend_spins_witness:
  "Clerk_PutAppend (env0 (\<lambda>fd. [])) ''k'' ''v'' ''Put'' (clerk0, host0) = None"
proof -
  let ?E = "env0 (\<lambda>fd. [])"
  let ?call = "clerk_put_call ?E (clerk_put_args ''k'' ''v'' ''Put'' (clerk0\<lparr>m_requestId := m_requestId clerk0 + 1\<rparr>))"
  have c: "?call 0 (servers0, host0) = Some (Inr (True, \<lparr>pr_err = []\<rparr>, (servers0, host0)))"
    by (simp add: clerk_put_call_def server_call_def raftServerRpcUtil_PutAppend_def servers0_def
        call_env0 [where fd = 3, OF _ headers0(2)] messages0_def)
  have n: "m_recentLeaderId clerk0 = 0" "m_servers clerk0 = servers0"
    by (simp_all add: clerk0_def Clerk_ctor_def)
  have "answers pr_err (\<lambda>st. st = (servers0, host0)) ?call 0 \<lparr>pr_err = []\<rparr>"
    using c by (simp add: answers_def ErrWrongLeader_def)
  from Clerk_PutAppend_spins [where c = clerk0 and h = host0 and good = "\<lambda>st. st = (servers0, host0)"] this n show ?thesis
    by (simp add: OK_def)
qed

end
