(* ===== verification/Scheduler.thy ===== *)
theory Scheduler
  imports Prelude "HOL-Library.Multiset"
begin

text \<open>
  src/fiber/fiber.cpp and src/fiber/scheduler.cpp: fibers, and the scheduler that runs them on its
  threads. A fiber is an object with a state; switching the stack is represented by the place a thread
  is in (\<open>pc\<close>): in the loop of \<open>Scheduler::run\<close>, or in a fiber it resumed. What a fiber does between two
  switches is the rest of the program. \<open>held\<close> counts the references to fibers that are kept outside the
  scheduler (by waiting events, timers, the program); a fiber nobody refers to is destroyed. Each
  section under the scheduler's mutex is one step; the steps of threads interleave.
\<close>

datatype fstate = READY | RUNNING | TERM_state

record 'cb fiber =
  f_state :: fstate
  f_stack :: bool
  f_cb :: "'cb option"
  f_in_scheduler :: bool

record 'cb sched_task =
  t_fiber :: "nat option"
  t_cb :: "'cb option"
  t_thread :: int

datatype place = Outside | Spawned | Loop | InFiber nat | InCb nat | InIdle | Exited

record thread =
  cur_fiber :: "nat option"
  cur_thread_fiber :: "nat option"
  cur_scheduler_fiber :: "nat option"
  cur_scheduler :: bool
  idle_fiber :: "nat option"
  pc :: place

record 'cb Scheduler =
  fibers :: "nat \<Rightarrow> 'cb fiber option"
  cur_fiber_id :: nat
  threads :: "int \<Rightarrow> thread"
  held :: "nat multiset"
  m_tasks :: "'cb sched_task list"
  m_threadPool :: "int list"
  m_threadCount :: nat
  m_activeThreadCount :: "64 word"
  m_idleThreadCount :: "64 word"
  m_useCaller :: bool
  m_rootFiber :: "nat option"
  m_rootThread :: int
  m_isStopped :: bool
  tickles :: nat

subsection \<open>Fibers\<close>

definition put_fiber :: "nat \<Rightarrow> 'cb fiber \<Rightarrow> 'cb Scheduler \<Rightarrow> 'cb Scheduler" where
  "put_fiber f x s = s\<lparr>fibers := (fibers s)(f \<mapsto> x)\<rparr>"

definition put_thread :: "int \<Rightarrow> thread \<Rightarrow> 'cb Scheduler \<Rightarrow> 'cb Scheduler" where
  "put_thread t x s = s\<lparr>threads := (threads s)(t := x)\<rparr>"

definition set_pc :: "int \<Rightarrow> place \<Rightarrow> 'cb Scheduler \<Rightarrow> 'cb Scheduler" where
  "set_pc t p s = put_thread t ((threads s t)\<lparr>pc := p\<rparr>) s"

definition SetThis :: "int \<Rightarrow> nat option \<Rightarrow> 'cb Scheduler \<Rightarrow> 'cb Scheduler" where
  "SetThis t f s = put_thread t ((threads s t)\<lparr>cur_fiber := f\<rparr>) s"

definition Fiber_main :: "int \<Rightarrow> 'cb Scheduler \<Rightarrow> nat \<times> 'cb Scheduler" where
  "Fiber_main t s =
     (let f = cur_fiber_id s;
          x = \<lparr>f_state = RUNNING, f_stack = False, f_cb = None, f_in_scheduler = False\<rparr>
      in (f, SetThis t (Some f) (put_fiber f x (s\<lparr>cur_fiber_id := f + 1\<rparr>))))"

definition Fiber_GetThis :: "int \<Rightarrow> 'cb Scheduler \<Rightarrow> nat \<times> 'cb Scheduler" where
  "Fiber_GetThis t s =
     (case cur_fiber (threads s t) of Some f \<Rightarrow> (f, s)
      | None \<Rightarrow> (case Fiber_main t s of (f, s1) \<Rightarrow> (f, put_thread t ((threads s1 t)\<lparr>cur_thread_fiber := Some f\<rparr>) s1)))"

definition Fiber_ctor :: "'cb option \<Rightarrow> bool \<Rightarrow> 'cb Scheduler \<Rightarrow> nat \<times> 'cb Scheduler" where
  "Fiber_ctor cb run_in_scheduler s =
     (let f = cur_fiber_id s;
          x = \<lparr>f_state = READY, f_stack = True, f_cb = cb, f_in_scheduler = run_in_scheduler\<rparr>
      in (f, put_fiber f x (s\<lparr>cur_fiber_id := f + 1\<rparr>)))"

text \<open>The context a switch saves to or loads from: the scheduling fiber's, or the thread's main fiber's.\<close>

definition other_context :: "int \<Rightarrow> 'cb fiber \<Rightarrow> 'cb Scheduler \<Rightarrow> nat option" where
  "other_context t x s = (if f_in_scheduler x then cur_scheduler_fiber (threads s t) else cur_thread_fiber (threads s t))"

definition Fiber_resume :: "int \<Rightarrow> nat \<Rightarrow> 'cb Scheduler \<Rightarrow> 'cb Scheduler res" where
  "Fiber_resume t f s =
     (case fibers s f of None \<Rightarrow> Inl NullDeref
      | Some x \<Rightarrow>
          bindR (guardR AssertFailed (f_state x \<noteq> TERM_state \<and> f_state x \<noteq> RUNNING)) (\<lambda>_.
          bindR (guardR NullDeref (other_context t x s \<noteq> None)) (\<lambda>_.
          Inr (put_fiber f (x\<lparr>f_state := RUNNING\<rparr>) (SetThis t (Some f) s)))))"

definition Fiber_yield :: "int \<Rightarrow> nat \<Rightarrow> 'cb Scheduler \<Rightarrow> 'cb Scheduler res" where
  "Fiber_yield t f s =
     (case fibers s f of None \<Rightarrow> Inl NullDeref
      | Some x \<Rightarrow>
          bindR (guardR AssertFailed (f_state x = TERM_state \<or> f_state x = RUNNING)) (\<lambda>_.
          let s1 = SetThis t (cur_thread_fiber (threads s t)) s;
              x1 = (if f_state x \<noteq> TERM_state then x\<lparr>f_state := READY\<rparr> else x)
          in bindR (guardR NullDeref (other_context t x s \<noteq> None)) (\<lambda>_. Inr (put_fiber f x1 s1))))"

text \<open>The end of \<open>MainFunc\<close>, after the callback returned.\<close>

definition Fiber_finish :: "int \<Rightarrow> nat \<Rightarrow> 'cb Scheduler \<Rightarrow> 'cb Scheduler res" where
  "Fiber_finish t f s =
     (case fibers s f of None \<Rightarrow> Inl NullDeref
      | Some x \<Rightarrow> Fiber_yield t f (put_fiber f (x\<lparr>f_cb := None, f_state := TERM_state\<rparr>) s))"

definition Fiber_reset :: "nat \<Rightarrow> 'cb option \<Rightarrow> 'cb Scheduler \<Rightarrow> 'cb Scheduler res" where
  "Fiber_reset f cb s =
     (case fibers s f of None \<Rightarrow> Inl NullDeref
      | Some x \<Rightarrow>
          bindR (guardR AssertFailed (f_stack x)) (\<lambda>_.
          bindR (guardR AssertFailed (f_state x = TERM_state)) (\<lambda>_.
          Inr (put_fiber f (x\<lparr>f_cb := cb, f_state := READY\<rparr>) s))))"

definition Fiber_dtor :: "int \<Rightarrow> nat \<Rightarrow> 'cb Scheduler \<Rightarrow> 'cb Scheduler res" where
  "Fiber_dtor t f s =
     (case fibers s f of None \<Rightarrow> Inl NullDeref
      | Some x \<Rightarrow>
          let gone = s\<lparr>fibers := (fibers s)(f := None)\<rparr> in
          if f_stack x then bindR (guardR AssertFailed (f_state x = TERM_state)) (\<lambda>_. Inr gone)
          else bindR (guardR AssertFailed (f_cb x = None)) (\<lambda>_.
               bindR (guardR AssertFailed (f_state x = RUNNING)) (\<lambda>_.
               Inr (if cur_fiber (threads s t) = Some f then SetThis t None gone else gone))))"

text \<open>A \<open>shared_ptr\<close> to a fiber goes away: the last one destroys it.\<close>

definition drop_ref :: "int \<Rightarrow> nat \<Rightarrow> 'cb Scheduler \<Rightarrow> 'cb Scheduler res" where
  "drop_ref t f s =
     (if f \<in># held s \<or> Some f \<in> set (map t_fiber (m_tasks s)) then Inr s else Fiber_dtor t f s)"

subsection \<open>The scheduler\<close>

definition no_thread :: thread where
  "no_thread = \<lparr>cur_fiber = None, cur_thread_fiber = None, cur_scheduler_fiber = None, cur_scheduler = False,
     idle_fiber = None, pc = Outside\<rparr>"

text \<open>The constructor, in the thread \<open>t\<close>; \<open>run\<close> is the callback of the fiber that runs \<open>Scheduler::run\<close>.\<close>

definition Scheduler_ctor :: "'cb \<Rightarrow> int \<Rightarrow> nat \<Rightarrow> bool \<Rightarrow> 'cb Scheduler \<Rightarrow> 'cb Scheduler res" where
  "Scheduler_ctor run t n use_caller s0 =
     bindR (guardR AssertFailed (n > 0)) (\<lambda>_.
       let s = s0\<lparr>m_useCaller := use_caller\<rparr> in
       if use_caller then
         (case Fiber_GetThis t s of (_, s1) \<Rightarrow>
          bindR (guardR AssertFailed (\<not> cur_scheduler (threads s1 t))) (\<lambda>_.
          case Fiber_ctor (Some run) False s1 of (root, s2) \<Rightarrow>
          Inr ((put_thread t ((threads s2 t)\<lparr>cur_scheduler := True, cur_scheduler_fiber := Some root\<rparr>) s2)
                 \<lparr>m_rootFiber := Some root, m_rootThread := t, m_threadCount := n - 1\<rparr>)))
       else Inr (s\<lparr>m_rootThread := -1, m_threadCount := n\<rparr>))"

definition scheduleNoLock :: "'cb sched_task \<Rightarrow> 'cb Scheduler \<Rightarrow> bool \<times> 'cb Scheduler" where
  "scheduleNoLock task s =
     (m_tasks s = [], if t_fiber task \<noteq> None \<or> t_cb task \<noteq> None then s\<lparr>m_tasks := m_tasks s @ [task]\<rparr> else s)"

definition tickle :: "'cb Scheduler \<Rightarrow> 'cb Scheduler" where
  "tickle s = s\<lparr>tickles := tickles s + 1\<rparr>"

definition schedule :: "'cb sched_task \<Rightarrow> 'cb Scheduler \<Rightarrow> 'cb Scheduler" where
  "schedule task s = (case scheduleNoLock task s of (need, s1) \<Rightarrow> if need then tickle s1 else s1)"

definition sched_start :: "int list \<Rightarrow> 'cb Scheduler \<Rightarrow> 'cb Scheduler res" where
  "sched_start tids s =
     (if m_isStopped s then Inr s
      else bindR (guardR AssertFailed (m_threadPool s = [])) (\<lambda>_.
        Inr (fold (\<lambda>t. set_pc t Spawned) tids (s\<lparr>m_threadPool := tids\<rparr>))))"

text \<open>The beginning of \<open>run\<close>.\<close>

definition run_begin :: "'cb \<Rightarrow> int \<Rightarrow> 'cb Scheduler \<Rightarrow> 'cb Scheduler" where
  "run_begin idle t s0 =
     (let s1 = put_thread t ((threads s0 t)\<lparr>cur_scheduler := True\<rparr>) s0;
          s2 = (if t \<noteq> m_rootThread s1 then
                  (case Fiber_GetThis t s1 of (f, u) \<Rightarrow> put_thread t ((threads u t)\<lparr>cur_scheduler_fiber := Some f\<rparr>) u)
                else s1)
      in case Fiber_ctor (Some idle) True s2 of (i, s3) \<Rightarrow>
           put_thread t ((threads s3 t)\<lparr>idle_fiber := Some i, pc := Loop\<rparr>) s3)"

text \<open>The search of the task queue: whether to tickle, the task found and the rest of the queue.\<close>

fun find_task ::
  "int \<Rightarrow> (nat \<Rightarrow> 'cb fiber option) \<Rightarrow> 'cb sched_task list \<Rightarrow> (bool \<times> 'cb sched_task option \<times> 'cb sched_task list) res"
where
  "find_task t fs [] = Inr (False, None, [])"
| "find_task t fs (x # xs) =
     (if t_thread x \<noteq> -1 \<and> t_thread x \<noteq> t then
        bindR (find_task t fs xs) (\<lambda>(_, r, rest). Inr (True, r, x # rest))
      else bindR (guardR AssertFailed (t_fiber x \<noteq> None \<or> t_cb x \<noteq> None)) (\<lambda>_.
        bindR (case t_fiber x of None \<Rightarrow> Inr ()
               | Some f \<Rightarrow> (case fs f of None \<Rightarrow> Inl NullDeref | Some y \<Rightarrow> guardR AssertFailed (f_state y = READY))) (\<lambda>_.
        Inr (xs \<noteq> [], Some x, xs))))"

text \<open>A turn of the loop up to the switch. The fiber made for a callback is new every time: \<open>cbFiber\<close> is
  empty when the loop comes round.\<close>

definition run_take :: "int \<Rightarrow> 'cb Scheduler \<Rightarrow> 'cb Scheduler res" where
  "run_take t s =
     bindR (find_task t (fibers s) (m_tasks s)) (\<lambda>(tickle_me, task, rest).
       let s1 = (if task \<noteq> None then s\<lparr>m_tasks := rest, m_activeThreadCount := m_activeThreadCount s + 1\<rparr> else s);
           s2 = (if tickle_me then tickle s1 else s1)
       in case task of
            Some x \<Rightarrow>
              (case t_fiber x of
                 Some f \<Rightarrow> bindR (Fiber_resume t f s2) (\<lambda>s3. Inr (set_pc t (InFiber f) s3))
               | None \<Rightarrow> (case Fiber_ctor (t_cb x) True s2 of (f, s3) \<Rightarrow>
                   bindR (Fiber_resume t f s3) (\<lambda>s4. Inr (set_pc t (InCb f) s4))))
          | None \<Rightarrow>
              (case idle_fiber (threads s2 t) of None \<Rightarrow> Inl NullDeref
               | Some i \<Rightarrow> (case fibers s2 i of None \<Rightarrow> Inl NullDeref
                 | Some y \<Rightarrow>
                     if f_state y = TERM_state then Inr (set_pc t Exited s2)
                     else bindR (Fiber_resume t i (s2\<lparr>m_idleThreadCount := m_idleThreadCount s2 + 1\<rparr>))
                            (\<lambda>s3. Inr (set_pc t InIdle s3)))))"

definition leave :: "int \<Rightarrow> bool \<Rightarrow> nat \<Rightarrow> 'cb Scheduler \<Rightarrow> 'cb Scheduler res" where
  "leave t done f s = (if done then Fiber_finish t f s else Fiber_yield t f s)"

text \<open>A turn of the loop after the switch back, when the fiber yielded or its function returned.\<close>

definition run_back :: "int \<Rightarrow> bool \<Rightarrow> 'cb Scheduler \<Rightarrow> 'cb Scheduler res" where
  "run_back t done s =
     (case pc (threads s t) of
        InFiber f \<Rightarrow> bindR (leave t done f s) (\<lambda>s1.
          bindR (drop_ref t f (s1\<lparr>m_activeThreadCount := m_activeThreadCount s1 - 1\<rparr>)) (\<lambda>s2. Inr (set_pc t Loop s2)))
      | InCb f \<Rightarrow> bindR (leave t done f s) (\<lambda>s1.
          bindR (drop_ref t f (s1\<lparr>m_activeThreadCount := m_activeThreadCount s1 - 1\<rparr>)) (\<lambda>s2. Inr (set_pc t Loop s2)))
      | InIdle \<Rightarrow> (case idle_fiber (threads s t) of None \<Rightarrow> Inl NullDeref
          | Some i \<Rightarrow> bindR (leave t done i s) (\<lambda>s1.
              Inr (set_pc t Loop (s1\<lparr>m_idleThreadCount := m_idleThreadCount s1 - 1\<rparr>))))
      | _ \<Rightarrow> Inl NullDeref)"

definition sched_stopping :: "'cb Scheduler \<Rightarrow> bool" where
  "sched_stopping s \<longleftrightarrow> m_isStopped s \<and> m_tasks s = [] \<and> m_activeThreadCount s = 0"

text \<open>\<open>stop\<close> in the thread \<open>t\<close>, up to the switch to the root fiber; the result says whether it goes on.\<close>

definition stop_tickles :: "'cb Scheduler \<Rightarrow> 'cb Scheduler" where
  "stop_tickles s =
     (let s2 = (tickle ^^ m_threadCount s) s in if m_rootFiber s2 \<noteq> None then tickle s2 else s2)"

definition resume_root :: "int \<Rightarrow> 'cb Scheduler \<Rightarrow> (bool \<times> 'cb Scheduler) res" where
  "resume_root t s =
     (case m_rootFiber s of None \<Rightarrow> Inr (True, s)
      | Some root \<Rightarrow> bindR (Fiber_resume t root s) (\<lambda>s4. Inr (True, set_pc t Spawned s4)))"

definition sched_stop :: "int \<Rightarrow> 'cb Scheduler \<Rightarrow> (bool \<times> 'cb Scheduler) res" where
  "sched_stop t s =
     (if sched_stopping s then Inr (False, s)
      else let s1 = s\<lparr>m_isStopped := True\<rparr> in
        bindR (guardR AssertFailed (if m_useCaller s1 then cur_scheduler (threads s1 t) else \<not> cur_scheduler (threads s1 t)))
          (\<lambda>_. resume_root t (stop_tickles s1)))"

definition Scheduler_dtor :: "int \<Rightarrow> 'cb Scheduler \<Rightarrow> 'cb Scheduler res" where
  "Scheduler_dtor t s =
     bindR (guardR AssertFailed (m_isStopped s)) (\<lambda>_.
       Inr (if cur_scheduler (threads s t) then put_thread t ((threads s t)\<lparr>cur_scheduler := False\<rparr>) s else s))"

subsection \<open>The task a thread takes\<close>

definition pinned_elsewhere :: "int \<Rightarrow> 'cb sched_task \<Rightarrow> bool" where
  "pinned_elsewhere t x \<longleftrightarrow> t_thread x \<noteq> -1 \<and> t_thread x \<noteq> t"

text \<open>A task that can be run: a fiber that is ready, or a callback.\<close>

definition task_ok :: "(nat \<Rightarrow> 'cb fiber option) \<Rightarrow> 'cb sched_task \<Rightarrow> bool" where
  "task_ok fs x \<longleftrightarrow> (case t_fiber x of
       Some f \<Rightarrow> (\<exists>y. fs f = Some y \<and> f_state y = READY \<and> f_stack y \<and> f_in_scheduler y)
     | None \<Rightarrow> t_cb x \<noteq> None)"

lemma find_task_result:
  assumes "\<forall>x \<in> set xs. task_ok fs x"
  shows "\<exists>r rest. find_task t fs xs = Inr (rest \<noteq> [], r, rest) \<and>
    (case r of
       None \<Rightarrow> rest = xs \<and> (\<forall>x \<in> set xs. pinned_elsewhere t x)
     | Some x \<Rightarrow> \<not> pinned_elsewhere t x \<and>
         (\<exists>pre post. xs = pre @ x # post \<and> rest = pre @ post \<and> (\<forall>y \<in> set pre. pinned_elsewhere t y)))"
  using assms
proof (induction xs)
  case (Cons x xs)
  show ?case
  proof (cases "pinned_elsewhere t x")
    case True
    from Cons obtain r rest where r: "find_task t fs xs = Inr (rest \<noteq> [], r, rest)"
      "case r of None \<Rightarrow> rest = xs \<and> (\<forall>x \<in> set xs. pinned_elsewhere t x)
       | Some x \<Rightarrow> \<not> pinned_elsewhere t x \<and>
         (\<exists>pre post. xs = pre @ x # post \<and> rest = pre @ post \<and> (\<forall>y \<in> set pre. pinned_elsewhere t y))" by auto
    then have f: "find_task t fs (x # xs) = Inr (x # rest \<noteq> [], r, x # rest)" using True by (simp add: pinned_elsewhere_def)
    show ?thesis
    proof (cases r)
      case None
      then have "x # rest = x # xs \<and> (\<forall>y \<in> set (x # xs). pinned_elsewhere t y)" using r(2) True by simp
      then show ?thesis using f unfolding None by (intro exI conjI) (assumption, simp)
    next
      case (Some y)
      then obtain pre post where p: "xs = pre @ y # post" "rest = pre @ post" "\<forall>z \<in> set pre. pinned_elsewhere t z" "\<not> pinned_elsewhere t y"
        using r(2) by auto
      then have "\<not> pinned_elsewhere t y \<and> (\<exists>pre post. x # xs = pre @ y # post \<and> x # rest = pre @ post \<and> (\<forall>z \<in> set pre. pinned_elsewhere t z))"
        using True by (intro conjI exI [of _ "x # pre"] exI [of _ post]) simp_all
      then show ?thesis using f unfolding Some by (intro exI conjI) (assumption, simp)
    qed
  next
    case False
    then have "find_task t fs (x # xs) = Inr (xs \<noteq> [], Some x, xs)"
      using Cons.prems by (auto simp: pinned_elsewhere_def task_ok_def split: option.splits)
    then show ?thesis using False by (intro exI [of _ "Some x"] exI [of _ xs]) (auto intro: exI [of _ "[]"])
  qed
qed simp

subsection \<open>The invariant\<close>

definition runs_task :: "'cb Scheduler \<Rightarrow> int \<Rightarrow> nat \<Rightarrow> bool" where
  "runs_task s t f \<longleftrightarrow> pc (threads s t) = InFiber f \<or> pc (threads s t) = InCb f"

definition occupies :: "'cb Scheduler \<Rightarrow> int \<Rightarrow> nat \<Rightarrow> bool" where
  "occupies s t f \<longleftrightarrow> runs_task s t f \<or> pc (threads s t) = InIdle \<and> idle_fiber (threads s t) = Some f"

definition at_work :: "'cb Scheduler \<Rightarrow> int \<Rightarrow> bool" where
  "at_work s t \<longleftrightarrow> pc (threads s t) \<in> {Loop, InIdle} \<or> (\<exists>f. runs_task s t f)"

definition queued :: "'cb sched_task list \<Rightarrow> nat list" where
  "queued xs = List.map_filter t_fiber xs"

definition busy_threads :: "'cb Scheduler \<Rightarrow> int set" where
  "busy_threads s = {t. \<exists>f. runs_task s t f}"

definition idle_ok :: "'cb Scheduler \<Rightarrow> int \<Rightarrow> bool" where
  "idle_ok s t \<longleftrightarrow> cur_scheduler_fiber (threads s t) \<noteq> None \<and>
     (\<exists>i y. idle_fiber (threads s t) = Some i \<and> fibers s i = Some y \<and> f_stack y \<and> f_in_scheduler y \<and>
        (f_state y = RUNNING \<longleftrightarrow> pc (threads s t) = InIdle))"

definition sched_ok :: "'cb Scheduler \<Rightarrow> bool" where
  "sched_ok s \<longleftrightarrow>
     (\<forall>t f. runs_task s t f \<longrightarrow> (\<exists>x. fibers s f = Some x \<and> f_state x = RUNNING \<and> f_stack x \<and> f_in_scheduler x)) \<and>
     (\<forall>t u f. runs_task s t f \<longrightarrow> runs_task s u f \<longrightarrow> t = u) \<and>
     (\<forall>x \<in> set (m_tasks s). task_ok (fibers s) x) \<and> distinct (queued (m_tasks s)) \<and>
     (\<forall>t. at_work s t \<longrightarrow> idle_ok s t) \<and>
     (\<forall>t i. at_work s t \<longrightarrow> idle_fiber (threads s t) = Some i \<longrightarrow>
        i \<notin> set (queued (m_tasks s)) \<and> i \<notin># held s \<and> (\<forall>u. \<not> runs_task s u i) \<and>
        (\<forall>u. at_work s u \<longrightarrow> idle_fiber (threads s u) = Some i \<longrightarrow> u = t)) \<and>
     (\<forall>f \<ge> cur_fiber_id s. fibers s f = None) \<and> (\<forall>f. f \<in># held s \<longrightarrow> fibers s f \<noteq> None) \<and>
     finite (busy_threads s) \<and> m_activeThreadCount s = word_of_nat (card (busy_threads s))"

lemma sched_okD:
  assumes "sched_ok s"
  shows "runs_task s t f \<Longrightarrow> \<exists>x. fibers s f = Some x \<and> f_state x = RUNNING \<and> f_stack x \<and> f_in_scheduler x"
    "runs_task s t f \<Longrightarrow> runs_task s u f \<Longrightarrow> t = u"
    "\<forall>x \<in> set (m_tasks s). task_ok (fibers s) x" "distinct (queued (m_tasks s))"
    "at_work s t \<Longrightarrow> idle_ok s t"
    "at_work s t \<Longrightarrow> idle_fiber (threads s t) = Some i \<Longrightarrow>
       i \<notin> set (queued (m_tasks s)) \<and> i \<notin># held s \<and> \<not> runs_task s u i \<and>
       (at_work s u \<longrightarrow> idle_fiber (threads s u) = Some i \<longrightarrow> u = t)"
    "cur_fiber_id s \<le> f \<Longrightarrow> fibers s f = None" "f \<in># held s \<Longrightarrow> fibers s f \<noteq> None"
    "finite (busy_threads s)" "m_activeThreadCount s = word_of_nat (card (busy_threads s))"
  using assms unfolding sched_ok_def by blast+

lemma sched_okI:
  assumes "\<And>t f. runs_task s t f \<Longrightarrow> \<exists>x. fibers s f = Some x \<and> f_state x = RUNNING \<and> f_stack x \<and> f_in_scheduler x"
    "\<And>t u f. runs_task s t f \<Longrightarrow> runs_task s u f \<Longrightarrow> t = u"
    "\<And>x. x \<in> set (m_tasks s) \<Longrightarrow> task_ok (fibers s) x" "distinct (queued (m_tasks s))"
    "\<And>t. at_work s t \<Longrightarrow> idle_ok s t"
    "\<And>t i. at_work s t \<Longrightarrow> idle_fiber (threads s t) = Some i \<Longrightarrow> i \<notin> set (queued (m_tasks s)) \<and> i \<notin># held s"
    "\<And>t u i. at_work s t \<Longrightarrow> idle_fiber (threads s t) = Some i \<Longrightarrow> \<not> runs_task s u i"
    "\<And>t u i. at_work s t \<Longrightarrow> idle_fiber (threads s t) = Some i \<Longrightarrow> at_work s u \<Longrightarrow> idle_fiber (threads s u) = Some i \<Longrightarrow> u = t"
    "\<And>f. cur_fiber_id s \<le> f \<Longrightarrow> fibers s f = None" "\<And>f. f \<in># held s \<Longrightarrow> fibers s f \<noteq> None"
    "finite (busy_threads s)" "m_activeThreadCount s = word_of_nat (card (busy_threads s))"
  shows "sched_ok s"
  using assms unfolding sched_ok_def by blast

lemma queued_simps [simp]:
  "queued [] = []" "queued (x # xs) = (case t_fiber x of None \<Rightarrow> queued xs | Some f \<Rightarrow> f # queued xs)"
  "queued (xs @ ys) = queued xs @ queued ys"
  by (simp_all add: queued_def map_filter_simps map_filter_def split: option.split)

lemma queued_iff: "f \<in> set (queued xs) \<longleftrightarrow> (\<exists>x \<in> set xs. t_fiber x = Some f)"
  by (induction xs) (auto split: option.splits)

lemma field_simps_sched [simp]:
  "threads (put_fiber f x s) = threads s" "fibers (put_fiber f x s) = (fibers s)(f \<mapsto> x)" "m_tasks (put_fiber f x s) = m_tasks s"
  "held (put_fiber f x s) = held s" "cur_fiber_id (put_fiber f x s) = cur_fiber_id s"
  "m_activeThreadCount (put_fiber f x s) = m_activeThreadCount s" "m_isStopped (put_fiber f x s) = m_isStopped s"
  "threads (put_thread t y s) = (threads s)(t := y)" "fibers (put_thread t y s) = fibers s" "m_tasks (put_thread t y s) = m_tasks s"
  "held (put_thread t y s) = held s" "cur_fiber_id (put_thread t y s) = cur_fiber_id s"
  "m_activeThreadCount (put_thread t y s) = m_activeThreadCount s" "m_isStopped (put_thread t y s) = m_isStopped s"
  "threads (tickle s) = threads s" "fibers (tickle s) = fibers s" "m_tasks (tickle s) = m_tasks s"
  "held (tickle s) = held s" "cur_fiber_id (tickle s) = cur_fiber_id s"
  "m_activeThreadCount (tickle s) = m_activeThreadCount s" "m_isStopped (tickle s) = m_isStopped s"
  by (simp_all add: put_fiber_def put_thread_def tickle_def)

text \<open>A thread changes its place: what the other threads run and the idle fibers stay.\<close>

definition moves :: "int \<Rightarrow> place \<Rightarrow> 'cb Scheduler \<Rightarrow> 'cb Scheduler \<Rightarrow> bool" where
  "moves t p s s' \<longleftrightarrow> pc (threads s' t) = p \<and> idle_fiber (threads s' t) = idle_fiber (threads s t) \<and>
     cur_scheduler_fiber (threads s' t) = cur_scheduler_fiber (threads s t) \<and> (\<forall>u. u \<noteq> t \<longrightarrow> threads s' u = threads s u)"

lemma moves_runs:
  assumes "moves t p s s'"
  shows "runs_task s' u g \<longleftrightarrow> (if u = t then p = InFiber g \<or> p = InCb g else runs_task s u g)"
  using assms by (auto simp: moves_def runs_task_def)

lemma moves_at_work:
  assumes "moves t p s s'" "at_work s t" "p \<in> {Loop, InIdle} \<or> (\<exists>f. p = InFiber f \<or> p = InCb f)"
  shows "at_work s' u \<longleftrightarrow> at_work s u"
  using assms by (cases "u = t") (auto simp: moves_def at_work_def runs_task_def)

lemma moves_idle_fiber: "moves t p s s' \<Longrightarrow> idle_fiber (threads s' u) = idle_fiber (threads s u)"
  by (cases "u = t") (auto simp: moves_def)

lemma idle_ok_cong:
  assumes "idle_ok s u" "idle_fiber (threads s' u) = idle_fiber (threads s u)"
    "cur_scheduler_fiber (threads s' u) = cur_scheduler_fiber (threads s u)" "pc (threads s' u) = InIdle \<longleftrightarrow> pc (threads s u) = InIdle"
    "\<And>i. idle_fiber (threads s u) = Some i \<Longrightarrow> fibers s' i = fibers s i"
  shows "idle_ok s' u"
proof -
  from assms(1) obtain i y where i: "cur_scheduler_fiber (threads s u) \<noteq> None" "idle_fiber (threads s u) = Some i"
    "fibers s i = Some y" "f_stack y" "f_in_scheduler y" "f_state y = RUNNING \<longleftrightarrow> pc (threads s u) = InIdle" by (auto simp: idle_ok_def)
  have "fibers s' i = Some y" using assms(5) [OF i(2)] i(3) by simp
  with i assms(2-4) show ?thesis unfolding idle_ok_def by auto
qed

lemma queued_mono: "set xs \<subseteq> set ys \<Longrightarrow> set (queued xs) \<subseteq> set (queued ys)"
  unfolding subset_iff queued_iff by blast

text \<open>A thread starts a task.\<close>

lemma enter_task:
  assumes "sched_ok s" "pc (threads s t) = Loop" "p = InFiber f \<or> p = InCb f" "moves t p s s'"
    "set (m_tasks s') \<subseteq> set (m_tasks s)" "distinct (queued (m_tasks s'))" "f \<notin> set (queued (m_tasks s'))"
    "\<And>u. \<not> runs_task s u f" "\<And>u. at_work s u \<Longrightarrow> idle_fiber (threads s u) \<noteq> Some f"
    "fibers s' = (fibers s)(f \<mapsto> x)" "f_state x = RUNNING" "f_stack x" "f_in_scheduler x"
    "held s' = held s" "cur_fiber_id s \<le> cur_fiber_id s'" "f < cur_fiber_id s'" "m_activeThreadCount s' = m_activeThreadCount s + 1"
  shows "sched_ok s'"
proof -
  have w: "at_work s t" using assms(2) by (simp add: at_work_def)
  note r = moves_runs [OF assms(4)]
  have aw: "at_work s' u = at_work s u" for u using moves_at_work [OF assms(4) w] assms(3) by blast
  note idl = moves_idle_fiber [OF assms(4)]
  have busy: "busy_threads s' = insert t (busy_threads s)" using assms(3) by (auto simp: busy_threads_def r)
  have nb: "t \<notin> busy_threads s" using assms(2) by (simp add: busy_threads_def runs_task_def)
  note q = queued_mono [OF assms(5)]
  have ne: "i \<noteq> f" if "at_work s u" "idle_fiber (threads s u) = Some i" for u i
    using assms(9) [OF that(1)] that(2) by blast
  show ?thesis
  proof (rule sched_okI)
    show "m_activeThreadCount s' = word_of_nat (card (busy_threads s'))"
      unfolding busy assms(17) using sched_okD(9,10) [OF assms(1)] nb by simp
    show "idle_ok s' u" if "at_work s' u" for u
    proof (rule idle_ok_cong [OF sched_okD(5) [OF assms(1) that [unfolded aw]] idl])
      show "cur_scheduler_fiber (threads s' u) = cur_scheduler_fiber (threads s u)" using assms(4) by (cases "u = t") (auto simp: moves_def)
      show "pc (threads s' u) = InIdle \<longleftrightarrow> pc (threads s u) = InIdle" using assms(2-4) by (cases "u = t") (auto simp: moves_def)
      show "fibers s' i = fibers s i" if i: "idle_fiber (threads s u) = Some i" for i
        using ne [OF \<open>at_work s' u\<close> [unfolded aw] i] assms(10) by simp
    qed
    show "task_ok (fibers s') y" if y: "y \<in> set (m_tasks s')" for y
    proof -
      have "task_ok (fibers s) y" using sched_okD(3) [OF assms(1)] assms(5) y by blast
      moreover have "t_fiber y \<noteq> Some f" using assms(7) y by (auto simp: queued_iff)
      ultimately show "task_ok (fibers s') y" unfolding task_ok_def assms(10) by (auto split: option.splits)
    qed
    show "\<not> runs_task s' u i" if "at_work s' v" "idle_fiber (threads s' v) = Some i" for u v i
    proof -
      note t = that [unfolded aw idl]
      have "\<not> runs_task s u i" using sched_okD(6) [OF assms(1) t, of u] by blast
      then show ?thesis unfolding r using assms(3) ne [OF t] by (cases "u = t") auto
    qed
    show "\<exists>y. fibers s' g = Some y \<and> f_state y = RUNNING \<and> f_stack y \<and> f_in_scheduler y" if "runs_task s' u g" for u g
      using that assms(3,10-13) sched_okD(1) [OF assms(1), of u g] by (cases "g = f") (auto simp: r split: if_splits)
    show "u = v" if "runs_task s' u g" "runs_task s' v g" for u v g
      using that assms(3,8) sched_okD(2) [OF assms(1), of u g v] by (auto simp: r split: if_splits)
    show "i \<notin> set (queued (m_tasks s')) \<and> i \<notin># held s'" if "at_work s' u" "idle_fiber (threads s' u) = Some i" for u i
      using sched_okD(6) [OF assms(1) that [unfolded aw idl], of u] q assms(14) by auto
    show "v = u" if "at_work s' u" "idle_fiber (threads s' u) = Some i" "at_work s' v" "idle_fiber (threads s' v) = Some i" for u v i
      using sched_okD(6) [OF assms(1) that(1,2) [unfolded aw idl], of v] that(3,4) [unfolded aw idl] by blast
    show "fibers s' g = None" if "cur_fiber_id s' \<le> g" for g
      using that sched_okD(7) [OF assms(1), of g] assms(10,15,16) by auto
    show "fibers s' g \<noteq> None" if "g \<in># held s'" for g
      using that sched_okD(8) [OF assms(1), of g] assms(10,14) by auto
    show "finite (busy_threads s')" using sched_okD(9) [OF assms(1)] by (simp add: busy)
    show "distinct (queued (m_tasks s'))" by (rule assms(6))
  qed
qed

text \<open>A thread leaves a task: the fiber is ready again, finished, or destroyed.\<close>

lemma leave_task:
  assumes "sched_ok s" "pc (threads s t) = InFiber f \<or> pc (threads s t) = InCb f" "moves t Loop s s'"
    "fibers s' = (fibers s)(f := z)" "z = None \<longrightarrow> f \<notin># held s" "\<And>y. z = Some y \<Longrightarrow> f_state y \<noteq> RUNNING \<and> f_stack y \<and> f_in_scheduler y"
    "m_tasks s' = m_tasks s" "held s' = held s" "cur_fiber_id s' = cur_fiber_id s" "m_activeThreadCount s' = m_activeThreadCount s - 1"
  shows "sched_ok s'"
proof -
  have rt: "runs_task s t f" using assms(2) by (simp add: runs_task_def)
  then have w: "at_work s t" by (auto simp: at_work_def)
  note r = moves_runs [OF assms(3)]
  have aw: "at_work s' u = at_work s u" for u using moves_at_work [OF assms(3) w] by blast
  note idl = moves_idle_fiber [OF assms(3)]
  have busy: "busy_threads s' = busy_threads s - {t}" by (auto simp: busy_threads_def r)
  have b: "t \<in> busy_threads s" using rt by (auto simp: busy_threads_def)
  have ne: "i \<noteq> f" if "at_work s u" "idle_fiber (threads s u) = Some i" for u i
    using sched_okD(6) [OF assms(1) that, of t] rt by blast
  obtain x where x: "fibers s f = Some x" "f_state x = RUNNING" using sched_okD(1) [OF assms(1) rt] by blast
  then have fid: "f < cur_fiber_id s" using sched_okD(7) [OF assms(1), of f] by (cases "f < cur_fiber_id s") auto
  have nq: "t_fiber y \<noteq> Some f" if "y \<in> set (m_tasks s)" for y
    using sched_okD(3) [OF assms(1)] that x by (auto simp: task_ok_def split: option.splits)
  show ?thesis
  proof (rule sched_okI)
    have "card (busy_threads s) > 0" using b sched_okD(9) [OF assms(1)] by (auto simp: card_gt_0_iff)
    then have "(word_of_nat (card (busy_threads s) - 1) :: 64 word) = word_of_nat (card (busy_threads s)) - 1"
      by (cases "card (busy_threads s)") simp_all
    then show "m_activeThreadCount s' = word_of_nat (card (busy_threads s'))"
      unfolding busy assms(10) using sched_okD(9,10) [OF assms(1)] b by simp
    show "idle_ok s' u" if "at_work s' u" for u
    proof (rule idle_ok_cong [OF sched_okD(5) [OF assms(1) that [unfolded aw]] idl])
      show "cur_scheduler_fiber (threads s' u) = cur_scheduler_fiber (threads s u)" using assms(3) by (cases "u = t") (auto simp: moves_def)
      show "pc (threads s' u) = InIdle \<longleftrightarrow> pc (threads s u) = InIdle" using assms(2,3) by (cases "u = t") (auto simp: moves_def)
      show "fibers s' i = fibers s i" if i: "idle_fiber (threads s u) = Some i" for i
        using ne [OF \<open>at_work s' u\<close> [unfolded aw] i] assms(4) by simp
    qed
    show "task_ok (fibers s') y" if y: "y \<in> set (m_tasks s')" for y
    proof -
      have m: "y \<in> set (m_tasks s)" using y assms(7) by simp
      then have "task_ok (fibers s) y" using sched_okD(3) [OF assms(1)] by blast
      with nq [OF m] show ?thesis unfolding task_ok_def assms(4) by (auto split: option.splits)
    qed
    show "\<not> runs_task s' u i" if "at_work s' v" "idle_fiber (threads s' v) = Some i" for u v i
      using sched_okD(6) [OF assms(1) that [unfolded aw idl], of u] unfolding r by auto
    show "\<exists>y. fibers s' g = Some y \<and> f_state y = RUNNING \<and> f_stack y \<and> f_in_scheduler y" if "runs_task s' u g" for u g
    proof -
      have g: "runs_task s u g" "u \<noteq> t" using that by (auto simp: r split: if_splits)
      then have "g \<noteq> f" using sched_okD(2) [OF assms(1) rt, of u] by blast
      then show ?thesis using sched_okD(1) [OF assms(1) g(1)] assms(4) by simp
    qed
    show "u = v" if "runs_task s' u g" "runs_task s' v g" for u v g
      using that sched_okD(2) [OF assms(1), of u g v] by (auto simp: r split: if_splits)
    show "i \<notin> set (queued (m_tasks s')) \<and> i \<notin># held s'" if "at_work s' u" "idle_fiber (threads s' u) = Some i" for u i
      using sched_okD(6) [OF assms(1) that [unfolded aw idl], of u] assms(7,8) by auto
    show "v = u" if "at_work s' u" "idle_fiber (threads s' u) = Some i" "at_work s' v" "idle_fiber (threads s' v) = Some i" for u v i
      using sched_okD(6) [OF assms(1) that(1,2) [unfolded aw idl], of v] that(3,4) [unfolded aw idl] by blast
    show "fibers s' g = None" if "cur_fiber_id s' \<le> g" for g
      using that sched_okD(7) [OF assms(1), of g] assms(4,9) fid by auto
    show "fibers s' g \<noteq> None" if "g \<in># held s'" for g
      using that sched_okD(8) [OF assms(1), of g] assms(4,5,8) by (cases "g = f") auto
    show "finite (busy_threads s')" using sched_okD(9) [OF assms(1)] by (simp add: busy)
    show "distinct (queued (m_tasks s'))" using sched_okD(4) [OF assms(1)] assms(7) by simp
  qed
qed

text \<open>A thread enters or leaves its idle fiber, or its loop ends.\<close>

lemma idle_switch:
  assumes "sched_ok s" "pc (threads s t) \<in> {Loop, InIdle}" "p \<in> {Loop, InIdle, Exited}" "moves t p s s'"
    "idle_fiber (threads s t) = Some i" "fibers s' = (fibers s)(i \<mapsto> y)" "f_stack y" "f_in_scheduler y" "f_state y = RUNNING \<longleftrightarrow> p = InIdle"
    "m_tasks s' = m_tasks s" "held s' = held s" "cur_fiber_id s' = cur_fiber_id s" "m_activeThreadCount s' = m_activeThreadCount s"
  shows "sched_ok s'"
proof -
  have w: "at_work s t" using assms(2) by (auto simp: at_work_def)
  have r: "runs_task s' u g = runs_task s u g" for u g
    using assms(2,3) unfolding moves_runs [OF assms(4)] by (auto simp: runs_task_def)
  have aw: "at_work s' u \<Longrightarrow> at_work s u" for u
    using assms(2,4) by (cases "u = t") (auto simp: moves_def at_work_def runs_task_def)
  note idl = moves_idle_fiber [OF assms(4)]
  have busy: "busy_threads s' = busy_threads s" by (simp add: busy_threads_def r)
  obtain x where x: "fibers s i = Some x" using sched_okD(5) [OF assms(1) w] assms(5) by (auto simp: idle_ok_def)
  then have iid: "i < cur_fiber_id s" using sched_okD(7) [OF assms(1), of i] by (cases "i < cur_fiber_id s") auto
  note D = sched_okD(6) [OF assms(1) w assms(5)]
  show ?thesis
  proof (rule sched_okI)
    show "m_activeThreadCount s' = word_of_nat (card (busy_threads s'))" "finite (busy_threads s')"
      unfolding busy using sched_okD(9,10) [OF assms(1)] assms(13) by simp_all
    show "idle_ok s' u" if a: "at_work s' u" for u
    proof (cases "u = t")
      case True
      then show ?thesis using sched_okD(5) [OF assms(1) w] assms(4-9) by (auto simp: idle_ok_def moves_def)
    next
      case False
      have "idle_fiber (threads s u) \<noteq> Some i" using D [of u] aw [OF a] False by blast
      moreover have "threads s' u = threads s u" using assms(4) False by (simp add: moves_def)
      ultimately show ?thesis using assms(6) by (intro idle_ok_cong [OF sched_okD(5) [OF assms(1) aw [OF a]]]) auto
    qed
    show "task_ok (fibers s') z" if z: "z \<in> set (m_tasks s')" for z
    proof -
      have m: "z \<in> set (m_tasks s)" using z assms(10) by simp
      then have "task_ok (fibers s) z" using sched_okD(3) [OF assms(1)] by blast
      moreover have "t_fiber z \<noteq> Some i" using D [of t] m by (auto simp: queued_iff)
      ultimately show ?thesis unfolding task_ok_def assms(6) by (auto split: option.splits)
    qed
    show "\<not> runs_task s' u j" if "at_work s' v" "idle_fiber (threads s' v) = Some j" for u v j
      using sched_okD(6) [OF assms(1) aw [OF that(1)] that(2) [unfolded idl], of u] unfolding r by blast
    show "\<exists>y. fibers s' g = Some y \<and> f_state y = RUNNING \<and> f_stack y \<and> f_in_scheduler y" if "runs_task s' u g" for u g
    proof -
      have g: "runs_task s u g" using that by (simp add: r)
      then have "g \<noteq> i" using D [of u] by blast
      then show ?thesis using sched_okD(1) [OF assms(1) g] assms(6) by simp
    qed
    show "u = v" if "runs_task s' u g" "runs_task s' v g" for u v g
      using that sched_okD(2) [OF assms(1), of u g v] by (simp add: r)
    show "j \<notin> set (queued (m_tasks s')) \<and> j \<notin># held s'" if "at_work s' u" "idle_fiber (threads s' u) = Some j" for u j
      using sched_okD(6) [OF assms(1) aw [OF that(1)] that(2) [unfolded idl], of u] assms(10,11) by auto
    show "v = u" if "at_work s' u" "idle_fiber (threads s' u) = Some j" "at_work s' v" "idle_fiber (threads s' v) = Some j" for u v j
      using sched_okD(6) [OF assms(1) aw [OF that(1)] that(2) [unfolded idl], of v] aw [OF that(3)] that(4) [unfolded idl] by blast
    show "fibers s' g = None" if "cur_fiber_id s' \<le> g" for g
      using that sched_okD(7) [OF assms(1), of g] assms(6,12) iid by auto
    show "fibers s' g \<noteq> None" if "g \<in># held s'" for g
      using that sched_okD(8) [OF assms(1), of g] assms(6,11) by auto
    show "distinct (queued (m_tasks s'))" using sched_okD(4) [OF assms(1)] assms(10) by simp
  qed
qed

lemma resume_result:
  assumes "fibers s f = Some x" "f_state x = READY" "f_in_scheduler x" "cur_scheduler_fiber (threads s t) \<noteq> None"
  shows "Fiber_resume t f s = Inr (put_fiber f (x\<lparr>f_state := RUNNING\<rparr>) (SetThis t (Some f) s))"
  using assms by (simp add: Fiber_resume_def other_context_def)

lemma moves_resume [simp]:
  "moves t p s (set_pc t p (put_fiber f x (SetThis t g s)))"
  by (simp add: moves_def set_pc_def SetThis_def)

text \<open>What a thread in its loop does next.\<close>

definition took :: "int \<Rightarrow> 'cb sched_task option \<Rightarrow> 'cb Scheduler \<Rightarrow> 'cb Scheduler \<Rightarrow> bool" where
  "took t r s s' \<longleftrightarrow> (\<forall>u. u \<noteq> t \<longrightarrow> threads s' u = threads s u) \<and> (case r of
      Some x \<Rightarrow> (case t_fiber x of Some f \<Rightarrow> pc (threads s' t) = InFiber f
                 | None \<Rightarrow> pc (threads s' t) = InCb (cur_fiber_id s) \<and> map_option f_cb (fibers s' (cur_fiber_id s)) = Some (t_cb x))
    | None \<Rightarrow> pc (threads s' t) \<in> {InIdle, Exited})"

lemma run_take_task:
  assumes "sched_ok s" "pc (threads s t) = Loop" "find_task t (fibers s) (m_tasks s) = Inr (tk, Some x, rest)"
    "m_tasks s = pre @ x # post" "rest = pre @ post"
  shows "\<exists>s'. run_take t s = Inr s' \<and> sched_ok s' \<and> held s' = held s \<and> m_tasks s' = rest \<and> took t (Some x) s s'"
proof -
  have w: "at_work s t" using assms(2) by (simp add: at_work_def)
  have cs: "cur_scheduler_fiber (threads s t) \<noteq> None" using sched_okD(5) [OF assms(1) w] by (simp add: idle_ok_def)
  let ?s1 = "s\<lparr>m_tasks := rest, m_activeThreadCount := m_activeThreadCount s + 1\<rparr>"
  let ?s2 = "if tk then tickle ?s1 else ?s1"
  have f2: "fibers ?s2 = fibers s" "threads ?s2 = threads s" "m_tasks ?s2 = rest" "held ?s2 = held s" "cur_fiber_id ?s2 = cur_fiber_id s"
    "m_activeThreadCount ?s2 = m_activeThreadCount s + 1" by simp_all
  have dq: "distinct (queued rest)" "set rest \<subseteq> set (m_tasks s)" using sched_okD(4) [OF assms(1)] assms(4,5) by (auto split: option.splits)
  have ok: "task_ok (fibers s) x" using sched_okD(3) [OF assms(1)] assms(4) by simp
  show ?thesis
  proof (cases "t_fiber x")
    case (Some f)
    then obtain y where y: "fibers s f = Some y" "f_state y = READY" "f_stack y" "f_in_scheduler y" using ok by (auto simp: task_ok_def)
    let ?s' = "set_pc t (InFiber f) (put_fiber f (y\<lparr>f_state := RUNNING\<rparr>) (SetThis t (Some f) ?s2))"
    have run: "run_take t s = Inr ?s'"
      using resume_result [of ?s2 f y t] y cs unfolding f2 run_take_def assms(3) by (cases tk) (simp_all add: Some Let_def)
    have nr: "\<not> runs_task s u f" for u using sched_okD(1) [OF assms(1), of u f] y by auto
    have ni: "idle_fiber (threads s u) \<noteq> Some f" if "at_work s u" for u
      using sched_okD(6) [OF assms(1) that, of f u] assms(4) Some by auto
    have nq: "f \<notin> set (queued rest)" using sched_okD(4) [OF assms(1)] assms(4,5) Some by auto
    have fid: "f < cur_fiber_id s" using sched_okD(7) [OF assms(1), of f] y by (cases "f < cur_fiber_id s") auto
    have "sched_ok ?s'"
    proof (rule enter_task [OF assms(1,2), where p = "InFiber f" and f = f and x = "y\<lparr>f_state := RUNNING\<rparr>"])
      show "moves t (InFiber f) s ?s'" by (simp add: moves_def set_pc_def SetThis_def)
    qed (use f2 dq nr ni nq fid y in \<open>simp_all add: set_pc_def SetThis_def\<close>)
    then show ?thesis using run by (intro exI [of _ ?s']) (simp add: took_def Some set_pc_def SetThis_def)
  next
    case None
    let ?n = "cur_fiber_id s" and ?y = "\<lparr>f_state = READY, f_stack = True, f_cb = t_cb x, f_in_scheduler = True\<rparr>"
    let ?s3 = "put_fiber ?n ?y (?s2\<lparr>cur_fiber_id := ?n + 1\<rparr>)"
    let ?s' = "set_pc t (InCb ?n) (put_fiber ?n (?y\<lparr>f_state := RUNNING\<rparr>) (SetThis t (Some ?n) ?s3))"
    have "Fiber_ctor (t_cb x) True ?s2 = (?n, ?s3)" by (simp add: Fiber_ctor_def Let_def)
    moreover have "Fiber_resume t ?n ?s3 = Inr (put_fiber ?n (?y\<lparr>f_state := RUNNING\<rparr>) (SetThis t (Some ?n) ?s3))"
      using cs by (intro resume_result) simp_all
    ultimately have run: "run_take t s = Inr ?s'" unfolding run_take_def assms(3) by (cases tk) (simp_all add: None Let_def)
    have fresh: "fibers s ?n = None" using sched_okD(7) [OF assms(1)] by simp
    have nr: "\<not> runs_task s u ?n" for u using sched_okD(1) [OF assms(1), of u ?n] fresh by auto
    have ni: "idle_fiber (threads s u) \<noteq> Some ?n" if "at_work s u" for u
      using sched_okD(5) [OF assms(1) that] fresh by (auto simp: idle_ok_def)
    have nq: "?n \<notin> set (queued rest)"
      using sched_okD(3) [OF assms(1)] dq(2) fresh by (fastforce simp: queued_iff task_ok_def)
    have "sched_ok ?s'"
    proof (rule enter_task [OF assms(1,2), where p = "InCb ?n" and f = ?n and x = "?y\<lparr>f_state := RUNNING\<rparr>"])
      show "moves t (InCb ?n) s ?s'" by (simp add: moves_def set_pc_def SetThis_def)
    qed (use f2 dq nr ni nq in \<open>simp_all add: set_pc_def SetThis_def\<close>)
    then show ?thesis using run by (intro exI [of _ ?s']) (simp add: took_def None set_pc_def SetThis_def)
  qed
qed

lemma run_take_idle:
  assumes "sched_ok s" "pc (threads s t) = Loop" "find_task t (fibers s) (m_tasks s) = Inr (tk, None, rest)" "rest = m_tasks s"
  shows "\<exists>s'. run_take t s = Inr s' \<and> sched_ok s' \<and> held s' = held s \<and> m_tasks s' = rest \<and> took t None s s'"
proof -
  have w: "at_work s t" using assms(2) by (simp add: at_work_def)
  from sched_okD(5) [OF assms(1) w] obtain i y where i: "cur_scheduler_fiber (threads s t) \<noteq> None" "idle_fiber (threads s t) = Some i"
    "fibers s i = Some y" "f_stack y" "f_in_scheduler y" "f_state y \<noteq> RUNNING" using assms(2) by (auto simp: idle_ok_def)
  let ?s2 = "if tk then tickle s else s"
  have f2: "fibers ?s2 = fibers s" "threads ?s2 = threads s" "m_tasks ?s2 = m_tasks s" "held ?s2 = held s" "cur_fiber_id ?s2 = cur_fiber_id s"
    "m_activeThreadCount ?s2 = m_activeThreadCount s" by simp_all
  show ?thesis
  proof (cases "f_state y = TERM_state")
    case True
    let ?s' = "set_pc t Exited ?s2"
    have run: "run_take t s = Inr ?s'" unfolding run_take_def assms(3) using i True by (cases tk) (simp_all add: Let_def)
    have "sched_ok ?s'"
    proof (rule idle_switch [OF assms(1) _ _ _ i(2)])
      show "moves t Exited s ?s'" by (simp add: moves_def set_pc_def)
      show "fibers ?s' = (fibers s)(i \<mapsto> y)" using i(3) by (simp add: set_pc_def fun_upd_idem)
    qed (use assms(2) i f2 in \<open>simp_all add: set_pc_def\<close>)
    then show ?thesis using run assms(4) by (intro exI [of _ ?s']) (simp add: took_def set_pc_def)
  next
    case False
    then have ry: "f_state y = READY" using i(6) by (cases "f_state y") auto
    let ?s3 = "?s2\<lparr>m_idleThreadCount := m_idleThreadCount ?s2 + 1\<rparr>"
    let ?s' = "set_pc t InIdle (put_fiber i (y\<lparr>f_state := RUNNING\<rparr>) (SetThis t (Some i) ?s3))"
    have "Fiber_resume t i ?s3 = Inr (put_fiber i (y\<lparr>f_state := RUNNING\<rparr>) (SetThis t (Some i) ?s3))"
      using i ry by (intro resume_result) simp_all
    then have run: "run_take t s = Inr ?s'" unfolding run_take_def assms(3) using i False by (cases tk) (simp_all add: Let_def)
    have "sched_ok ?s'"
    proof (rule idle_switch [OF assms(1) _ _ _ i(2)])
      show "moves t InIdle s ?s'" by (simp add: moves_def set_pc_def SetThis_def)
      show "fibers ?s' = (fibers s)(i \<mapsto> y\<lparr>f_state := RUNNING\<rparr>)" by (simp add: set_pc_def SetThis_def)
    qed (use assms(2) i f2 in \<open>simp_all add: set_pc_def SetThis_def\<close>)
    then show ?thesis using run assms(4) by (intro exI [of _ ?s']) (simp add: took_def set_pc_def SetThis_def)
  qed
qed

lemma run_take_ok:
  assumes "sched_ok s" "pc (threads s t) = Loop"
  shows "\<exists>r rest s'. find_task t (fibers s) (m_tasks s) = Inr (rest \<noteq> [], r, rest) \<and> run_take t s = Inr s' \<and> sched_ok s' \<and>
    held s' = held s \<and> m_tasks s' = rest \<and> took t r s s'"
proof -
  from find_task_result [OF sched_okD(3) [OF assms(1)], of t] obtain r rest where
    f: "find_task t (fibers s) (m_tasks s) = Inr (rest \<noteq> [], r, rest)"
    "case r of None \<Rightarrow> rest = m_tasks s \<and> (\<forall>x \<in> set (m_tasks s). pinned_elsewhere t x)
     | Some x \<Rightarrow> \<not> pinned_elsewhere t x \<and>
         (\<exists>pre post. m_tasks s = pre @ x # post \<and> rest = pre @ post \<and> (\<forall>y \<in> set pre. pinned_elsewhere t y))" by blast
  show ?thesis
  proof (cases r)
    case None
    then show ?thesis using run_take_idle [OF assms f(1) [unfolded None]] f by auto
  next
    case (Some x)
    then obtain pre post where "m_tasks s = pre @ x # post" "rest = pre @ post" using f(2) by auto
    then show ?thesis using run_take_task [OF assms f(1) [unfolded Some]] f(1) Some by blast
  qed
qed

text \<open>What happens when the fiber of a task comes back.\<close>

lemma run_back_task:
  assumes "sched_ok s" "runs_task s t f"
  shows "if done \<or> f \<in># held s
    then \<exists>s'. run_back t done s = Inr s' \<and> sched_ok s' \<and> held s' = held s \<and> m_tasks s' = m_tasks s \<and> pc (threads s' t) = Loop \<and>
      (\<forall>u. u \<noteq> t \<longrightarrow> threads s' u = threads s u) \<and>
      (if done \<and> f \<notin># held s then fibers s' f = None
       else \<exists>y. fibers s' f = Some y \<and> f_state y = (if done then TERM_state else READY))
    else run_back t done s = Inl AssertFailed"
proof -
  from sched_okD(1) [OF assms] obtain x where x: "fibers s f = Some x" "f_state x = RUNNING" "f_stack x" "f_in_scheduler x" by blast
  have w: "at_work s t" using assms(2) by (auto simp: at_work_def)
  have cs: "cur_scheduler_fiber (threads s t) \<noteq> None" using sched_okD(5) [OF assms(1) w] by (simp add: idle_ok_def)
  have nq: "Some f \<notin> set (map t_fiber (m_tasks s))"
  proof
    assume "Some f \<in> set (map t_fiber (m_tasks s))"
    then obtain y where "y \<in> set (m_tasks s)" "t_fiber y = Some f" by auto
    with sched_okD(3) [OF assms(1)] x show False by (auto simp: task_ok_def)
  qed
  let ?y = "if done then x\<lparr>f_cb := None, f_state := TERM_state\<rparr> else x\<lparr>f_state := READY\<rparr>"
  obtain s1 where s1: "leave t done f s = Inr s1" and
    f1: "fibers s1 = (fibers s)(f \<mapsto> ?y)" "m_tasks s1 = m_tasks s" "held s1 = held s" "cur_fiber_id s1 = cur_fiber_id s"
      "m_activeThreadCount s1 = m_activeThreadCount s" "moves t Loop s (set_pc t Loop s1)"
  proof -
    let ?s1 = "put_fiber f ?y (SetThis t (cur_thread_fiber (threads s t)) (if done then put_fiber f ?y s else s))"
    have "leave t done f s = Inr ?s1"
      using x cs by (auto simp: leave_def Fiber_finish_def Fiber_yield_def other_context_def Let_def)
    then show ?thesis by (rule that) (simp_all add: SetThis_def moves_def set_pc_def)
  qed
  let ?s2 = "s1\<lparr>m_activeThreadCount := m_activeThreadCount s1 - 1\<rparr>"
  have run: "run_back t done s = bindR (drop_ref t f ?s2) (\<lambda>s2. Inr (set_pc t Loop s2))"
    using assms(2) s1 by (auto simp: run_back_def runs_task_def)
  have b: "pc (threads s t) = InFiber f \<or> pc (threads s t) = InCb f" using assms(2) by (simp add: runs_task_def)
  show ?thesis
  proof (cases "f \<in># held s")
    case True
    let ?s' = "set_pc t Loop ?s2"
    have r: "run_back t done s = Inr ?s'" using run True f1(3) by (simp add: drop_ref_def)
    have "sched_ok ?s'"
    proof (rule leave_task [OF assms(1) b, where z = "Some ?y"])
      show "moves t Loop s ?s'" using f1(6) by (simp add: moves_def set_pc_def)
    qed (use f1 True x in \<open>auto simp: set_pc_def\<close>)
    moreover have "threads ?s' u = threads s u" if "u \<noteq> t" for u using f1(6) that by (simp add: moves_def set_pc_def)
    ultimately show ?thesis using r True f1 by (simp add: set_pc_def)
  next
    case nh: False
    have d: "drop_ref t f ?s2 = Fiber_dtor t f ?s2" using nh nq f1(2,3) by (simp add: drop_ref_def)
    show ?thesis
    proof (cases "done")
      case True
      let ?s' = "set_pc t Loop (?s2\<lparr>fibers := (fibers ?s2)(f := None)\<rparr>)"
      have r: "run_back t done s = Inr ?s'" using run d f1(1) True x(3) by (simp add: Fiber_dtor_def Let_def)
      have "sched_ok ?s'"
      proof (rule leave_task [OF assms(1) b, where z = None])
        show "moves t Loop s ?s'" using f1(6) by (simp add: moves_def set_pc_def)
      qed (use f1 nh in \<open>auto simp: set_pc_def\<close>)
      moreover have "threads ?s' u = threads s u" if "u \<noteq> t" for u using f1(6) that by (simp add: moves_def set_pc_def)
      ultimately show ?thesis using r True nh f1 by (simp add: set_pc_def)
    next
      case False
      then have "run_back t done s = Inl AssertFailed" using run d f1(1) x(3) by (simp add: Fiber_dtor_def Let_def)
      then show ?thesis using False nh by simp
    qed
  qed
qed

lemma run_back_idle:
  assumes "sched_ok s" "pc (threads s t) = InIdle"
  shows "\<exists>s'. run_back t done s = Inr s' \<and> sched_ok s' \<and> held s' = held s \<and> m_tasks s' = m_tasks s \<and> pc (threads s' t) = Loop \<and>
    (\<forall>u. u \<noteq> t \<longrightarrow> threads s' u = threads s u)"
proof -
  have w: "at_work s t" using assms(2) by (simp add: at_work_def)
  from sched_okD(5) [OF assms(1) w] obtain i x where i: "cur_scheduler_fiber (threads s t) \<noteq> None" "idle_fiber (threads s t) = Some i"
    "fibers s i = Some x" "f_stack x" "f_in_scheduler x" "f_state x = RUNNING" using assms(2) by (auto simp: idle_ok_def)
  let ?y = "if done then x\<lparr>f_cb := None, f_state := TERM_state\<rparr> else x\<lparr>f_state := READY\<rparr>"
  let ?s1 = "put_fiber i ?y (SetThis t (cur_thread_fiber (threads s t)) (if done then put_fiber i ?y s else s))"
  have "leave t done i s = Inr ?s1"
    using i by (auto simp: leave_def Fiber_finish_def Fiber_yield_def other_context_def Let_def)
  then have r: "run_back t done s = Inr (set_pc t Loop (?s1\<lparr>m_idleThreadCount := m_idleThreadCount ?s1 - 1\<rparr>))" (is "_ = Inr ?s'")
    using assms(2) i(2) by (simp add: run_back_def)
  have "sched_ok ?s'"
  proof (rule idle_switch [OF assms(1) _ _ _ i(2), where p = Loop and y = ?y])
    show "moves t Loop s ?s'" by (simp add: moves_def set_pc_def SetThis_def)
  qed (use assms(2) i in \<open>auto simp: set_pc_def SetThis_def\<close>)
  with r show ?thesis by (intro exI [of _ ?s']) (simp add: set_pc_def SetThis_def)
qed

text \<open>Steps of the rest of the program: threads keep their places, fibers are only added.\<close>

lemma external_step:
  assumes "sched_ok s" "threads s' = threads s" "m_activeThreadCount s' = m_activeThreadCount s"
    "\<And>g x. fibers s g = Some x \<Longrightarrow> fibers s' g = Some x" "\<And>f. cur_fiber_id s' \<le> f \<Longrightarrow> fibers s' f = None"
    "\<And>x. x \<in> set (m_tasks s') \<Longrightarrow> task_ok (fibers s') x" "distinct (queued (m_tasks s'))"
    "\<And>f. f \<in># held s' \<Longrightarrow> fibers s' f \<noteq> None"
    "\<And>t i. at_work s t \<Longrightarrow> idle_fiber (threads s t) = Some i \<Longrightarrow> i \<notin> set (queued (m_tasks s')) \<and> i \<notin># held s'"
  shows "sched_ok s'"
proof -
  have r: "runs_task s' u g = runs_task s u g" "at_work s' u = at_work s u" for u g
    using assms(2) by (simp_all add: runs_task_def at_work_def)
  have busy: "busy_threads s' = busy_threads s" by (simp add: busy_threads_def r)
  show ?thesis
  proof (rule sched_okI)
    show "m_activeThreadCount s' = word_of_nat (card (busy_threads s'))" "finite (busy_threads s')"
      unfolding busy using sched_okD(9,10) [OF assms(1)] assms(3) by simp_all
    show "idle_ok s' u" if "at_work s' u" for u
      using sched_okD(5) [OF assms(1) that [unfolded r]] assms(2,4) unfolding idle_ok_def by metis
    show "\<exists>x. fibers s' g = Some x \<and> f_state x = RUNNING \<and> f_stack x \<and> f_in_scheduler x" if "runs_task s' u g" for u g
      using sched_okD(1) [OF assms(1) that [unfolded r]] assms(4) by blast
    show "u = v" if "runs_task s' u g" "runs_task s' v g" for u v g
      using that sched_okD(2) [OF assms(1), of u g v] by (simp add: r)
    show "\<not> runs_task s' u i" if "at_work s' v" "idle_fiber (threads s' v) = Some i" for u v i
      using sched_okD(6) [OF assms(1) that [unfolded r assms(2)], of u] unfolding r by blast
    show "v = u" if "at_work s' u" "idle_fiber (threads s' u) = Some i" "at_work s' v" "idle_fiber (threads s' v) = Some i" for u v i
      using sched_okD(6) [OF assms(1) that(1,2) [unfolded r assms(2)], of v] that(3,4) [unfolded r assms(2)] by blast
    show "i \<notin> set (queued (m_tasks s')) \<and> i \<notin># held s'" if "at_work s' u" "idle_fiber (threads s' u) = Some i" for u i
      by (rule assms(9) [OF that [unfolded r assms(2)]])
  qed (use assms(5-8) in blast)+
qed

text \<open>A thread begins its loop: it gets a main fiber, unless it is the caller's, and an idle fiber.\<close>

lemma GetThis_result:
  assumes "sched_ok s"
  shows "\<exists>f s1. Fiber_GetThis t s = (f, s1) \<and> (\<forall>g x. fibers s g = Some x \<longrightarrow> fibers s1 g = Some x) \<and>
    (\<forall>g \<ge> cur_fiber_id s1. fibers s1 g = None) \<and> cur_fiber_id s \<le> cur_fiber_id s1 \<and> m_tasks s1 = m_tasks s \<and> held s1 = held s \<and>
    m_activeThreadCount s1 = m_activeThreadCount s \<and> (\<forall>u. u \<noteq> t \<longrightarrow> threads s1 u = threads s u) \<and>
    pc (threads s1 t) = pc (threads s t) \<and> idle_fiber (threads s1 t) = idle_fiber (threads s t)"
proof (cases "cur_fiber (threads s t)")
  case None
  have "fibers s (cur_fiber_id s) = None" using sched_okD(7) [OF assms] by simp
  with None show ?thesis using sched_okD(7) [OF assms]
    by (auto simp: Fiber_GetThis_def Fiber_main_def SetThis_def Let_def)
next
  case (Some f)
  then show ?thesis using sched_okD(7) [OF assms] by (simp add: Fiber_GetThis_def)
qed

lemma run_begin_ok:
  assumes "sched_ok s" "pc (threads s t) = Spawned" "t = m_rootThread s \<Longrightarrow> cur_scheduler_fiber (threads s t) \<noteq> None"
  shows "sched_ok (run_begin idle t s)"
proof -
  let ?s1 = "put_thread t ((threads s t)\<lparr>cur_scheduler := True\<rparr>) s"
  have nr: "\<not> runs_task s t f" "\<not> at_work s t" for f using assms(2) by (auto simp: runs_task_def at_work_def)
  have "\<exists>s2. (if t \<noteq> m_rootThread ?s1 then (case Fiber_GetThis t ?s1 of (f, u) \<Rightarrow> put_thread t ((threads u t)\<lparr>cur_scheduler_fiber := Some f\<rparr>) u)
       else ?s1) = s2 \<and> (\<forall>g x. fibers s g = Some x \<longrightarrow> fibers s2 g = Some x) \<and>
    (\<forall>g \<ge> cur_fiber_id s2. fibers s2 g = None) \<and> m_tasks s2 = m_tasks s \<and> held s2 = held s \<and>
    m_activeThreadCount s2 = m_activeThreadCount s \<and> (\<forall>u. u \<noteq> t \<longrightarrow> threads s2 u = threads s u) \<and>
    cur_scheduler_fiber (threads s2 t) \<noteq> None \<and> cur_fiber_id s \<le> cur_fiber_id s2"
  proof (cases "t = m_rootThread ?s1")
    case True
    then have "t = m_rootThread s" by (simp add: put_thread_def)
    then show ?thesis using True assms(3) sched_okD(7) [OF assms(1)] by (intro exI [of _ ?s1]) simp
  next
    case False
    have "sched_ok ?s1"
    proof -
      have eq: "runs_task ?s1 u g = runs_task s u g" "at_work ?s1 u = at_work s u" "idle_fiber (threads ?s1 u) = idle_fiber (threads s u)" for u g
        by (cases "u = t"; simp add: runs_task_def at_work_def)+
      have "busy_threads ?s1 = busy_threads s" by (simp add: busy_threads_def eq)
      moreover have "idle_ok ?s1 u = idle_ok s u" for u by (cases "u = t") (simp_all add: idle_ok_def)
      ultimately show "sched_ok ?s1" using assms(1) unfolding sched_ok_def eq by simp
    qed
    from GetThis_result [OF this, of t] obtain f u where u: "Fiber_GetThis t ?s1 = (f, u)"
      "\<forall>g x. fibers ?s1 g = Some x \<longrightarrow> fibers u g = Some x" "\<forall>g \<ge> cur_fiber_id u. fibers u g = None" "cur_fiber_id ?s1 \<le> cur_fiber_id u"
      "m_tasks u = m_tasks ?s1" "held u = held ?s1" "m_activeThreadCount u = m_activeThreadCount ?s1"
      "\<forall>v. v \<noteq> t \<longrightarrow> threads u v = threads ?s1 v" by blast
    then show ?thesis using False by simp
  qed
  then obtain s2 where s2: "(if t \<noteq> m_rootThread ?s1 then (case Fiber_GetThis t ?s1 of (f, u) \<Rightarrow> put_thread t ((threads u t)\<lparr>cur_scheduler_fiber := Some f\<rparr>) u)
       else ?s1) = s2" "\<And>g x. fibers s g = Some x \<Longrightarrow> fibers s2 g = Some x" "\<And>g. cur_fiber_id s2 \<le> g \<Longrightarrow> fibers s2 g = None"
    "m_tasks s2 = m_tasks s" "held s2 = held s" "m_activeThreadCount s2 = m_activeThreadCount s" "\<And>u. u \<noteq> t \<Longrightarrow> threads s2 u = threads s u"
    "cur_scheduler_fiber (threads s2 t) \<noteq> None" "cur_fiber_id s \<le> cur_fiber_id s2" by blast
  let ?i = "cur_fiber_id s2" and ?y = "\<lparr>f_state = READY, f_stack = True, f_cb = Some idle, f_in_scheduler = True\<rparr>"
  let ?s3 = "put_fiber ?i ?y (s2\<lparr>cur_fiber_id := ?i + 1\<rparr>)"
  let ?s' = "put_thread t ((threads ?s3 t)\<lparr>idle_fiber := Some ?i, pc := Loop\<rparr>) ?s3"
  have e: "run_begin idle t s = ?s'"
    unfolding run_begin_def Let_def s2(1) by (simp add: Fiber_ctor_def Let_def)
  have fresh: "fibers s ?i = None" using sched_okD(7) [OF assms(1)] s2(9) by blast
  have fib: "fibers ?s' g = Some x" if "fibers s g = Some x" for g x
    using s2(2) [OF that] that fresh by (cases "g = ?i") simp_all
  have r: "runs_task ?s' u g = runs_task s u g" for u g
    using nr(1) [of g] s2(7) [of u] by (cases "u = t") (simp_all add: runs_task_def)
  have aw: "at_work ?s' u \<Longrightarrow> u \<noteq> t \<Longrightarrow> at_work s u" for u
    using s2(7) [of u] by (simp add: at_work_def runs_task_def)
  have busy: "busy_threads ?s' = busy_threads s" unfolding busy_threads_def r by (rule refl)
  have idl: "idle_fiber (threads ?s' u) = (if u = t then Some ?i else idle_fiber (threads s u))" for u using s2(7) [of u] by simp
  have ni: "i \<noteq> ?i" if "at_work s u" "idle_fiber (threads s u) = Some i" for u i
    using sched_okD(5) [OF assms(1) that(1)] that(2) fresh by (auto simp: idle_ok_def)
  have tk: "m_tasks ?s' = m_tasks s" "held ?s' = held s" using s2(4,5) by simp_all
  have nq: "?i \<notin> set (queued (m_tasks s))" "?i \<notin># held s" "\<not> runs_task s u ?i" for u
  proof -
    show "?i \<notin> set (queued (m_tasks s))"
    proof
      assume "?i \<in> set (queued (m_tasks s))"
      then obtain y where "y \<in> set (m_tasks s)" "t_fiber y = Some ?i" by (auto simp: queued_iff)
      with sched_okD(3) [OF assms(1)] fresh show False by (auto simp: task_ok_def)
    qed
  qed (use sched_okD(1) [OF assms(1), of u ?i] sched_okD(8) [OF assms(1), of ?i] fresh in auto)
  show ?thesis unfolding e
  proof (rule sched_okI)
    show "m_activeThreadCount ?s' = word_of_nat (card (busy_threads ?s'))" "finite (busy_threads ?s')"
      unfolding busy using sched_okD(9,10) [OF assms(1)] s2(6) by simp_all
    show "idle_ok ?s' u" if a: "at_work ?s' u" for u
    proof (cases "u = t")
      case True
      then show ?thesis using s2(8) by (simp add: idle_ok_def)
    next
      case False
      from sched_okD(5) [OF assms(1) aw [OF a False]] fib s2(7) [OF False] False show ?thesis
        unfolding idle_ok_def by fastforce
    qed
    show "\<exists>x. fibers ?s' g = Some x \<and> f_state x = RUNNING \<and> f_stack x \<and> f_in_scheduler x" if "runs_task ?s' u g" for u g
      using sched_okD(1) [OF assms(1) that [unfolded r]] fib by blast
    show "u = v" if "runs_task ?s' u g" "runs_task ?s' v g" for u v g
      by (rule sched_okD(2) [OF assms(1) that [unfolded r]])
    show "task_ok (fibers ?s') x" if "x \<in> set (m_tasks ?s')" for x
    proof -
      have "task_ok (fibers s) x" using sched_okD(3) [OF assms(1)] that tk by simp
      then show ?thesis using fib unfolding task_ok_def by (cases "t_fiber x") fastforce+
    qed
    show "distinct (queued (m_tasks ?s'))" using sched_okD(4) [OF assms(1)] tk by simp
    show "fibers ?s' g = None" if "cur_fiber_id ?s' \<le> g" for g using that s2(3) [of g] by simp
    show "fibers ?s' g \<noteq> None" if "g \<in># held ?s'" for g
      using sched_okD(8) [OF assms(1), of g] that tk fib by fastforce
    show "i \<notin> set (queued (m_tasks ?s')) \<and> i \<notin># held ?s'" if "at_work ?s' u" "idle_fiber (threads ?s' u) = Some i" for u i
    proof (cases "u = t")
      case True
      then show ?thesis using that(2) nq unfolding tk idl by simp
    next
      case False
      then show ?thesis using sched_okD(6) [OF assms(1) aw [OF that(1) False], of i u] that(2) unfolding tk idl by simp
    qed
    show "\<not> runs_task ?s' u i" if "at_work ?s' v" "idle_fiber (threads ?s' v) = Some i" for u v i
    proof (cases "v = t")
      case True
      then show ?thesis using that(2) nq(3) unfolding idl r by simp
    next
      case False
      then show ?thesis using sched_okD(6) [OF assms(1) aw [OF that(1) False], of i u] that(2) unfolding idl r by simp
    qed
    show "v = u" if "at_work ?s' u" "idle_fiber (threads ?s' u) = Some i" "at_work ?s' v" "idle_fiber (threads ?s' v) = Some i" for u v i
    proof -
      have "i \<noteq> ?i" if "w \<noteq> t" "at_work ?s' w" "idle_fiber (threads ?s' w) = Some i" for w
        using ni [OF aw [OF that(2,1)]] that(1,3) unfolding idl by simp
      then show ?thesis
        using that sched_okD(6) [OF assms(1) aw [OF that(1)], of i v] aw [OF that(3)] unfolding idl
        by (cases "u = t"; cases "v = t") auto
    qed
  qed
qed

text \<open>Threads that are not at work change; fibers that take part in the scheduling stay.\<close>

lemma outside_step:
  assumes "sched_ok s" "\<And>u. threads s' u = threads s u \<or> \<not> at_work s u \<and> \<not> at_work s' u"
    "\<And>g x. fibers s g = Some x \<Longrightarrow> f_in_scheduler x \<Longrightarrow> fibers s' g = Some x" "\<And>g. fibers s' g = None \<longleftrightarrow> fibers s g = None"
    "m_tasks s' = m_tasks s" "held s' = held s" "cur_fiber_id s' = cur_fiber_id s" "m_activeThreadCount s' = m_activeThreadCount s"
  shows "sched_ok s'"
proof -
  have nr: "\<not> runs_task u v g" if "\<not> at_work u v" for u v g using that by (auto simp: at_work_def)
  have r: "runs_task s' u g = runs_task s u g" for u g
    using assms(2) [of u] nr [of s u g] nr [of s' u g] by (auto simp: runs_task_def)
  have aw: "at_work s' u = at_work s u" for u using assms(2) [of u] by (auto simp: at_work_def r)
  have th: "threads s' u = threads s u" if "at_work s u" for u using assms(2) [of u] that by blast
  have busy: "busy_threads s' = busy_threads s" by (simp add: busy_threads_def r)
  show ?thesis
  proof (rule sched_okI)
    show "idle_ok s' u" if a: "at_work s' u" for u
      using sched_okD(5) [OF assms(1) a [unfolded aw]] th [OF a [unfolded aw]] assms(3) unfolding idle_ok_def by metis
    show "\<exists>x. fibers s' g = Some x \<and> f_state x = RUNNING \<and> f_stack x \<and> f_in_scheduler x" if "runs_task s' u g" for u g
      using sched_okD(1) [OF assms(1) that [unfolded r]] assms(3) by blast
    show "u = v" if "runs_task s' u g" "runs_task s' v g" for u v g
      by (rule sched_okD(2) [OF assms(1) that [unfolded r]])
    show "task_ok (fibers s') x" if "x \<in> set (m_tasks s')" for x
      using sched_okD(3) [OF assms(1)] that assms(3,5) unfolding task_ok_def by (fastforce split: option.splits)
    show "i \<notin> set (queued (m_tasks s')) \<and> i \<notin># held s'" if a: "at_work s' u" "idle_fiber (threads s' u) = Some i" for u i
      using sched_okD(6) [OF assms(1) a(1) [unfolded aw]] a th [OF a(1) [unfolded aw]] assms(5,6) by auto
    show "\<not> runs_task s' u i" if a: "at_work s' v" "idle_fiber (threads s' v) = Some i" for u v i
      using sched_okD(6) [OF assms(1) a(1) [unfolded aw]] a(2) th [OF a(1) [unfolded aw]] unfolding r by auto
    show "v = u" if a: "at_work s' u" "idle_fiber (threads s' u) = Some i" "at_work s' v" "idle_fiber (threads s' v) = Some i" for u v i
      using sched_okD(6) [OF assms(1) a(1) [unfolded aw], of i v] a th [OF a(1) [unfolded aw]] th [OF a(3) [unfolded aw]] unfolding aw by auto
  qed (use sched_okD(4,7,8,9,10) [OF assms(1)] assms(4-8) busy in auto)
qed

definition empty_sched :: "'cb Scheduler" where
  "empty_sched = \<lparr>fibers = (\<lambda>_. None), cur_fiber_id = 0, threads = (\<lambda>_. no_thread), held = {#}, m_tasks = [], m_threadPool = [],
     m_threadCount = 0, m_activeThreadCount = 0, m_idleThreadCount = 0, m_useCaller = False, m_rootFiber = None,
     m_rootThread = 0, m_isStopped = False, tickles = 0\<rparr>"

lemma sched_ok_quiet:
  assumes "\<And>u. pc (threads s u) = Outside" "m_tasks s = []" "held s = {#}" "\<And>f. cur_fiber_id s \<le> f \<Longrightarrow> fibers s f = None"
    "m_activeThreadCount s = 0"
  shows "sched_ok s"
proof -
  have "\<not> runs_task s u f" "\<not> at_work s u" for u f using assms(1) by (auto simp: runs_task_def at_work_def)
  then show ?thesis using assms(2-5) by (intro sched_okI) (auto simp: busy_threads_def)
qed

lemma sched_ok_ctor: "Scheduler_ctor run t n uc empty_sched = Inr s \<Longrightarrow> sched_ok s \<and> m_tasks s = [] \<and> (\<forall>u. pc (threads s u) = Outside)"
proof -
  assume c: "Scheduler_ctor run t n uc empty_sched = Inr s"
  then have "m_tasks s = []" "held s = {#}" "m_activeThreadCount s = 0" "\<forall>u. pc (threads s u) = Outside" "\<forall>f \<ge> cur_fiber_id s. fibers s f = None"
    by (auto simp: Scheduler_ctor_def empty_sched_def Fiber_GetThis_def Fiber_main_def Fiber_ctor_def SetThis_def put_thread_def
        put_fiber_def no_thread_def Let_def res_simps split: if_splits)
  then show ?thesis using sched_ok_quiet [of s] by simp
qed

lemma set_pc_fold:
  "threads (fold (\<lambda>t. set_pc t p) ts s) u = (if u \<in> set ts then (threads s u)\<lparr>pc := p\<rparr> else threads s u)"
  "fibers (fold (\<lambda>t. set_pc t p) ts s) = fibers s" "m_tasks (fold (\<lambda>t. set_pc t p) ts s) = m_tasks s"
  "held (fold (\<lambda>t. set_pc t p) ts s) = held s" "cur_fiber_id (fold (\<lambda>t. set_pc t p) ts s) = cur_fiber_id s"
  "m_activeThreadCount (fold (\<lambda>t. set_pc t p) ts s) = m_activeThreadCount s"
  by (induction ts arbitrary: s) (auto simp: set_pc_def)

lemma start_outside:
  "sched_start tids s = Inr s' \<Longrightarrow> u \<notin> set tids \<Longrightarrow> threads s' u = threads s u"
  by (auto simp: sched_start_def set_pc_fold res_simps split: if_splits)

text \<open>
  Runs of a scheduler and its threads. \<open>P\<close> are the tasks posted, \<open>T\<close> those taken. The program creates
  fibers and posts callbacks; a running fiber is registered with whoever will wake it (\<open>hold\<close>), and
  is put into the queue by its holder once it has yielded and is not there yet (\<open>wake\<close>).
\<close>

inductive sched_runs :: "'cb sched_task multiset \<Rightarrow> 'cb sched_task multiset \<Rightarrow> 'cb Scheduler \<Rightarrow> bool" where
  init: "Scheduler_ctor run t n uc empty_sched = Inr s \<Longrightarrow> sched_runs {#} {#} s"
| start: "sched_runs P T s \<Longrightarrow> \<forall>u \<in> set tids. pc (threads s u) = Outside \<Longrightarrow> sched_start tids s = Inr s' \<Longrightarrow> sched_runs P T s'"
| stop: "sched_runs P T s \<Longrightarrow> pc (threads s t) = Outside \<Longrightarrow>
    \<forall>r x. m_rootFiber s = Some r \<longrightarrow> fibers s r = Some x \<longrightarrow> \<not> f_in_scheduler x \<Longrightarrow> sched_stop t s = Inr (b, s') \<Longrightarrow> sched_runs P T s'"
| begin_run: "sched_runs P T s \<Longrightarrow> pc (threads s t) = Spawned \<Longrightarrow>
    t = m_rootThread s \<longrightarrow> cur_scheduler_fiber (threads s t) \<noteq> None \<Longrightarrow> sched_runs P T (run_begin idle t s)"
| take: "sched_runs P T s \<Longrightarrow> pc (threads s t) = Loop \<Longrightarrow> find_task t (fibers s) (m_tasks s) = Inr (tk, r, rest) \<Longrightarrow>
    run_take t s = Inr s' \<Longrightarrow> sched_runs P (T + (case r of None \<Rightarrow> {#} | Some x \<Rightarrow> {#x#})) s'"
| return: "sched_runs P T s \<Longrightarrow> at_work s t \<Longrightarrow> run_back t done s = Inr s' \<Longrightarrow> sched_runs P T s'"
| create: "sched_runs P T s \<Longrightarrow> Fiber_ctor (Some cb) True s = (f, s') \<Longrightarrow> sched_runs P T (s'\<lparr>held := held s' + {#f#}\<rparr>)"
| hold: "sched_runs P T s \<Longrightarrow> runs_task s t f \<Longrightarrow> sched_runs P T (s\<lparr>held := held s + {#f#}\<rparr>)"
| wake: "sched_runs P T s \<Longrightarrow> f \<in># held s \<Longrightarrow> fibers s f = Some x \<Longrightarrow> f_state x = READY \<Longrightarrow> f_stack x \<Longrightarrow> f_in_scheduler x \<Longrightarrow>
    f \<notin> set (queued (m_tasks s)) \<Longrightarrow> task = \<lparr>t_fiber = Some f, t_cb = None, t_thread = v\<rparr> \<Longrightarrow> h = held s \<or> h = held s - {#f#} \<Longrightarrow>
    sched_runs (P + {#task#}) T (schedule task (s\<lparr>held := h\<rparr>))"
| post: "sched_runs P T s \<Longrightarrow> task = \<lparr>t_fiber = None, t_cb = Some cb, t_thread = v\<rparr> \<Longrightarrow>
    sched_runs (P + {#task#}) T (schedule task s)"

inductive_cases sched_runs_emptyE: "sched_runs {#} T s"

lemma schedule_fields [simp]:
  "t_fiber task \<noteq> None \<or> t_cb task \<noteq> None \<Longrightarrow> m_tasks (schedule task s) = m_tasks s @ [task]"
  "threads (schedule task s) = threads s" "fibers (schedule task s) = fibers s" "held (schedule task s) = held s"
  "cur_fiber_id (schedule task s) = cur_fiber_id s" "m_activeThreadCount (schedule task s) = m_activeThreadCount s"
  by (auto simp: schedule_def scheduleNoLock_def)

lemma tickle_pow [simp]:
  "threads ((tickle ^^ n) s) = threads s" "fibers ((tickle ^^ n) s) = fibers s" "m_tasks ((tickle ^^ n) s) = m_tasks s"
  "held ((tickle ^^ n) s) = held s" "cur_fiber_id ((tickle ^^ n) s) = cur_fiber_id s"
  "m_activeThreadCount ((tickle ^^ n) s) = m_activeThreadCount s" "m_rootFiber ((tickle ^^ n) s) = m_rootFiber s"
  by (induction n) (simp_all add: tickle_def)

lemma start_ok:
  assumes "sched_ok s" "\<forall>u \<in> set tids. pc (threads s u) = Outside" "sched_start tids s = Inr s'"
  shows "sched_ok s' \<and> m_tasks s' = m_tasks s \<and> (\<forall>u. pc (threads s' u) = Outside \<longrightarrow> pc (threads s u) = Outside)"
proof (cases "m_isStopped s")
  case True
  then show ?thesis using assms by (simp add: sched_start_def)
next
  case False
  let ?s' = "fold (\<lambda>t. set_pc t Spawned) tids (s\<lparr>m_threadPool := tids\<rparr>)"
  have e: "s' = ?s'" using assms(3) False by (simp add: sched_start_def res_simps split: if_splits)
  have "sched_ok ?s'"
  proof (rule outside_step [OF assms(1)])
    show "threads ?s' u = threads s u \<or> \<not> at_work s u \<and> \<not> at_work ?s' u" for u
      using assms(2) by (auto simp: set_pc_fold at_work_def runs_task_def)
  qed (simp_all add: set_pc_fold)
  then show ?thesis unfolding e using assms(2) by (auto simp: set_pc_fold)
qed

lemma stop_ok:
  assumes "sched_ok s" "pc (threads s t) = Outside"
    "\<forall>r x. m_rootFiber s = Some r \<longrightarrow> fibers s r = Some x \<longrightarrow> \<not> f_in_scheduler x" "sched_stop t s = Inr (b, s')"
  shows "sched_ok s' \<and> m_tasks s' = m_tasks s \<and> (\<forall>u. pc (threads s' u) = Outside \<longrightarrow> pc (threads s u) = Outside)"
proof (cases "sched_stopping s")
  case True
  then show ?thesis using assms by (simp add: sched_stop_def)
next
  case False
  obtain S3 where S3: "stop_tickles (s\<lparr>m_isStopped := True\<rparr>) = S3" by blast
  have f3: "threads S3 = threads s" "fibers S3 = fibers s" "m_tasks S3 = m_tasks s" "held S3 = held s" "cur_fiber_id S3 = cur_fiber_id s"
    "m_activeThreadCount S3 = m_activeThreadCount s" "m_rootFiber S3 = m_rootFiber s"
    by (simp_all add: S3 [symmetric] stop_tickles_def Let_def tickle_def [of "(tickle ^^ n) u" for n u])
  have e: "resume_root t S3 = Inr (b, s')"
    using assms(4) False unfolding sched_stop_def Let_def S3 by (simp split: if_splits)
  show ?thesis
  proof (cases "m_rootFiber s")
    case None
    then have "s' = S3" using e by (simp add: resume_root_def f3(7))
    moreover have "sched_ok S3" using f3 by (intro outside_step [OF assms(1)]) simp_all
    ultimately show ?thesis using f3 by simp
  next
    case (Some root)
    then obtain x where x: "fibers s root = Some x"
      "s' = set_pc t Spawned (put_fiber root (x\<lparr>f_state := RUNNING\<rparr>) (SetThis t (Some root) S3))"
      using e f3(2,7) by (auto simp: resume_root_def Fiber_resume_def res_simps split: option.splits if_splits)
    have ni: "\<not> f_in_scheduler x" using assms(3) Some x(1) by blast
    have "sched_ok s'"
    proof (rule outside_step [OF assms(1)])
      show "threads s' u = threads s u \<or> \<not> at_work s u \<and> \<not> at_work s' u" for u
        using assms(2) f3(1) by (auto simp: x(2) set_pc_def SetThis_def at_work_def runs_task_def)
      show "fibers s' g = Some y" if "fibers s g = Some y" "f_in_scheduler y" for g y
        using that ni x f3(2) by (auto simp: set_pc_def SetThis_def)
      show "fibers s' g = None \<longleftrightarrow> fibers s g = None" for g
        using x f3(2) by (auto simp: set_pc_def SetThis_def)
    qed (use f3 x in \<open>simp_all add: set_pc_def SetThis_def\<close>)
    then show ?thesis using f3 x assms(2) by (auto simp: set_pc_def SetThis_def)
  qed
qed

text \<open>What holds in every run: the invariant, no task is lost or taken twice, and a task pinned to a
  thread is only taken once that thread works for the scheduler.\<close>

definition run_inv :: "'cb sched_task multiset \<Rightarrow> 'cb sched_task multiset \<Rightarrow> 'cb Scheduler \<Rightarrow> bool" where
  "run_inv P T s \<longleftrightarrow> sched_ok s \<and> P = mset (m_tasks s) + T \<and>
     (\<forall>x. x \<in># T \<longrightarrow> t_thread x \<noteq> -1 \<longrightarrow> pc (threads s (t_thread x)) \<noteq> Outside)"

lemma run_inv_step:
  assumes "run_inv P T s" "sched_ok s'" "m_tasks s' = m_tasks s" "\<And>u. pc (threads s' u) = Outside \<Longrightarrow> pc (threads s u) = Outside"
  shows "run_inv P T s'"
  using assms unfolding run_inv_def by metis

lemma take_inv:
  assumes "run_inv P T s" "pc (threads s t) = Loop" "find_task t (fibers s) (m_tasks s) = Inr (tk, r, rest)" "run_take t s = Inr s'"
  shows "run_inv P (T + (case r of None \<Rightarrow> {#} | Some x \<Rightarrow> {#x#})) s'"
proof -
  have ok: "sched_ok s" "P = mset (m_tasks s) + T" using assms(1) by (simp_all add: run_inv_def)
  from run_take_ok [OF ok(1) assms(2)] assms(3,4) have s': "sched_ok s'" "m_tasks s' = rest" "took t r s s'" by auto
  from find_task_result [OF sched_okD(3) [OF ok(1)], of t] assms(3)
  have f: "case r of None \<Rightarrow> rest = m_tasks s
     | Some x \<Rightarrow> \<not> pinned_elsewhere t x \<and> (\<exists>pre post. m_tasks s = pre @ x # post \<and> rest = pre @ post)" by (auto split: option.splits)
  have p: "pc (threads s' u) \<noteq> Outside" if "pc (threads s u) \<noteq> Outside \<or> u = t" for u
    using that assms(2) s'(3) by (cases "u = t") (auto simp: took_def split: option.splits)
  have "P = mset rest + (T + (case r of None \<Rightarrow> {#} | Some x \<Rightarrow> {#x#}))"
    using ok(2) f by (auto split: option.splits)
  moreover have "pc (threads s' (t_thread x)) \<noteq> Outside"
    if "x \<in># T + (case r of None \<Rightarrow> {#} | Some x \<Rightarrow> {#x#})" "t_thread x \<noteq> -1" for x
  proof (cases "x \<in># T")
    case True
    then show ?thesis using assms(1) that(2) p unfolding run_inv_def by blast
  next
    case False
    then have "r = Some x" using that(1) by (cases r) auto
    then have "t_thread x = t" using f that(2) by (simp add: pinned_elsewhere_def)
    then show ?thesis using p by blast
  qed
  ultimately show ?thesis using s' unfolding run_inv_def by simp
qed

lemma run_begin_frame:
  "m_tasks (run_begin idle t s) = m_tasks s" "u \<noteq> t \<Longrightarrow> threads (run_begin idle t s) u = threads s u"
  "pc (threads (run_begin idle t s) t) = Loop"
  by (auto simp: run_begin_def Fiber_GetThis_def Fiber_main_def Fiber_ctor_def SetThis_def Let_def split: option.splits)

lemma back_inv:
  assumes "run_inv P T s" "at_work s t" "run_back t done s = Inr s'"
  shows "run_inv P T s'"
proof -
  have ok: "sched_ok s" using assms(1) by (simp add: run_inv_def)
  have "sched_ok s' \<and> m_tasks s' = m_tasks s \<and> pc (threads s' t) = Loop \<and> (\<forall>u. u \<noteq> t \<longrightarrow> threads s' u = threads s u)"
  proof (cases "\<exists>f. runs_task s t f")
    case True
    then obtain f where f: "runs_task s t f" by blast
    show ?thesis using run_back_task [OF ok f, of "done"] assms(3) by (auto split: if_splits)
  next
    case False
    then have "pc (threads s t) = InIdle" using assms(2,3) by (auto simp: at_work_def run_back_def)
    then show ?thesis using run_back_idle [OF ok, of t "done"] assms(3) by auto
  qed
  moreover have "pc (threads s t) \<noteq> Outside" using assms(2) by (auto simp: at_work_def runs_task_def)
  ultimately show ?thesis using assms(1) by (intro run_inv_step [OF assms(1)]) (metis place.distinct(3))+
qed

lemma create_inv:
  assumes "run_inv P T s" "Fiber_ctor (Some cb) True s = (f, s')"
  shows "run_inv P T (s'\<lparr>held := held s' + {#f#}\<rparr>)"
proof -
  have ok: "sched_ok s" using assms(1) by (simp add: run_inv_def)
  have s': "f = cur_fiber_id s" "threads s' = threads s" "m_tasks s' = m_tasks s" "held s' = held s" "cur_fiber_id s' = Suc f"
    "m_activeThreadCount s' = m_activeThreadCount s" "\<exists>x. fibers s' = (fibers s)(f \<mapsto> x)"
    using assms(2) by (auto simp: Fiber_ctor_def Let_def)
  have fresh: "fibers s f = None" using sched_okD(7) [OF ok] s'(1) by simp
  from s'(7) obtain y where y: "fibers s' = (fibers s)(f \<mapsto> y)" by blast
  have "sched_ok (s'\<lparr>held := held s' + {#f#}\<rparr>)"
  proof (rule external_step [OF ok])
    show "task_ok (fibers (s'\<lparr>held := held s' + {#f#}\<rparr>)) x" if "x \<in> set (m_tasks (s'\<lparr>held := held s' + {#f#}\<rparr>))" for x
    proof -
      have "task_ok (fibers s) x" using that s'(3) sched_okD(3) [OF ok] by simp
      then show ?thesis using fresh y unfolding task_ok_def by (auto split: option.splits)
    qed
    show "i \<notin> set (queued (m_tasks (s'\<lparr>held := held s' + {#f#}\<rparr>))) \<and> i \<notin># held (s'\<lparr>held := held s' + {#f#}\<rparr>)"
      if "at_work s t" "idle_fiber (threads s t) = Some i" for t i
    proof -
      have "i \<noteq> f" using sched_okD(5) [OF ok that(1)] that(2) fresh by (auto simp: idle_ok_def)
      then show ?thesis using sched_okD(6) [OF ok that] s'(3,4) by auto
    qed
  qed (use s'(1-6) y fresh sched_okD(4,7,8) [OF ok] in \<open>auto split: if_splits\<close>)
  then show ?thesis using s' by (intro run_inv_step [OF assms(1)]) simp_all
qed

lemma hold_inv:
  assumes "run_inv P T s" "runs_task s t f"
  shows "run_inv P T (s\<lparr>held := held s + {#f#}\<rparr>)"
proof -
  have ok: "sched_ok s" using assms(1) by (simp add: run_inv_def)
  have "i \<noteq> f" if "at_work s u" "idle_fiber (threads s u) = Some i" for u i
    using sched_okD(6) [OF ok that, of t] assms(2) by blast
  then have "sched_ok (s\<lparr>held := held s + {#f#}\<rparr>)"
    using sched_okD(3,4,6,7,8) [OF ok] sched_okD(1) [OF ok assms(2)] by (intro external_step [OF ok]) auto
  then show ?thesis by (intro run_inv_step [OF assms(1)]) simp_all
qed

lemma schedule_inv:
  assumes "run_inv P T s" "task_ok (fibers s) task" "\<And>f. t_fiber task = Some f \<Longrightarrow> f \<in># held s \<and> f \<notin> set (queued (m_tasks s))"
    "h \<subseteq># held s"
  shows "run_inv (P + {#task#}) T (schedule task (s\<lparr>held := h\<rparr>))"
proof -
  have ok: "sched_ok s" using assms(1) by (simp add: run_inv_def)
  have nn: "t_fiber task \<noteq> None \<or> t_cb task \<noteq> None" using assms(2) by (auto simp: task_ok_def split: option.splits)
  let ?s' = "schedule task (s\<lparr>held := h\<rparr>)"
  have m: "m_tasks ?s' = m_tasks s @ [task]" using nn by simp
  have "sched_ok ?s'"
  proof (rule external_step [OF ok])
    show "task_ok (fibers ?s') x" if "x \<in> set (m_tasks ?s')" for x
      using that sched_okD(3) [OF ok] assms(2) m by auto
    show "distinct (queued (m_tasks ?s'))"
      using sched_okD(4) [OF ok] assms(3) unfolding m by (auto split: option.splits)
    show "i \<notin> set (queued (m_tasks ?s')) \<and> i \<notin># held ?s'" if "at_work s t" "idle_fiber (threads s t) = Some i" for t i
      using sched_okD(6) [OF ok that, of t] assms(3,4) unfolding m by (auto split: option.splits dest: mset_subset_eqD)
    show "fibers ?s' f \<noteq> None" if "f \<in># held ?s'" for f
      using that sched_okD(8) [OF ok, of f] assms(4) by (auto dest: mset_subset_eqD)
  qed (use sched_okD(7) [OF ok] in simp_all)
  then show ?thesis using assms(1) nn unfolding run_inv_def by simp
qed

lemma sched_runs_inv: "sched_runs P T s \<Longrightarrow> run_inv P T s"
proof (induction rule: sched_runs.induct)
  case (init run t n uc s)
  then show ?case using sched_ok_ctor [OF init] by (simp add: run_inv_def)
next
  case (start P T s tids s')
  then show ?case using start_ok [of s tids s'] by (intro run_inv_step [OF start.IH]) (auto simp: run_inv_def)
next
  case (stop P T s t b s')
  then show ?case using stop_ok [of s t b s'] by (intro run_inv_step [OF stop.IH]) (auto simp: run_inv_def)
next
  case (begin_run P T s t idle)
  have ok: "sched_ok s" using begin_run.IH by (simp add: run_inv_def)
  have "sched_ok (run_begin idle t s)" by (rule run_begin_ok [OF ok begin_run.hyps(2)]) (use begin_run.hyps(3) in blast)
  moreover have "pc (threads s u) = Outside" if "pc (threads (run_begin idle t s) u) = Outside" for u
    using that by (cases "u = t") (simp_all add: run_begin_frame)
  ultimately show ?case by (intro run_inv_step [OF begin_run.IH]) (simp_all add: run_begin_frame)
next
  case (take P T s t tk r rest s')
  show ?case by (rule take_inv [OF take.IH take.hyps(2-4)])
next
  case (return P T s t "done" s')
  show ?case by (rule back_inv [OF return.IH return.hyps(2,3)])
next
  case (create P T s cb f s')
  show ?case by (rule create_inv [OF create.IH create.hyps(2)])
next
  case (hold P T s t f)
  show ?case by (rule hold_inv [OF hold.IH hold.hyps(2)])
next
  case (wake P T s f x task v h)
  have "h \<subseteq># held s" using wake.hyps(9) by (auto simp: diff_subset_eq_self)
  then show ?case using wake by (intro schedule_inv) (auto simp: task_ok_def)
next
  case (post P T s task cb v)
  have "s\<lparr>held := held s\<rparr> = s" by simp
  moreover have "run_inv (P + {#task#}) T (schedule task (s\<lparr>held := held s\<rparr>))"
    using post by (intro schedule_inv) (auto simp: task_ok_def)
  ultimately show ?case by simp
qed

subsection \<open>Properties of every run\<close>


text \<open>A thread in its loop never hits an assertion: it takes the first task of the queue that is not
  pinned to another thread, leaving the others in their order, and resumes its fiber or a new fiber for
  its callback; it tickles exactly if tasks are left; it goes idle, or ends, when there is none for it.\<close>

theorem run_take_first_eligible:
  assumes "sched_runs P T s" "pc (threads s t) = Loop"
  shows "\<exists>s'. run_take t s = Inr s' \<and>
    (case List.find (\<lambda>x. \<not> pinned_elsewhere t x) (m_tasks s) of
       None \<Rightarrow> m_tasks s' = m_tasks s \<and> pc (threads s' t) \<in> {InIdle, Exited}
     | Some x \<Rightarrow> m_tasks s' = remove1 x (m_tasks s) \<and>
         pc (threads s' t) = (case t_fiber x of Some f \<Rightarrow> InFiber f | None \<Rightarrow> InCb (cur_fiber_id s)))"
proof -
  have ok: "sched_ok s" using sched_runs_inv [OF assms(1)] by (simp add: run_inv_def)
  from run_take_ok [OF ok assms(2)] obtain r rest s' where s': "find_task t (fibers s) (m_tasks s) = Inr (rest \<noteq> [], r, rest)"
    "run_take t s = Inr s'" "m_tasks s' = rest" "took t r s s'" by blast
  from find_task_result [OF sched_okD(3) [OF ok], of t] s'(1) have f: "case r of
       None \<Rightarrow> rest = m_tasks s \<and> (\<forall>x \<in> set (m_tasks s). pinned_elsewhere t x)
     | Some x \<Rightarrow> \<not> pinned_elsewhere t x \<and>
         (\<exists>pre post. m_tasks s = pre @ x # post \<and> rest = pre @ post \<and> (\<forall>y \<in> set pre. pinned_elsewhere t y))" by auto
  show ?thesis
  proof (cases r)
    case None
    then have "List.find (\<lambda>x. \<not> pinned_elsewhere t x) (m_tasks s) = None" using f by (simp add: find_None_iff)
    then show ?thesis using s' f None by (auto simp: took_def)
  next
    case (Some x)
    then obtain pre post where p: "m_tasks s = pre @ x # post" "rest = pre @ post" "\<forall>y \<in> set pre. pinned_elsewhere t y"
      "\<not> pinned_elsewhere t x" using f by auto
    have "List.find (\<lambda>x. \<not> pinned_elsewhere t x) (pre @ x # post) = Some x" using p(3,4) by (induction pre) auto
    moreover have "x \<notin> set pre" using p(3,4) by blast
    ultimately show ?thesis using s' Some p by (auto simp: took_def remove1_append split: option.splits)
  qed
qed

text \<open>C35. A scheduler stops only when its work is done, and a task for a thread it does not have keeps it
  from stopping for ever: when \<open>stopping\<close> holds, no thread executes a task and every posted task was
  taken; and a task pinned to a thread that never ran the loop stays in the queue.\<close>

theorem stopping_means_done:
  assumes "sched_runs P T s" "card (busy_threads s) < 2 ^ 64"
  shows "(sched_stopping s \<longrightarrow> P = T \<and> (\<forall>t f. \<not> runs_task s t f)) \<and>
    (\<forall>x. x \<in># P \<longrightarrow> t_thread x \<noteq> -1 \<longrightarrow> pc (threads s (t_thread x)) = Outside \<longrightarrow> x \<in> set (m_tasks s) \<and> \<not> sched_stopping s)"
proof -
  from sched_runs_inv [OF assms(1)] have ok: "sched_ok s" and P: "P = mset (m_tasks s) + T"
    and T: "\<And>x. x \<in># T \<Longrightarrow> t_thread x \<noteq> -1 \<Longrightarrow> pc (threads s (t_thread x)) \<noteq> Outside" by (auto simp: run_inv_def)
  have "\<not> runs_task s t f" if "m_activeThreadCount s = 0" for t f
  proof -
    have "card (busy_threads s) = 0"
      using sched_okD(10) [OF ok] that assms(2) by (auto simp: word_of_nat_eq_0_iff dest: nat_dvd_not_less)
    then show ?thesis using sched_okD(9) [OF ok] by (auto simp: busy_threads_def)
  qed
  then show ?thesis using P T by (fastforce simp: sched_stopping_def)
qed

text \<open>Two ways a fiber aborts the process. A fiber that is woken before it has yielded, as happens when
  another thread sees the event it just registered for, is in the queue while it is still running: the
  next thread that looks at the queue fails its assertion. A fiber that yields while nobody refers to it
  any more (a callback that yields without having registered anywhere) is destroyed before it ended.\<close>

theorem early_wake_and_orphan_yield_abort:
  assumes "sched_runs P T s" "runs_task s t f"
  shows "(m_tasks s = [] \<longrightarrow> run_take u (schedule \<lparr>t_fiber = Some f, t_cb = None, t_thread = -1\<rparr> s) = Inl AssertFailed) \<and>
    (f \<notin># held s \<longrightarrow> run_back t False s = Inl AssertFailed)"
proof -
  have ok: "sched_ok s" using sched_runs_inv [OF assms(1)] by (simp add: run_inv_def)
  from sched_okD(1) [OF ok assms(2)] obtain x where x: "fibers s f = Some x" "f_state x = RUNNING" by blast
  have "run_take u (schedule \<lparr>t_fiber = Some f, t_cb = None, t_thread = -1\<rparr> s) = Inl AssertFailed" if "m_tasks s = []"
    using that x by (simp add: run_take_def)
  moreover have "run_back t False s = Inl AssertFailed" if "f \<notin># held s" using run_back_task [OF ok assms(2), of False] that by simp
  ultimately show ?thesis by blast
qed

subsection \<open>A sample run\<close>

definition sd0 :: "string Scheduler" where
  "sd0 = (case Scheduler_ctor ''run'' 1 2 False empty_sched of Inr s \<Rightarrow> s | Inl _ \<Rightarrow> empty_sched)"

definition sd1 :: "string Scheduler" where
  "sd1 = (case sched_start [10, 11] sd0 of Inr s \<Rightarrow> s | Inl _ \<Rightarrow> sd0)"

definition sd2 :: "string Scheduler" where
  "sd2 = run_begin ''idle'' 11 (run_begin ''idle'' 10 sd1)"

definition job :: "int \<Rightarrow> string sched_task" where
  "job v = \<lparr>t_fiber = None, t_cb = Some ''job'', t_thread = v\<rparr>"

definition sd3 :: "string Scheduler" where "sd3 = schedule (job (-1)) (schedule (job 12) sd2)"
definition sd4 :: "string Scheduler" where "sd4 = (case run_take 10 sd3 of Inr s \<Rightarrow> s | Inl _ \<Rightarrow> sd3)"

lemma sd0_facts:
  "Scheduler_ctor ''run'' 1 2 False empty_sched = Inr sd0" "pc (threads sd0 u) = Outside" "sched_start [10, 11] sd0 = Inr sd1"
proof -
  show c: "Scheduler_ctor ''run'' 1 2 False empty_sched = Inr sd0" by (simp add: sd0_def Scheduler_ctor_def empty_sched_def)
  show "pc (threads sd0 u) = Outside" using sched_ok_ctor [OF c] by blast
  have "m_threadPool sd0 = []" "\<not> m_isStopped sd0" by (simp_all add: sd0_def Scheduler_ctor_def empty_sched_def)
  then show "sched_start [10, 11] sd0 = Inr sd1" by (simp add: sd1_def sched_start_def)
qed

lemma sd3_runs: "sched_runs {#job 12, job (-1)#} {#} sd3"
proof -
  have 0: "sched_runs {#} {#} sd0" by (rule sched_runs.init [OF sd0_facts(1)])
  have 1: "sched_runs {#} {#} sd1" by (rule sched_runs.start [OF 0 _ sd0_facts(3)]) (simp add: sd0_facts(2))
  have p: "pc (threads sd1 10) = Spawned" "m_rootThread sd1 = -1" "pc (threads (run_begin ''idle'' 10 sd1) 11) = Spawned"
    "m_rootThread (run_begin ''idle'' 10 sd1) = -1" by code_simp+
  have "sched_runs {#} {#} (run_begin ''idle'' 10 sd1)" by (rule sched_runs.begin_run [OF 1 p(1)]) (use p(2) in simp)
  then have "sched_runs {#} {#} sd2" unfolding sd2_def by (rule sched_runs.begin_run [OF _ p(3)]) (use p(4) in simp)
  then have "sched_runs ({#} + {#job 12#}) {#} (schedule (job 12) sd2)" by (rule sched_runs.post) (simp add: job_def)
  then have "sched_runs ({#} + {#job 12#} + {#job (-1)#}) {#} (schedule (job (-1)) (schedule (job 12) sd2))"
    by (rule sched_runs.post) (simp add: job_def)
  then show ?thesis by (simp add: sd3_def add_mset_commute)
qed

lemma sd4_runs: "sched_runs {#job 12, job (-1)#} {#job (-1)#} sd4"
proof -
  have f: "find_task 10 (fibers sd3) (m_tasks sd3) = Inr (True, Some (job (-1)), [job 12])" "pc (threads sd3 10) = Loop" by code_simp+
  have "case run_take 10 sd3 of Inr _ \<Rightarrow> True | Inl _ \<Rightarrow> False" by code_simp
  then have "run_take 10 sd3 = Inr sd4" by (auto simp: sd4_def split: sum.splits)
  from sched_runs.take [OF sd3_runs f(2,1) this] show ?thesis by simp
qed

lemma sd4_busy: "busy_threads sd4 \<subseteq> {10}"
proof
  fix t assume t: "t \<in> busy_threads sd4"
  have ok: "sched_ok sd3" using sched_runs_inv [OF sd3_runs] by (simp add: run_inv_def)
  have p: "pc (threads sd3 10) = Loop" "pc (threads sd3 11) = Loop" by code_simp+
  from run_take_ok [OF ok p(1)] have "threads sd4 t = threads sd3 t" if "t \<noteq> 10" using that by (auto simp: sd4_def took_def)
  moreover have "pc (threads sd3 t) = Outside" if "t \<noteq> 10" "t \<noteq> 11"
  proof -
    have "threads sd3 t = threads sd1 t" using that by (simp add: sd3_def sd2_def run_begin_frame)
    moreover have "pc (threads sd1 t) = Outside" using start_outside [OF sd0_facts(3), of t] that sd0_facts(2) by simp
    ultimately show ?thesis by simp
  qed
  ultimately show "t \<in> {10}" using t p(2) by (cases "t = 11"; cases "t = 10") (auto simp: busy_threads_def runs_task_def)
qed


theorem run_take_first_eligible_witness:
  "\<exists>s. run_take 10 sd3 = Inr s \<and> m_tasks s = [job 12] \<and> pc (threads s 10) = InCb 4"
proof -
  have l: "pc (threads sd3 10) = Loop" "m_tasks sd3 = [job 12, job (-1)]" "cur_fiber_id sd3 = 4" by code_simp+
  from run_take_first_eligible [OF sd3_runs l(1)] show ?thesis by (simp add: l(2,3) pinned_elsewhere_def job_def)
qed

theorem stopping_means_done_witness:
  "job 12 \<in> set (m_tasks sd4) \<and> \<not> sched_stopping (sd4\<lparr>m_isStopped := True\<rparr>) \<and> \<not> sched_stopping sd4"
proof -
  have "pc (threads sd4 12) = Outside" "pc (threads sd4 10) = InCb 4" by code_simp+
  have "card (busy_threads sd4) \<le> 1" using card_mono [OF _ sd4_busy] by simp
  then have "card (busy_threads sd4) < 2 ^ 64" by simp
  from stopping_means_done [OF sd4_runs this] \<open>pc (threads sd4 12) = Outside\<close> show ?thesis
    by (auto simp: job_def sched_stopping_def)
qed

theorem early_wake_and_orphan_yield_abort_witness:
  "run_back 10 False sd4 = Inl AssertFailed"
proof -
  have "pc (threads sd4 10) = InCb 4" "held sd4 = {#}" by code_simp+
  then have "runs_task sd4 10 4" "4 \<notin># held sd4" by (simp_all add: runs_task_def)
  with early_wake_and_orphan_yield_abort [OF sd4_runs, of 10 4 11] show ?thesis by blast
qed

end
