(* ===== verification/Timer.thy ===== *)
theory Timer
  imports Prelude
begin

text \<open>
  src/fiber/timer.cpp: timers and their manager. Timers are objects in a heap, shared by the manager
  and the program; the manager keeps the addresses of the armed ones in a set ordered by
  \<open>Timer::Comparator\<close>, modelled as the list in that order. Times are 64-bit words in milliseconds and
  wrap around. Every operation runs under the manager's lock and is one step; the time it reads from
  \<open>GetElapsedMs\<close> is an argument.
\<close>

type_synonym tptr = nat

record 'cb Timer =
  m_recurring :: bool
  m_ms :: "64 word"
  m_next :: "64 word"
  m_cb :: "'cb option"

type_synonym 'cb timers = "tptr \<Rightarrow> 'cb Timer option"

record 'cb TimerManager =
  m_timers :: "tptr list"
  m_tickle :: bool
  m_previousTime :: "64 word"
  timer_heap :: "'cb timers"
  next_timer :: tptr
  front_calls :: nat

subsection \<open>The clock\<close>

text \<open>The seconds and nanoseconds of \<open>CLOCK_MONOTONIC_RAW\<close>; the nanoseconds are subtracted.\<close>

definition GetElapsedMs :: "int \<Rightarrow> int \<Rightarrow> 64 word" where
  "GetElapsedMs tv_sec tv_nsec = word_of_int (tv_sec * 1000 - tv_nsec div 1000000)"

subsection \<open>The order of the set\<close>

definition next_of :: "'cb timers \<Rightarrow> tptr \<Rightarrow> 64 word" where
  "next_of h a = (case h a of None \<Rightarrow> 0 | Some t \<Rightarrow> m_next t)"

definition Comparator :: "'cb timers \<Rightarrow> tptr option \<Rightarrow> tptr option \<Rightarrow> bool" where
  "Comparator h lhs rhs =
     (case (lhs, rhs) of
        (None, None) \<Rightarrow> False
      | (None, Some _) \<Rightarrow> True
      | (Some _, None) \<Rightarrow> False
      | (Some a, Some b) \<Rightarrow>
          if next_of h a < next_of h b then True
          else if next_of h b < next_of h a then False
          else a < b)"

text \<open>The key the comparator sorts by: the time, then the address.\<close>

datatype tkey = TKey (key_time: "64 word") (key_addr: tptr)

instantiation tkey :: linorder
begin

definition less_eq_tkey :: "tkey \<Rightarrow> tkey \<Rightarrow> bool" where
  "less_eq_tkey x y \<longleftrightarrow> key_time x < key_time y \<or> (key_time x = key_time y \<and> key_addr x \<le> key_addr y)"

definition less_tkey :: "tkey \<Rightarrow> tkey \<Rightarrow> bool" where
  "less_tkey x y \<longleftrightarrow> key_time x < key_time y \<or> (key_time x = key_time y \<and> key_addr x < key_addr y)"

instance
proof
  fix x y z :: tkey
  show "x < y \<longleftrightarrow> x \<le> y \<and> \<not> y \<le> x" by (auto simp: less_eq_tkey_def less_tkey_def)
  show "x \<le> x" by (simp add: less_eq_tkey_def)
  show "x \<le> y \<Longrightarrow> y \<le> z \<Longrightarrow> x \<le> z" by (auto simp: less_eq_tkey_def)
  show "x \<le> y \<Longrightarrow> y \<le> x \<Longrightarrow> x = y" by (cases x; cases y) (auto simp: less_eq_tkey_def)
  show "x \<le> y \<or> y \<le> x" by (auto simp: less_eq_tkey_def)
qed

end

definition tkey_of :: "'cb timers \<Rightarrow> tptr \<Rightarrow> tkey" where
  "tkey_of h a = TKey (next_of h a) a"

lemma Comparator_tkey: "Comparator h (Some a) (Some b) \<longleftrightarrow> tkey_of h a < tkey_of h b"
  by (auto simp: Comparator_def tkey_of_def less_tkey_def)

lemma tkey_of_inject [simp]: "tkey_of h a = tkey_of h b \<longleftrightarrow> a = b"
  by (auto simp: tkey_of_def)

subsection \<open>The set\<close>

text \<open>The lookups of \<open>std::set\<close> compare keys only: the first element that is not less, and whether it is equivalent.\<close>

definition set_lower_bound :: "'cb timers \<Rightarrow> tkey \<Rightarrow> tptr list \<Rightarrow> tptr list" where
  "set_lower_bound h k l = dropWhile (\<lambda>b. tkey_of h b < k) l"

definition set_has :: "'cb timers \<Rightarrow> tptr \<Rightarrow> tptr list \<Rightarrow> bool" where
  "set_has h a l = (case set_lower_bound h (tkey_of h a) l of [] \<Rightarrow> False | b # _ \<Rightarrow> \<not> Comparator h (Some a) (Some b))"

definition set_erase :: "'cb timers \<Rightarrow> tptr \<Rightarrow> tptr list \<Rightarrow> tptr list" where
  "set_erase h a l = takeWhile (\<lambda>b. tkey_of h b < tkey_of h a) l @ drop 1 (set_lower_bound h (tkey_of h a) l)"

definition set_insert :: "'cb timers \<Rightarrow> tptr \<Rightarrow> tptr list \<Rightarrow> tptr list" where
  "set_insert h a l = (if set_has h a l then l
     else takeWhile (\<lambda>b. tkey_of h b < tkey_of h a) l @ a # set_lower_bound h (tkey_of h a) l)"

subsection \<open>Timers\<close>

definition Timer_ctor :: "64 word \<Rightarrow> 'cb option \<Rightarrow> bool \<Rightarrow> 64 word \<Rightarrow> 'cb Timer" where
  "Timer_ctor ms cb recuring now = \<lparr>m_recurring = recuring, m_ms = ms, m_next = now + ms, m_cb = cb\<rparr>"

definition put_timer :: "tptr \<Rightarrow> 'cb Timer \<Rightarrow> 'cb TimerManager \<Rightarrow> 'cb TimerManager" where
  "put_timer a t tm = tm\<lparr>timer_heap := (timer_heap tm)(a \<mapsto> t)\<rparr>"

definition insert_timer :: "tptr \<Rightarrow> 'cb TimerManager \<Rightarrow> 'cb TimerManager" where
  "insert_timer a tm = tm\<lparr>m_timers := set_insert (timer_heap tm) a (m_timers tm)\<rparr>"

definition erase_timer :: "tptr \<Rightarrow> 'cb TimerManager \<Rightarrow> 'cb TimerManager" where
  "erase_timer a tm = tm\<lparr>m_timers := set_erase (timer_heap tm) a (m_timers tm)\<rparr>"

definition in_timers :: "tptr \<Rightarrow> 'cb TimerManager \<Rightarrow> bool" where
  "in_timers a tm = set_has (timer_heap tm) a (m_timers tm)"

text \<open>\<open>addTimer(val, lock)\<close>; \<open>front_calls\<close> counts the calls of the virtual \<open>OnTimerInsertedAtFront\<close>.\<close>

definition addTimer_locked :: "tptr \<Rightarrow> 'cb TimerManager \<Rightarrow> 'cb TimerManager" where
  "addTimer_locked val tm0 =
     (let tm = insert_timer val tm0;
          at_front = (m_timers tm \<noteq> [] \<and> hd (m_timers tm) = val \<and> \<not> m_tickle tm)
      in if at_front then tm\<lparr>m_tickle := True, front_calls := front_calls tm + 1\<rparr> else tm)"

definition timer_cancel :: "tptr \<Rightarrow> 'cb TimerManager \<Rightarrow> (bool \<times> 'cb TimerManager) res" where
  "timer_cancel a tm =
     (case timer_heap tm a of None \<Rightarrow> Inl NullDeref
      | Some t \<Rightarrow>
          if m_cb t \<noteq> None then
            let tm1 = put_timer a (t\<lparr>m_cb := None\<rparr>) tm
            in if in_timers a tm1 then Inr (True, erase_timer a tm1) else Inl BadErase
          else Inr (False, tm))"

definition timer_refresh :: "tptr \<Rightarrow> 64 word \<Rightarrow> 'cb TimerManager \<Rightarrow> (bool \<times> 'cb TimerManager) res" where
  "timer_refresh a now tm =
     (case timer_heap tm a of None \<Rightarrow> Inl NullDeref
      | Some t \<Rightarrow>
          if m_cb t = None then Inr (False, tm)
          else if \<not> in_timers a tm then Inr (False, tm)
          else Inr (True, insert_timer a (put_timer a (t\<lparr>m_next := now + m_ms t\<rparr>) (erase_timer a tm))))"

definition timer_reset :: "tptr \<Rightarrow> 64 word \<Rightarrow> bool \<Rightarrow> 64 word \<Rightarrow> 'cb TimerManager \<Rightarrow> (bool \<times> 'cb TimerManager) res" where
  "timer_reset a ms from_now now tm =
     (case timer_heap tm a of None \<Rightarrow> Inl NullDeref
      | Some t \<Rightarrow>
          if m_ms t = ms \<and> \<not> from_now then Inr (True, tm)
          else if m_cb t = None then Inr (True, tm)
          else if \<not> in_timers a tm then Inr (False, tm)
          else let start = (if from_now then now else m_next t - m_ms t)
               in Inr (True, addTimer_locked a (put_timer a (t\<lparr>m_ms := ms, m_next := start + ms\<rparr>) (erase_timer a tm))))"

subsection \<open>The manager\<close>

definition TimerManager_ctor :: "64 word \<Rightarrow> 'cb TimerManager" where
  "TimerManager_ctor now = \<lparr>m_timers = [], m_tickle = False, m_previousTime = now, timer_heap = Map.empty,
     next_timer = 0, front_calls = 0\<rparr>"

definition addTimer :: "64 word \<Rightarrow> 'cb option \<Rightarrow> bool \<Rightarrow> 64 word \<Rightarrow> 'cb TimerManager \<Rightarrow> tptr \<times> 'cb TimerManager" where
  "addTimer ms cb recurring now tm =
     (let a = next_timer tm;
          tm1 = put_timer a (Timer_ctor ms cb recurring now) (tm\<lparr>next_timer := a + 1\<rparr>)
      in (a, addTimer_locked a tm1))"

text \<open>A condition timer runs its callback only while the condition object lives (\<open>weak_cond.lock()\<close>).\<close>

definition OnTimer :: "('w \<Rightarrow> bool) \<Rightarrow> ('w \<Rightarrow> 'w) \<Rightarrow> 'w \<Rightarrow> 'w" where
  "OnTimer weak_cond cb w = (if weak_cond w then cb w else w)"

definition addConditionTimer ::
  "64 word \<Rightarrow> ('w \<Rightarrow> 'w) \<Rightarrow> ('w \<Rightarrow> bool) \<Rightarrow> bool \<Rightarrow> 64 word \<Rightarrow> ('w \<Rightarrow> 'w) TimerManager \<Rightarrow> tptr \<times> ('w \<Rightarrow> 'w) TimerManager"
where
  "addConditionTimer ms cb weak_cond recurring now = addTimer ms (Some (OnTimer weak_cond cb)) recurring now"

definition getNextTimer :: "64 word \<Rightarrow> 'cb TimerManager \<Rightarrow> 64 word \<times> 'cb TimerManager" where
  "getNextTimer now_ms tm0 =
     (let tm = tm0\<lparr>m_tickle := False\<rparr> in
      case m_timers tm of [] \<Rightarrow> (-1, tm)
      | a # _ \<Rightarrow> (if now_ms \<ge> next_of (timer_heap tm) a then 0 else next_of (timer_heap tm) a - now_ms, tm))"

definition detectClockRollover :: "64 word \<Rightarrow> 'cb TimerManager \<Rightarrow> bool \<times> 'cb TimerManager" where
  "detectClockRollover now_ms tm =
     (now_ms < m_previousTime tm \<and> now_ms < m_previousTime tm - 60 * 60 * 1000, tm\<lparr>m_previousTime := now_ms\<rparr>)"

text \<open>The loop over the expired timers: collect the callback, rearm or disarm.\<close>

definition fire_timer :: "64 word \<Rightarrow> tptr \<Rightarrow> 'cb option list \<times> 'cb TimerManager \<Rightarrow> 'cb option list \<times> 'cb TimerManager" where
  "fire_timer now_ms a = (\<lambda>(cbs, tm).
     case timer_heap tm a of None \<Rightarrow> (cbs, tm)
     | Some t \<Rightarrow> (cbs @ [m_cb t],
         if m_recurring t then insert_timer a (put_timer a (t\<lparr>m_next := now_ms + m_ms t\<rparr>) tm)
         else put_timer a (t\<lparr>m_cb := None\<rparr>) tm))"

definition expired_prefix :: "bool \<Rightarrow> 64 word \<Rightarrow> 'cb TimerManager \<Rightarrow> tptr list \<times> tptr list" where
  "expired_prefix rollover now_ms tm =
     (let h = timer_heap tm;
          now_timer = TKey now_ms (next_timer tm);
          before = (if rollover then m_timers tm else takeWhile (\<lambda>b. tkey_of h b < now_timer) (m_timers tm));
          it = (if rollover then [] else set_lower_bound h now_timer (m_timers tm))
      in (before @ takeWhile (\<lambda>b. next_of h b = now_ms) it, dropWhile (\<lambda>b. next_of h b = now_ms) it))"

definition listExpiredCb :: "64 word \<Rightarrow> 'cb TimerManager \<Rightarrow> 'cb option list \<times> 'cb TimerManager" where
  "listExpiredCb now_ms tm0 =
     (if m_timers tm0 = [] then ([], tm0)
      else case detectClockRollover now_ms tm0 of (rollover, tm) \<Rightarrow>
        if \<not> rollover \<and> next_of (timer_heap tm) (hd (m_timers tm)) > now_ms then ([], tm)
        else case expired_prefix rollover now_ms tm of (expired, rest) \<Rightarrow>
          fold (fire_timer now_ms) expired ([], tm\<lparr>m_timers := rest\<rparr>))"

definition hasTimer :: "'cb TimerManager \<Rightarrow> bool" where
  "hasTimer tm = (m_timers tm \<noteq> [])"

subsection \<open>The set is the sorted list of its elements\<close>

definition sorted_timers :: "'cb timers \<Rightarrow> tptr list \<Rightarrow> bool" where
  "sorted_timers h l \<longleftrightarrow> sorted_wrt (<) (map (tkey_of h) l)"

lemma sorted_timers_simps [simp]:
  "sorted_timers h []"
  "sorted_timers h (a # l) \<longleftrightarrow> (\<forall>b \<in> set l. tkey_of h a < tkey_of h b) \<and> sorted_timers h l"
  by (simp_all add: sorted_timers_def)

lemma sorted_timers_append:
  "sorted_timers h (l1 @ l2) \<longleftrightarrow>
     sorted_timers h l1 \<and> sorted_timers h l2 \<and> (\<forall>a \<in> set l1. \<forall>b \<in> set l2. tkey_of h a < tkey_of h b)"
  by (auto simp: sorted_timers_def sorted_wrt_append)

lemma sorted_timers_distinct: "sorted_timers h l \<Longrightarrow> distinct l"
  by (induction l) auto

lemma sorted_timers_filter: "sorted_timers h l \<Longrightarrow> sorted_timers h (filter P l)"
  by (induction l) auto

lemma sorted_timers_cong:
  "(\<And>a. a \<in> set l \<Longrightarrow> tkey_of h' a = tkey_of h a) \<Longrightarrow> sorted_timers h' l = sorted_timers h l"
  by (simp add: sorted_timers_def cong: map_cong)

lemma sorted_split:
  assumes "sorted_timers h l"
  shows "takeWhile (\<lambda>b. tkey_of h b < k) l = filter (\<lambda>b. tkey_of h b < k) l"
    "set_lower_bound h k l = filter (\<lambda>b. k \<le> tkey_of h b) l"
proof -
  have "takeWhile (\<lambda>b. tkey_of h b < k) l = filter (\<lambda>b. tkey_of h b < k) l \<and>
      dropWhile (\<lambda>b. tkey_of h b < k) l = filter (\<lambda>b. k \<le> tkey_of h b) l"
    using assms
  proof (induction l)
    case (Cons a l)
    show ?case
    proof (cases "tkey_of h a < k")
      case True
      then show ?thesis using Cons by simp
    next
      case False
      then have n: "\<forall>b \<in> set (a # l). k \<le> tkey_of h b" using Cons.prems by fastforce
      then have "filter (\<lambda>b. tkey_of h b < k) (a # l) = []" "filter (\<lambda>b. k \<le> tkey_of h b) (a # l) = a # l"
        by (simp_all add: filter_empty_conv filter_id_conv not_less)
      with False show ?thesis by simp
    qed
  qed simp
  then show "takeWhile (\<lambda>b. tkey_of h b < k) l = filter (\<lambda>b. tkey_of h b < k) l"
    "set_lower_bound h k l = filter (\<lambda>b. k \<le> tkey_of h b) l" by (simp_all add: set_lower_bound_def)
qed

lemma lower_bound_mem:
  assumes "sorted_timers h l" "a \<in> set l"
  shows "set_lower_bound h (tkey_of h a) l = a # filter (\<lambda>b. tkey_of h a < tkey_of h b) l"
  using assms
proof (induction l)
  case (Cons c l)
  have m: "set_lower_bound h (tkey_of h a) (c # l) = filter (\<lambda>b. tkey_of h a \<le> tkey_of h b) (c # l)"
    by (rule sorted_split(2) [OF Cons.prems(1)])
  show ?case
  proof (cases "c = a")
    case True
    have "filter (\<lambda>b. tkey_of h a \<le> tkey_of h b) l = filter (\<lambda>b. tkey_of h a < tkey_of h b) l"
      using Cons.prems(1) True by (intro filter_cong) (auto dest: less_imp_le)
    then show ?thesis using m True by simp
  next
    case False
    then have a: "a \<in> set l" "tkey_of h c < tkey_of h a" "\<not> tkey_of h a < tkey_of h c" using Cons.prems by auto
    have "sorted_timers h l" using Cons.prems(1) by simp
    from Cons.IH [OF this a(1)] a(2,3) show ?thesis by (simp add: set_lower_bound_def)
  qed
qed simp

lemma set_has_iff:
  assumes "sorted_timers h l"
  shows "set_has h a l \<longleftrightarrow> a \<in> set l"
proof
  assume "a \<in> set l"
  then show "set_has h a l" using lower_bound_mem [OF assms] by (simp add: set_has_def Comparator_tkey)
next
  assume "set_has h a l"
  then obtain b r where b: "set_lower_bound h (tkey_of h a) l = b # r" "\<not> tkey_of h a < tkey_of h b"
    by (auto simp: set_has_def Comparator_tkey split: list.splits)
  then have "b \<in> set (filter (\<lambda>b. tkey_of h a \<le> tkey_of h b) l)" by (simp add: sorted_split(2) [OF assms, symmetric])
  then have "b \<in> set l" "tkey_of h a \<le> tkey_of h b" by simp_all
  with b(2) show "a \<in> set l" by (metis order_le_less tkey_of_inject)
qed

lemma set_erase_filter:
  assumes "sorted_timers h l" "a \<in> set l"
  shows "set_erase h a l = filter (\<lambda>b. b \<noteq> a) l"
  using assms
proof (induction l)
  case (Cons c l)
  show ?case
  proof (cases "c = a")
    case True
    with Cons.prems have "a \<notin> set l" by auto
    then have "filter (\<lambda>b. b \<noteq> a) l = l" by (auto simp: filter_id_conv)
    then show ?thesis using True by (simp add: set_erase_def set_lower_bound_def)
  next
    case False
    with Cons.prems have a: "a \<in> set l" "tkey_of h c < tkey_of h a" "sorted_timers h l" by auto
    from Cons.IH [OF a(3,1)] a(2) False show ?thesis by (simp add: set_erase_def set_lower_bound_def)
  qed
qed simp

lemma set_insert_sorted:
  assumes "sorted_timers h l"
  shows "sorted_timers h (set_insert h a l)" "set (set_insert h a l) = insert a (set l)"
proof -
  have "sorted_timers h (set_insert h a l) \<and> set (set_insert h a l) = insert a (set l)"
  proof (cases "a \<in> set l")
    case True
    then show ?thesis using assms set_has_iff [OF assms] by (auto simp: set_insert_def)
  next
    case False
    have l: "filter (\<lambda>b. tkey_of h b < tkey_of h a) l = takeWhile (\<lambda>b. tkey_of h b < tkey_of h a) l"
      "filter (\<lambda>b. tkey_of h a \<le> tkey_of h b) l = set_lower_bound h (tkey_of h a) l"
      using sorted_split [OF assms] by simp_all
    have e: "set_insert h a l = filter (\<lambda>b. tkey_of h b < tkey_of h a) l @ a # filter (\<lambda>b. tkey_of h a \<le> tkey_of h b) l"
      using False set_has_iff [OF assms] by (simp add: set_insert_def l)
    have "b \<noteq> a" if "b \<in> set l" for b using that False by blast
    then have "\<forall>b \<in> set l. tkey_of h a \<le> tkey_of h b \<longrightarrow> tkey_of h a < tkey_of h b" by (metis order_le_less tkey_of_inject)
    then have "sorted_timers h (set_insert h a l)" unfolding e sorted_timers_append sorted_timers_simps
    proof (intro conjI ballI)
      fix x b assume "x \<in> set (filter (\<lambda>b. tkey_of h b < tkey_of h a) l)" "b \<in> set (a # filter (\<lambda>b. tkey_of h a \<le> tkey_of h b) l)"
      then have "tkey_of h x < tkey_of h a" "b = a \<or> tkey_of h a \<le> tkey_of h b" by auto
      then show "tkey_of h x < tkey_of h b" using less_le_trans by blast
    qed (use assms in \<open>simp_all add: sorted_timers_filter\<close>)
    moreover have "set (set_insert h a l) = insert a (set l)" unfolding e by (auto simp: not_less)
    ultimately show ?thesis by blast
  qed
  then show "sorted_timers h (set_insert h a l)" "set (set_insert h a l) = insert a (set l)" by simp_all
qed

lemma tkey_of_upd [simp]: "b \<noteq> a \<Longrightarrow> tkey_of (h(a := x)) b = tkey_of h b"
  by (simp add: tkey_of_def next_of_def)

lemma tkey_of_same_next: "h a = Some t \<Longrightarrow> tkey_of (h(a \<mapsto> t\<lparr>m_cb := x\<rparr>)) b = tkey_of h b"
  by (simp add: tkey_of_def next_of_def)

subsection \<open>The invariant\<close>

text \<open>The set is ordered, its members exist, and a timer has a callback exactly while it is armed.\<close>

definition tm_open :: "tptr set \<Rightarrow> 'cb TimerManager \<Rightarrow> bool" where
  "tm_open A tm \<longleftrightarrow> sorted_timers (timer_heap tm) (m_timers tm) \<and>
     (\<forall>a. timer_heap tm a \<noteq> None \<longleftrightarrow> a < next_timer tm) \<and>
     (\<forall>a \<in> set (m_timers tm). a < next_timer tm) \<and>
     A \<inter> set (m_timers tm) = {} \<and>
     (\<forall>a t. a \<notin> A \<longrightarrow> timer_heap tm a = Some t \<longrightarrow> (m_cb t \<noteq> None \<longleftrightarrow> a \<in> set (m_timers tm)))"

definition tm_ok :: "'cb TimerManager \<Rightarrow> bool" where
  "tm_ok tm \<longleftrightarrow> tm_open {} tm"

lemma tm_openD:
  assumes "tm_open A tm"
  shows "sorted_timers (timer_heap tm) (m_timers tm)" "timer_heap tm a \<noteq> None \<longleftrightarrow> a < next_timer tm"
    "a \<in> set (m_timers tm) \<Longrightarrow> a < next_timer tm" "A \<inter> set (m_timers tm) = {}"
    "a \<notin> A \<Longrightarrow> timer_heap tm a = Some t \<Longrightarrow> m_cb t \<noteq> None \<longleftrightarrow> a \<in> set (m_timers tm)"
  using assms unfolding tm_open_def by blast+

lemma tm_open_cong:
  "m_timers t = m_timers s \<Longrightarrow> timer_heap t = timer_heap s \<Longrightarrow> next_timer t = next_timer s \<Longrightarrow> tm_open A t = tm_open A s"
  by (simp add: tm_open_def)

lemma put_timer_simps [simp]:
  "m_timers (put_timer a t tm) = m_timers tm" "timer_heap (put_timer a t tm) = (timer_heap tm)(a \<mapsto> t)"
  "next_timer (put_timer a t tm) = next_timer tm" "m_tickle (put_timer a t tm) = m_tickle tm"
  by (simp_all add: put_timer_def)

lemma insert_timer_simps [simp]:
  "timer_heap (insert_timer a tm) = timer_heap tm" "next_timer (insert_timer a tm) = next_timer tm"
  "m_timers (insert_timer a tm) = set_insert (timer_heap tm) a (m_timers tm)"
  by (simp_all add: insert_timer_def)

lemma addTimer_locked_simps [simp]:
  "timer_heap (addTimer_locked a tm) = timer_heap tm" "next_timer (addTimer_locked a tm) = next_timer tm"
  "m_timers (addTimer_locked a tm) = set_insert (timer_heap tm) a (m_timers tm)"
  by (simp_all add: addTimer_locked_def Let_def)

lemma in_timers_iff: "tm_open A tm \<Longrightarrow> in_timers a tm \<longleftrightarrow> a \<in> set (m_timers tm)"
  by (simp add: in_timers_def set_has_iff [OF tm_openD(1)])

lemma tm_open_put:
  assumes "tm_open A tm" "a \<in> A" "a < next_timer tm"
  shows "tm_open A (put_timer a t tm)"
proof -
  have "a \<notin> set (m_timers tm)" using assms(1,2) unfolding tm_open_def by blast
  then have "tkey_of ((timer_heap tm)(a \<mapsto> t)) b = tkey_of (timer_heap tm) b" if "b \<in> set (m_timers tm)" for b
    using that by (intro tkey_of_upd) blast
  from sorted_timers_cong [OF this] assms show ?thesis unfolding tm_open_def by auto
qed

lemma tm_open_arm:
  assumes "tm_open A tm" "a \<in> A" "a < next_timer tm" "m_cb t \<noteq> None"
  shows "tm_open (A - {a}) (insert_timer a (put_timer a t tm))"
    "set (m_timers (insert_timer a (put_timer a t tm))) = insert a (set (m_timers tm))"
proof -
  let ?tm = "put_timer a t tm"
  have o: "tm_open A ?tm" by (rule tm_open_put [OF assms(1-3)])
  note i = set_insert_sorted [OF tm_openD(1) [OF o], of a]
  show s: "set (m_timers (insert_timer a ?tm)) = insert a (set (m_timers tm))" using i(2) by simp
  show "tm_open (A - {a}) (insert_timer a ?tm)"
    unfolding tm_open_def
  proof (intro conjI allI ballI impI)
    show "sorted_timers (timer_heap (insert_timer a ?tm)) (m_timers (insert_timer a ?tm))" using i(1) by simp
    show "timer_heap (insert_timer a ?tm) b \<noteq> None \<longleftrightarrow> b < next_timer (insert_timer a ?tm)" for b
      using tm_openD(2) [OF o, of b] by simp
    show "b < next_timer (insert_timer a ?tm)" if "b \<in> set (m_timers (insert_timer a ?tm))" for b
      using that assms(3) tm_openD(3) [OF o, of b] unfolding s by auto
    show "(A - {a}) \<inter> set (m_timers (insert_timer a ?tm)) = {}" using tm_openD(4) [OF o] unfolding s by auto
    show "m_cb u \<noteq> None \<longleftrightarrow> b \<in> set (m_timers (insert_timer a ?tm))"
      if "b \<notin> A - {a}" "timer_heap (insert_timer a ?tm) b = Some u" for b u
      using that assms(4) tm_openD(5) [OF o, of b u] unfolding s by (cases "b = a") auto
  qed
qed

lemma tm_open_disarm:
  assumes "tm_open A tm" "a \<in> A" "a < next_timer tm" "m_cb t = None"
  shows "tm_open (A - {a}) (put_timer a t tm)"
proof -
  have o: "tm_open A (put_timer a t tm)" by (rule tm_open_put [OF assms(1-3)])
  have "a \<notin> set (m_timers tm)" using assms(1,2) unfolding tm_open_def by blast
  with o assms(4) show ?thesis unfolding tm_open_def by auto
qed

lemma tm_open_erase:
  assumes "tm_open A tm" "a \<in> set (m_timers tm)"
  shows "tm_open (insert a A) (erase_timer a tm)" "m_timers (erase_timer a tm) = filter (\<lambda>b. b \<noteq> a) (m_timers tm)"
    "timer_heap (erase_timer a tm) = timer_heap tm" "next_timer (erase_timer a tm) = next_timer tm"
proof -
  show e: "m_timers (erase_timer a tm) = filter (\<lambda>b. b \<noteq> a) (m_timers tm)" "timer_heap (erase_timer a tm) = timer_heap tm"
    "next_timer (erase_timer a tm) = next_timer tm"
    using set_erase_filter [OF tm_openD(1) [OF assms(1)] assms(2)] by (simp_all add: erase_timer_def)
  show "tm_open (insert a A) (erase_timer a tm)"
    using assms sorted_timers_filter [OF tm_openD(1) [OF assms(1)], of "\<lambda>b. b \<noteq> a"]
    unfolding tm_open_def e by auto
qed

lemma tm_ok_alloc:
  assumes "tm_ok tm"
  shows "tm_open {next_timer tm} (tm\<lparr>next_timer := next_timer tm + 1, timer_heap := (timer_heap tm)(next_timer tm \<mapsto> t)\<rparr>)"
proof -
  have o: "tm_open {} tm" using assms by (simp add: tm_ok_def)
  have n: "next_timer tm \<notin> set (m_timers tm)" using tm_openD(3) [OF o] by blast
  then have "tkey_of ((timer_heap tm)(next_timer tm \<mapsto> t)) b = tkey_of (timer_heap tm) b" if "b \<in> set (m_timers tm)" for b
    using that by (intro tkey_of_upd) blast
  from sorted_timers_cong [OF this] tm_openD [OF o] n show ?thesis
    unfolding tm_open_def by (auto simp: less_Suc_eq)
qed

lemma tm_ok_addTimer:
  assumes "tm_ok tm" "cb \<noteq> None"
  shows "tm_ok (snd (addTimer ms cb recurring now tm))"
proof -
  let ?t = "Timer_ctor ms cb recurring now"
  let ?tm = "tm\<lparr>next_timer := next_timer tm + 1, timer_heap := (timer_heap tm)(next_timer tm \<mapsto> ?t)\<rparr>"
  have "m_cb ?t \<noteq> None" using assms(2) by (simp add: Timer_ctor_def)
  then have "tm_open ({next_timer tm} - {next_timer tm}) (insert_timer (next_timer tm) (put_timer (next_timer tm) ?t ?tm))"
    by (intro tm_open_arm(1) [OF tm_ok_alloc [OF assms(1)]]) simp_all
  then show ?thesis
    by (simp add: tm_ok_def addTimer_def Let_def put_timer_def) (erule tm_open_cong [THEN iffD1, rotated 3], simp_all)
qed

lemma timer_cancel_ok:
  assumes "tm_ok tm" "timer_heap tm a = Some t"
  shows "\<exists>tm'. timer_cancel a tm = Inr (m_cb t \<noteq> None, tm') \<and> tm_ok tm' \<and>
    timer_heap tm' = (timer_heap tm)(a \<mapsto> t\<lparr>m_cb := None\<rparr>) \<and> set (m_timers tm') = set (m_timers tm) - {a}"
proof -
  have o: "tm_open {} tm" using assms(1) by (simp add: tm_ok_def)
  have lt: "a < next_timer tm" using tm_openD(2) [OF o, of a] assms(2) by simp
  show ?thesis
  proof (cases "m_cb t = None")
    case True
    then have "a \<notin> set (m_timers tm)" "t\<lparr>m_cb := None\<rparr> = t" using tm_openD(5) [OF o _ assms(2)] by auto
    then show ?thesis using True assms by (auto simp: timer_cancel_def)
  next
    case False
    let ?t = "t\<lparr>m_cb := None\<rparr>"
    let ?tm1 = "put_timer a ?t tm"
    have m: "a \<in> set (m_timers tm)" using False tm_openD(5) [OF o _ assms(2)] by simp
    have e: "tm_open {a} (erase_timer a tm)" using tm_open_erase(1) [OF o m] by simp
    have k: "tkey_of (timer_heap ?tm1) b = tkey_of (timer_heap tm) b" for b
      using tkey_of_same_next [of "timer_heap tm" a t None b] assms(2) by simp
    have s1: "sorted_timers (timer_heap ?tm1) (m_timers ?tm1)"
      using sorted_timers_cong [OF k] tm_openD(1) [OF o] by simp
    then have i: "in_timers a ?tm1" using m by (simp add: in_timers_def set_has_iff)
    have f: "m_timers (erase_timer a ?tm1) = m_timers (erase_timer a tm)"
      using set_erase_filter [OF s1] m tm_open_erase(2) [OF o m] by (simp add: erase_timer_def)
    have "tm_open ({a} - {a}) (put_timer a ?t (erase_timer a tm))"
      by (rule tm_open_disarm [OF e]) (use lt tm_open_erase(4) [OF o m] in simp_all)
    then have "tm_ok (erase_timer a ?tm1)"
      using f by (simp add: tm_ok_def) (erule tm_open_cong [THEN iffD1, rotated 3], simp_all add: erase_timer_def)
    moreover have "timer_heap (erase_timer a ?tm1) = (timer_heap tm)(a \<mapsto> ?t)" by (simp add: erase_timer_def)
    moreover have "set (m_timers (erase_timer a ?tm1)) = set (m_timers tm) - {a}"
      unfolding f tm_open_erase(2) [OF o m] by auto
    ultimately show ?thesis using False assms(2) i by (simp add: timer_cancel_def Let_def)
  qed
qed

lemma rearm_ok:
  assumes "tm_ok tm" "a \<in> set (m_timers tm)" "m_cb t \<noteq> None"
  shows "tm_ok (insert_timer a (put_timer a t (erase_timer a tm)))"
    "set (m_timers (insert_timer a (put_timer a t (erase_timer a tm)))) = set (m_timers tm)"
proof -
  have o: "tm_open {} tm" using assms(1) by (simp add: tm_ok_def)
  note e = tm_open_erase [OF o assms(2)]
  have lt: "a < next_timer (erase_timer a tm)" using tm_openD(3) [OF o assms(2)] e(4) by simp
  have "tm_open ({a} - {a}) (insert_timer a (put_timer a t (erase_timer a tm)))"
    "set (m_timers (insert_timer a (put_timer a t (erase_timer a tm)))) = insert a (set (m_timers (erase_timer a tm)))"
    using tm_open_arm [OF e(1) _ lt assms(3)] by simp_all
  then show "tm_ok (insert_timer a (put_timer a t (erase_timer a tm)))"
    "set (m_timers (insert_timer a (put_timer a t (erase_timer a tm)))) = set (m_timers tm)"
    using e(2) assms(2) by (auto simp: tm_ok_def)
qed

lemma timer_refresh_ok:
  assumes "tm_ok tm" "timer_heap tm a = Some t"
  shows "\<exists>tm'. timer_refresh a now tm = Inr (m_cb t \<noteq> None, tm') \<and> tm_ok tm' \<and> set (m_timers tm') = set (m_timers tm)"
proof -
  have o: "tm_open {} tm" using assms(1) by (simp add: tm_ok_def)
  have m: "m_cb t \<noteq> None \<longleftrightarrow> a \<in> set (m_timers tm)" using tm_openD(5) [OF o _ assms(2)] by simp
  show ?thesis
  proof (cases "m_cb t = None")
    case True
    then show ?thesis using assms by (simp add: timer_refresh_def)
  next
    case False
    then have i: "in_timers a tm" "a \<in> set (m_timers tm)" using m in_timers_iff [OF o] by simp_all
    have "m_cb (t\<lparr>m_next := now + m_ms t\<rparr>) \<noteq> None" using False by simp
    from rearm_ok [OF assms(1) i(2) this] show ?thesis using False i(1) assms(2) by (auto simp: timer_refresh_def)
  qed
qed

lemma tm_ok_addTimer_locked:
  "tm_ok (insert_timer a tm) \<Longrightarrow> tm_ok (addTimer_locked a tm)"
  unfolding tm_ok_def by (erule tm_open_cong [THEN iffD1, rotated 3]) simp_all

lemma timer_reset_ok:
  assumes "tm_ok tm" "timer_heap tm a = Some t"
  shows "\<exists>tm'. timer_reset a ms from_now now tm = Inr (True, tm') \<and> tm_ok tm' \<and> set (m_timers tm') = set (m_timers tm)"
proof -
  have o: "tm_open {} tm" using assms(1) by (simp add: tm_ok_def)
  have m: "m_cb t \<noteq> None \<longleftrightarrow> a \<in> set (m_timers tm)" using tm_openD(5) [OF o _ assms(2)] by simp
  show ?thesis
  proof (cases "m_cb t = None \<or> (m_ms t = ms \<and> \<not> from_now)")
    case True
    then show ?thesis using assms by (auto simp: timer_reset_def)
  next
    case False
    then have i: "in_timers a tm" "a \<in> set (m_timers tm)" using m in_timers_iff [OF o] by simp_all
    let ?t = "t\<lparr>m_ms := ms, m_next := (if from_now then now else m_next t - m_ms t) + ms\<rparr>"
    have "m_cb ?t \<noteq> None" using False by simp
    note r = rearm_ok [OF assms(1) i(2) this]
    have "timer_reset a ms from_now now tm = Inr (True, addTimer_locked a (put_timer a ?t (erase_timer a tm)))"
      using False i(1) assms(2) by (auto simp: timer_reset_def)
    moreover have "set (m_timers (addTimer_locked a (put_timer a ?t (erase_timer a tm)))) = set (m_timers tm)"
      using r(2) by simp
    ultimately show ?thesis using tm_ok_addTimer_locked [OF r(1)] by blast
  qed
qed

subsection \<open>Expiry\<close>

definition fired :: "64 word \<Rightarrow> 'cb Timer \<Rightarrow> 'cb Timer" where
  "fired now t = (if m_recurring t then t\<lparr>m_next := now + m_ms t\<rparr> else t\<lparr>m_cb := None\<rparr>)"

lemma fire_timers:
  assumes "tm_open (set es) tm" "distinct es" "set es \<subseteq> {..<next_timer tm}"
    "\<And>a t. a \<in> set es \<Longrightarrow> timer_heap tm a = Some t \<Longrightarrow> m_cb t \<noteq> None"
  shows "\<exists>tm'. fold (fire_timer now) es (cbs, tm) = (cbs @ map (\<lambda>a. m_cb (the (timer_heap tm a))) es, tm') \<and>
    tm_ok tm' \<and> next_timer tm' = next_timer tm \<and>
    timer_heap tm' = (\<lambda>a. if a \<in> set es then map_option (fired now) (timer_heap tm a) else timer_heap tm a) \<and>
    set (m_timers tm') = set (m_timers tm) \<union> {a \<in> set es. m_recurring (the (timer_heap tm a))}"
  using assms
proof (induction es arbitrary: cbs tm)
  case Nil
  then show ?case by (simp add: tm_ok_def)
next
  case (Cons a es)
  have lt: "a < next_timer tm" using Cons.prems(3) by simp
  then obtain t where t: "timer_heap tm a = Some t" using tm_openD(2) [OF Cons.prems(1), of a] by auto
  have cb: "m_cb t \<noteq> None" using Cons.prems(4) [of a t] t by simp
  have es: "set (a # es) - {a} = set es" using Cons.prems(2) by auto
  let ?tm1 = "if m_recurring t then insert_timer a (put_timer a (t\<lparr>m_next := now + m_ms t\<rparr>) tm)
      else put_timer a (t\<lparr>m_cb := None\<rparr>) tm"
  have f: "fire_timer now a (cbs, tm) = (cbs @ [m_cb t], ?tm1)" by (simp add: fire_timer_def t)
  have o: "tm_open (set es) ?tm1"
  proof (cases "m_recurring t")
    case True
    from tm_open_arm(1) [OF Cons.prems(1) _ lt, of "t\<lparr>m_next := now + m_ms t\<rparr>"] cb True show ?thesis unfolding es by simp
  next
    case False
    from tm_open_disarm [OF Cons.prems(1) _ lt, of "t\<lparr>m_cb := None\<rparr>"] False show ?thesis unfolding es by simp
  qed
  have h: "timer_heap ?tm1 = (timer_heap tm)(a \<mapsto> fired now t)" "next_timer ?tm1 = next_timer tm" by (simp_all add: fired_def)
  have set1: "set (m_timers ?tm1) = set (m_timers tm) \<union> (if m_recurring t then {a} else {})"
    using tm_open_arm(2) [OF Cons.prems(1) _ lt, of "t\<lparr>m_next := now + m_ms t\<rparr>"] cb by simp
  have na: "b \<noteq> a" if "b \<in> set es" for b using that Cons.prems(2) by auto
  have "distinct es" "set es \<subseteq> {..<next_timer ?tm1}" using Cons.prems(2,3) h(2) by simp_all
  moreover have "m_cb u \<noteq> None" if "b \<in> set es" "timer_heap ?tm1 b = Some u" for b u
    using that na Cons.prems(4) [of b u] unfolding h by simp
  ultimately obtain tm' where tm': "fold (fire_timer now) es (cbs @ [m_cb t], ?tm1) =
      ((cbs @ [m_cb t]) @ map (\<lambda>a. m_cb (the (timer_heap ?tm1 a))) es, tm')" "tm_ok tm'" "next_timer tm' = next_timer ?tm1"
    "timer_heap tm' = (\<lambda>a. if a \<in> set es then map_option (fired now) (timer_heap ?tm1 a) else timer_heap ?tm1 a)"
    "set (m_timers tm') = set (m_timers ?tm1) \<union> {b \<in> set es. m_recurring (the (timer_heap ?tm1 b))}"
    using Cons.IH [OF o, of "cbs @ [m_cb t]"] by blast
  have m: "map (\<lambda>a. m_cb (the (timer_heap ?tm1 a))) es = map (\<lambda>a. m_cb (the (timer_heap tm a))) es"
    unfolding h using na by (intro map_cong) auto
  have hp: "timer_heap tm' = (\<lambda>b. if b \<in> set (a # es) then map_option (fired now) (timer_heap tm b) else timer_heap tm b)"
    unfolding tm'(4) h using na t by (auto simp: fun_eq_iff)
  have st: "set (m_timers tm') = set (m_timers tm) \<union> {b \<in> set (a # es). m_recurring (the (timer_heap tm b))}"
    unfolding tm'(5) set1 unfolding h using na t by auto
  have fo: "fold (fire_timer now) (a # es) (cbs, tm) = (cbs @ map (\<lambda>a. m_cb (the (timer_heap tm a))) (a # es), tm')"
    using tm'(1) f m t by simp
  show ?case using fo tm'(2,3) h(2) hp st by (intro exI [of _ tm']) simp
qed

lemma expired_prefix_filter:
  assumes "tm_ok tm"
  shows "expired_prefix rollover now tm =
    (filter (\<lambda>a. rollover \<or> next_of (timer_heap tm) a \<le> now) (m_timers tm),
     filter (\<lambda>a. \<not> (rollover \<or> next_of (timer_heap tm) a \<le> now)) (m_timers tm))"
proof (cases rollover)
  case True
  then show ?thesis by (simp add: expired_prefix_def)
next
  case False
  let ?h = "timer_heap tm" and ?k = "TKey now (next_timer tm)"
  have o: "tm_open {} tm" using assms by (simp add: tm_ok_def)
  have k: "tkey_of ?h a < ?k \<longleftrightarrow> next_of ?h a \<le> now" if "a \<in> set (m_timers tm)" for a
    using tm_openD(3) [OF o that] by (auto simp: tkey_of_def less_tkey_def)
  have b: "takeWhile (\<lambda>b. tkey_of ?h b < ?k) (m_timers tm) = filter (\<lambda>a. next_of ?h a \<le> now) (m_timers tm)"
    unfolding sorted_split(1) [OF tm_openD(1) [OF o]] using k by (intro filter_cong) auto
  have r: "set_lower_bound ?h ?k (m_timers tm) = filter (\<lambda>a. \<not> next_of ?h a \<le> now) (m_timers tm)"
    unfolding sorted_split(2) [OF tm_openD(1) [OF o]] using k by (intro filter_cong) (auto simp: not_less [symmetric])
  have "takeWhile (\<lambda>b. next_of ?h b = now) (filter (\<lambda>a. \<not> next_of ?h a \<le> now) l) = []"
    "dropWhile (\<lambda>b. next_of ?h b = now) (filter (\<lambda>a. \<not> next_of ?h a \<le> now) l) = filter (\<lambda>a. \<not> next_of ?h a \<le> now) l" for l
    by (induction l) auto
  then show ?thesis using False b r by (simp add: expired_prefix_def Let_def)
qed

lemma detectClockRollover_simps [simp]:
  "m_timers (snd (detectClockRollover now tm)) = m_timers tm"
  "timer_heap (snd (detectClockRollover now tm)) = timer_heap tm"
  "next_timer (snd (detectClockRollover now tm)) = next_timer tm"
  by (simp_all add: detectClockRollover_def)

text \<open>A timer is due when its time has come, or when the clock is taken to have been set back.\<close>

definition due :: "64 word \<Rightarrow> 'cb TimerManager \<Rightarrow> tptr \<Rightarrow> bool" where
  "due now tm a \<longleftrightarrow> fst (detectClockRollover now tm) \<or> next_of (timer_heap tm) a \<le> now"

lemma listExpiredCb_result:
  assumes "tm_ok tm"
  shows "\<exists>tm'. listExpiredCb now tm = (map (\<lambda>a. m_cb (the (timer_heap tm a))) (filter (due now tm) (m_timers tm)), tm') \<and>
    tm_ok tm' \<and> next_timer tm' = next_timer tm \<and>
    timer_heap tm' = (\<lambda>a. if a \<in> set (m_timers tm) \<and> due now tm a then map_option (fired now) (timer_heap tm a) else timer_heap tm a) \<and>
    set (m_timers tm') = {a \<in> set (m_timers tm). \<not> due now tm a \<or> m_recurring (the (timer_heap tm a))}"
proof -
  obtain roll tm1 where d: "detectClockRollover now tm = (roll, tm1)" by (meson surj_pair)
  have t1: "m_timers tm1 = m_timers tm" "timer_heap tm1 = timer_heap tm" "next_timer tm1 = next_timer tm"
    using detectClockRollover_simps [of now tm] unfolding d by simp_all
  have ok1: "tm_ok tm1" using assms t1 by (simp add: tm_ok_def tm_open_cong [of tm1 tm])
  have o: "tm_open {} tm1" using ok1 by (simp add: tm_ok_def)
  have due: "due now tm a \<longleftrightarrow> roll \<or> next_of (timer_heap tm1) a \<le> now" for a by (simp add: due_def d t1)
  have due_fun: "due now tm = (\<lambda>a. roll \<or> next_of (timer_heap tm) a \<le> now)" using due t1 by (simp add: fun_eq_iff)
  let ?es = "filter (due now tm) (m_timers tm)" and ?rest = "filter (\<lambda>a. \<not> due now tm a) (m_timers tm)"
  have none: ?thesis if "?es = []" "listExpiredCb now tm = ([], tm2)" "m_timers tm2 = m_timers tm"
    "timer_heap tm2 = timer_heap tm" "next_timer tm2 = next_timer tm" for tm2
  proof -
    have "\<not> due now tm a" if "a \<in> set (m_timers tm)" for a using \<open>?es = []\<close> that by (auto simp: filter_empty_conv)
    moreover have "tm_ok tm2" using assms that(3-5) by (simp add: tm_ok_def tm_open_cong [of tm2 tm])
    ultimately show ?thesis using that by (intro exI [of _ tm2]) (auto simp: fun_eq_iff)
  qed
  show ?thesis
  proof (cases "m_timers tm = []")
    case True
    then show ?thesis by (intro none [of tm]) (simp_all add: listExpiredCb_def)
  next
    case ne: False
    show ?thesis
    proof (cases "\<not> roll \<and> next_of (timer_heap tm1) (hd (m_timers tm1)) > now")
      case True
      obtain a l where al: "m_timers tm = a # l" using ne by (cases "m_timers tm") auto
      have "now < next_of (timer_heap tm1) b" if "b \<in> set (m_timers tm)" for b
      proof -
        have "tkey_of (timer_heap tm1) a \<le> tkey_of (timer_heap tm1) b"
          using tm_openD(1) [OF o] that t1 al by (auto intro: less_imp_le)
        then have "next_of (timer_heap tm1) a \<le> next_of (timer_heap tm1) b" by (auto simp: tkey_of_def less_eq_tkey_def)
        moreover have "now < next_of (timer_heap tm1) a" using True t1 al by simp
        ultimately show ?thesis by (rule less_le_trans [rotated])
      qed
      then have "?es = []" using True by (auto simp: filter_empty_conv due not_le)
      moreover have "listExpiredCb now tm = ([], tm1)" using True ne t1 by (simp add: listExpiredCb_def d)
      ultimately show ?thesis using t1 by (intro none [of tm1]) simp_all
    next
      case False
      let ?tm2 = "tm1\<lparr>m_timers := ?rest\<rparr>"
      have l: "listExpiredCb now tm = fold (fire_timer now) ?es ([], ?tm2)"
        using False ne t1 expired_prefix_filter [OF ok1, of roll now] unfolding due_fun by (auto simp: listExpiredCb_def d)
      have o2: "tm_open (set ?es) ?tm2"
        using o t1 sorted_timers_filter [OF tm_openD(1) [OF o], of "\<lambda>a. \<not> due now tm a"] unfolding tm_open_def by auto
      have t2: "timer_heap ?tm2 = timer_heap tm" "next_timer ?tm2 = next_timer tm" "m_timers ?tm2 = ?rest" using t1 by simp_all
      have "distinct ?es" using sorted_timers_distinct [OF tm_openD(1) [OF o]] t1 by simp
      moreover have "set ?es \<subseteq> {..<next_timer ?tm2}" using tm_openD(3) [OF o] t1 by auto
      moreover have "m_cb t \<noteq> None" if "a \<in> set ?es" "timer_heap ?tm2 a = Some t" for a t
        using that tm_openD(5) [OF o, of a t] t1 by simp
      ultimately obtain tm' where "fold (fire_timer now) ?es ([], ?tm2) = (map (\<lambda>a. m_cb (the (timer_heap tm a))) ?es, tm')"
        "tm_ok tm'" "next_timer tm' = next_timer tm"
        "timer_heap tm' = (\<lambda>a. if a \<in> set ?es then map_option (fired now) (timer_heap tm a) else timer_heap tm a)"
        "set (m_timers tm') = set ?rest \<union> {a \<in> set ?es. m_recurring (the (timer_heap tm a))}"
        using fire_timers [where cbs = "[]" and now = now, OF o2] unfolding t2 by auto
      with l show ?thesis by (intro exI [of _ tm']) auto
    qed
  qed
qed

subsection \<open>Runs of the manager\<close>

text \<open>The operations of the program on its timers, each with the time it reads; callbacks are not null.\<close>

datatype 'cb timer_op =
    OpAdd "64 word" 'cb bool
  | OpCancel tptr
  | OpRefresh tptr
  | OpReset tptr "64 word" bool
  | OpNext
  | OpExpire

fun timer_step :: "'cb timer_op \<times> 64 word \<Rightarrow> 'cb TimerManager \<Rightarrow> 'cb TimerManager res" where
  "timer_step (OpAdd ms cb recurring, now) tm = Inr (snd (addTimer ms (Some cb) recurring now tm))"
| "timer_step (OpCancel a, now) tm = bindR (timer_cancel a tm) (\<lambda>r. Inr (snd r))"
| "timer_step (OpRefresh a, now) tm = bindR (timer_refresh a now tm) (\<lambda>r. Inr (snd r))"
| "timer_step (OpReset a ms from_now, now) tm = bindR (timer_reset a ms from_now now tm) (\<lambda>r. Inr (snd r))"
| "timer_step (OpNext, now) tm = Inr (snd (getNextTimer now tm))"
| "timer_step (OpExpire, now) tm = Inr (snd (listExpiredCb now tm))"

lemma timer_step_ok:
  assumes "tm_ok tm"
  shows "case timer_step (op, now) tm of Inr tm' \<Rightarrow> tm_ok tm' | Inl e \<Rightarrow> e = NullDeref"
proof -
  have look: "timer_heap tm a = None \<or> (\<exists>t. timer_heap tm a = Some t)" for a by (cases "timer_heap tm a") auto
  show ?thesis
  proof (cases op)
    case (OpAdd ms cb recurring)
    then show ?thesis using tm_ok_addTimer [OF assms, of "Some cb"] by simp
  next
    case (OpCancel a)
    then show ?thesis using look [of a] timer_cancel_ok [OF assms, of a] by (auto simp: timer_cancel_def)
  next
    case (OpRefresh a)
    show ?thesis
    proof (cases "timer_heap tm a")
      case None
      then show ?thesis by (simp add: OpRefresh timer_refresh_def)
    next
      case (Some t)
      from timer_refresh_ok [OF assms Some, of now] show ?thesis by (auto simp: OpRefresh)
    qed
  next
    case (OpReset a ms from_now)
    show ?thesis
    proof (cases "timer_heap tm a")
      case None
      then show ?thesis by (simp add: OpReset timer_reset_def)
    next
      case (Some t)
      from timer_reset_ok [OF assms Some, of ms from_now now] show ?thesis by (auto simp: OpReset)
    qed
  next
    case OpNext
    then show ?thesis using assms
      by (simp add: getNextTimer_def Let_def tm_ok_def tm_open_cong [of "tm\<lparr>m_tickle := False\<rparr>" tm] split: list.split)
  next
    case OpExpire
    then show ?thesis using listExpiredCb_result [OF assms, of now] by auto
  qed
qed

lemma timer_run_ok:
  "tm_ok tm \<Longrightarrow> case foldR timer_step ops tm of Inr tm' \<Rightarrow> tm_ok tm' | Inl e \<Rightarrow> e = NullDeref"
proof (induction ops arbitrary: tm)
  case (Cons p ops)
  obtain op now where p: "p = (op, now)" by (cases p)
  show ?case using timer_step_ok [OF Cons.prems, of op now] Cons.IH by (cases "timer_step (op, now) tm") (auto simp: p)
qed simp

lemma tm_ok_ctor: "tm_ok (TimerManager_ctor now)"
  by (simp add: tm_ok_def tm_open_def TimerManager_ctor_def)

text \<open>C29. In every run of a timer manager from its construction on, whatever timers are added, cancelled,
  refreshed, reset and fired and whatever the clock says (backwards steps and overflow included), the
  set stays ordered without duplicates, and a timer has a callback exactly while it is in the set. So
  no cancellation erases the end of the set: the only fault a run can end in is the use of a timer
  that was never created.\<close>

theorem timer_runs_keep_invariant:
  "case foldR timer_step ops (TimerManager_ctor now0) of
     Inr tm \<Rightarrow> tm_ok tm \<and> distinct (m_timers tm) \<and> sorted_timers (timer_heap tm) (m_timers tm) \<and>
       {a. \<exists>t. timer_heap tm a = Some t \<and> m_cb t \<noteq> None} = set (m_timers tm)
   | Inl e \<Rightarrow> e = NullDeref"
proof (cases "foldR timer_step ops (TimerManager_ctor now0)")
  case (Inr tm)
  with timer_run_ok [OF tm_ok_ctor, of ops now0] have ok: "tm_ok tm" "tm_open {} tm" by (simp_all add: tm_ok_def)
  have "a \<in> set (m_timers tm) \<longleftrightarrow> (\<exists>t. timer_heap tm a = Some t \<and> m_cb t \<noteq> None)" for a
    using tm_openD(2,3,5) [OF ok(2), of a] by blast
  then show ?thesis using Inr ok(1) tm_openD(1) [OF ok(2)] sorted_timers_distinct by auto
qed (use timer_run_ok [OF tm_ok_ctor, of ops now0] in simp)


definition timers0 :: "string TimerManager" where
  "timers0 = snd (addTimer 50 (Some ''b'') True 1000 (snd (addTimer 10 (Some ''a'') False 1000 (TimerManager_ctor 1000))))"

lemma timers0_ok: "tm_ok timers0"
  by (simp add: timers0_def tm_ok_addTimer tm_ok_ctor)


lemma step_back_wraps:
  fixes n p :: int
  assumes "0 \<le> n" "n < p" "p < 3600000"
  shows "(word_of_int n :: 64 word) < word_of_int p \<and> (word_of_int n :: 64 word) < word_of_int p - 60 * 60 * 1000"
proof -
  have u: "uint (word_of_int n :: 64 word) = n" "uint (word_of_int p :: 64 word) = p"
    using assms by (simp_all add: uint_word_of_int)
  have "(word_of_int p :: 64 word) - 60 * 60 * 1000 = word_of_int (p - 3600000)" by simp
  then have "uint ((word_of_int p :: 64 word) - 60 * 60 * 1000) = (p - 3600000) mod 2 ^ 64" by (simp only: uint_word_of_int) simp
  also have "\<dots> = p - 3600000 + 2 ^ 64" using assms
    by (subst mod_add_self2 [symmetric], intro mod_pos_pos_trivial) simp_all
  finally have "uint ((word_of_int p :: 64 word) - 60 * 60 * 1000) = p - 3600000 + 2 ^ 64" .
  with u assms show ?thesis by (simp add: word_less_def)
qed

text \<open>The clock runs backwards and the rollover test underflows. \<open>GetElapsedMs\<close> subtracts the
  milliseconds of the current second, so a later reading within a second is smaller; during the first
  hour of the machine's life the bound \<open>m_previousTime - 3600000\<close> wraps around, so that the step back
  counts as the clock having been set back by an hour, and every armed timer fires, however far away its
  time is.\<close>

theorem rollover_fires_everything:
  assumes "tm_ok tm" "m_timers tm \<noteq> []" "1 \<le> s" "s < 3600" "0 \<le> n1" "n2 < 1000000000" "n1 div 1000000 < n2 div 1000000"
    "m_previousTime tm = GetElapsedMs s n1"
  shows "fst (listExpiredCb (GetElapsedMs s n2) tm) = map (\<lambda>a. m_cb (the (timer_heap tm a))) (m_timers tm)"
proof -
  let ?p = "s * 1000 - n1 div 1000000" and ?n = "s * 1000 - n2 div 1000000"
  have "n2 div 1000000 < 1000" using assms(6) by simp
  then have b: "0 \<le> ?n" "?n < ?p" "?p < 3600000"
    using assms(3-5,7) by (smt (verit) pos_imp_zdiv_nonneg_iff)+
  have n: "GetElapsedMs s n2 = word_of_int ?n" and p: "m_previousTime tm = word_of_int ?p"
    using assms(8) by (simp_all only: GetElapsedMs_def)
  from step_back_wraps [OF b] have "fst (detectClockRollover (GetElapsedMs s n2) tm)"
    by (simp only: detectClockRollover_def n p fst_conv)
  then have "filter (due (GetElapsedMs s n2) tm) (m_timers tm) = m_timers tm" by (simp add: due_def)
  with listExpiredCb_result [OF assms(1), of "GetElapsedMs s n2"] show ?thesis by auto
qed

theorem rollover_fires_everything_witness:
  "fst (listExpiredCb (GetElapsedMs 60 2000000) (snd (addTimer 1000000 (Some ''far'') False (GetElapsedMs 60 0)
      (TimerManager_ctor (GetElapsedMs 60 0))))) = [Some ''far'']"
proof -
  let ?tm = "snd (addTimer 1000000 (Some ''far'') False (GetElapsedMs 60 0) (TimerManager_ctor (GetElapsedMs 60 0)))"
  have ok: "tm_ok ?tm" by (rule tm_ok_addTimer [OF tm_ok_ctor]) simp
  have m: "m_timers ?tm = [0]" "m_cb (the (timer_heap ?tm 0)) = Some ''far''" "m_previousTime ?tm = GetElapsedMs 60 0"
    by code_simp+
  then have "m_timers ?tm \<noteq> []" by simp
  from rollover_fires_everything [OF ok this, of 60 0 2000000] m show ?thesis by simp
qed

end
