(* ===== verification/IOManager.thy ===== *)
theory IOManager
  imports Timer "HOL-Library.Multiset"
begin

unbundle bit_operations_syntax

text \<open>
  src/fiber/iomanager.cpp: events of file descriptors. Every descriptor has a context with one waiter
  for reading and one for writing (a fiber or a callback); the interest in events is registered with
  \<open>epoll\<close>; when an event happens or is cancelled its waiter goes to the task queue of its scheduler.
  The kernel's side is the interest set of the \<open>epoll\<close> instance, with the documented failures of
  \<open>epoll_ctl\<close>: adding what is there, changing or deleting what is not there, and any call on a
  descriptor the kernel refuses. Each operation holds the descriptor's lock and is one step.
\<close>

subsection \<open>Events\<close>

definition EV_NONE :: "32 word" where "EV_NONE = 0"
definition EV_READ :: "32 word" where "EV_READ = 1"
definition EV_WRITE :: "32 word" where "EV_WRITE = 4"
definition EPOLLERR :: "32 word" where "EPOLLERR = 8"
definition EPOLLHUP :: "32 word" where "EPOLLHUP = 16"
definition EPOLLET :: "32 word" where "EPOLLET = 0x80000000"

lemmas event_defs = EV_NONE_def EV_READ_def EV_WRITE_def EPOLLERR_def EPOLLHUP_def EPOLLET_def

record 'cb EventContext =
  ec_scheduler :: "nat option"
  ec_fiber :: "nat option"
  ec_cb :: "'cb option"

record 'cb FdContext =
  fc_read :: "'cb EventContext"
  fc_write :: "'cb EventContext"
  fc_fd :: int
  fc_events :: "32 word"

datatype 'cb task = TaskFiber nat | TaskCb 'cb

record 'cb IOManager =
  m_fdContexts :: "'cb FdContext list"
  m_pendingEventCount :: "64 word"
  tickle_fd :: int
  interest :: "int \<Rightarrow> 32 word option"
  refused :: "int \<Rightarrow> bool"
  tasks :: "(nat \<times> 'cb task) list"
  io_timers :: "'cb TimerManager"
  io_scheduler :: nat

definition resetEventContext :: "'cb EventContext" where
  "resetEventContext = \<lparr>ec_scheduler = None, ec_fiber = None, ec_cb = None\<rparr>"

definition getEventContext :: "32 word \<Rightarrow> 'cb FdContext \<Rightarrow> 'cb EventContext res" where
  "getEventContext event c =
     (if event = EV_READ then Inr (fc_read c) else if event = EV_WRITE then Inr (fc_write c) else Inl AssertFailed)"

definition putEventContext :: "32 word \<Rightarrow> 'cb EventContext \<Rightarrow> 'cb FdContext \<Rightarrow> 'cb FdContext" where
  "putEventContext event e c = (if event = EV_READ then c\<lparr>fc_read := e\<rparr> else c\<lparr>fc_write := e\<rparr>)"

text \<open>\<open>triggerEvent\<close>: the task it schedules, if the waiter is there, and the context after. The event
  mask becomes \<open>event & ~event\<close>, as the source has it.\<close>

definition triggerEvent :: "32 word \<Rightarrow> 'cb FdContext \<Rightarrow> ((nat \<times> 'cb task) list \<times> 'cb FdContext) res" where
  "triggerEvent event c0 =
     bindR (guardR AssertFailed (fc_events c0 AND event \<noteq> 0)) (\<lambda>_.
       let c = c0\<lparr>fc_events := event AND NOT event\<rparr> in
       bindR (getEventContext event c) (\<lambda>ctx.
         case ec_scheduler ctx of None \<Rightarrow> Inl NullDeref
         | Some sched \<Rightarrow>
             let new = (case ec_cb ctx of Some cb \<Rightarrow> [(sched, TaskCb cb)]
                        | None \<Rightarrow> (case ec_fiber ctx of Some f \<Rightarrow> [(sched, TaskFiber f)] | None \<Rightarrow> []))
             in Inr (new, putEventContext event resetEventContext c)))"

subsection \<open>The kernel\<close>

datatype epoll_op = EPOLL_ADD | EPOLL_MOD | EPOLL_DEL

definition epoll_ctl :: "epoll_op \<Rightarrow> int \<Rightarrow> 32 word \<Rightarrow> 'cb IOManager \<Rightarrow> bool \<times> 'cb IOManager" where
  "epoll_ctl op fd ev io =
     (if refused io fd \<or> (op = EPOLL_ADD \<longleftrightarrow> interest io fd \<noteq> None) then (False, io)
      else (True, io\<lparr>interest := (interest io)(fd := if op = EPOLL_DEL then None else Some ev)\<rparr>))"

subsection \<open>The table of contexts\<close>

definition newFdContext :: "int \<Rightarrow> 'cb FdContext" where
  "newFdContext fd = \<lparr>fc_read = resetEventContext, fc_write = resetEventContext, fc_fd = fd, fc_events = EV_NONE\<rparr>"

definition contextResize :: "nat \<Rightarrow> 'cb FdContext list \<Rightarrow> 'cb FdContext list" where
  "contextResize n cs = take n cs @ map (\<lambda>i. newFdContext (int i)) [length cs..<n]"

definition put_ctx :: "int \<Rightarrow> 'cb FdContext \<Rightarrow> 'cb IOManager \<Rightarrow> 'cb IOManager" where
  "put_ctx fd c io = io\<lparr>m_fdContexts := (m_fdContexts io)[nat fd := c]\<rparr>"

subsection \<open>Operations\<close>

definition addEvent ::
  "int \<Rightarrow> 32 word \<Rightarrow> 'cb option \<Rightarrow> nat \<Rightarrow> bool \<Rightarrow> 'cb IOManager \<Rightarrow> (int \<times> 'cb IOManager) res"
where
  "addEvent fd event cb cur_fiber cur_running io0 =
     (let io = (if int (length (m_fdContexts io0)) > fd then io0
                else io0\<lparr>m_fdContexts := contextResize (nat (fd * 3 div 2)) (m_fdContexts io0)\<rparr>)
      in bindR (vec_at (m_fdContexts io) fd) (\<lambda>fd_ctx.
         bindR (guardR AssertFailed (fc_events fd_ctx AND event = 0)) (\<lambda>_.
         let op = (if fc_events fd_ctx \<noteq> 0 then EPOLL_MOD else EPOLL_ADD) in
         case epoll_ctl op fd (EPOLLET OR fc_events fd_ctx OR event) io of (ok, io1) \<Rightarrow>
           if \<not> ok then Inr (-1, io1)
           else let io2 = io1\<lparr>m_pendingEventCount := m_pendingEventCount io1 + 1\<rparr>;
                    c1 = fd_ctx\<lparr>fc_events := fc_events fd_ctx OR event\<rparr>
                in bindR (getEventContext event c1) (\<lambda>event_ctx.
                   bindR (guardR AssertFailed (ec_scheduler event_ctx = None \<and> ec_fiber event_ctx = None \<and> ec_cb event_ctx = None)) (\<lambda>_.
                   bindR (guardR AssertFailed (cb \<noteq> None \<or> cur_running)) (\<lambda>_.
                   let e = event_ctx\<lparr>ec_scheduler := Some (io_scheduler io0),
                                     ec_cb := cb, ec_fiber := (if cb = None then Some cur_fiber else None)\<rparr>
                   in Inr (0, put_ctx fd (putEventContext event e c1) io2)))))))"

definition delEvent :: "int \<Rightarrow> 32 word \<Rightarrow> 'cb IOManager \<Rightarrow> (bool \<times> 'cb IOManager) res" where
  "delEvent fd event io =
     (if int (length (m_fdContexts io)) \<le> fd then Inr (False, io)
      else bindR (vec_at (m_fdContexts io) fd) (\<lambda>fd_ctx.
        if fc_events fd_ctx AND event = 0 then Inr (False, io)
        else let new_events = fc_events fd_ctx AND NOT event;
                 op = (if new_events \<noteq> 0 then EPOLL_MOD else EPOLL_DEL)
             in case epoll_ctl op fd (EPOLLET OR new_events) io of (ok, io1) \<Rightarrow>
                if \<not> ok then Inr (False, io1)
                else let io2 = io1\<lparr>m_pendingEventCount := m_pendingEventCount io1 - 1\<rparr>;
                         c1 = fd_ctx\<lparr>fc_events := new_events\<rparr>
                     in bindR (getEventContext event c1) (\<lambda>_.
                        Inr (True, put_ctx fd (putEventContext event resetEventContext c1) io2))))"

definition trigger_pending :: "int \<Rightarrow> 32 word \<Rightarrow> 'cb IOManager \<Rightarrow> 'cb IOManager res" where
  "trigger_pending fd event io =
     bindR (vec_at (m_fdContexts io) fd) (\<lambda>fd_ctx. bindR (triggerEvent event fd_ctx) (\<lambda>(new, c1).
       Inr ((put_ctx fd c1 io)\<lparr>tasks := tasks io @ new, m_pendingEventCount := m_pendingEventCount io - 1\<rparr>)))"

definition cancelEvent :: "int \<Rightarrow> 32 word \<Rightarrow> 'cb IOManager \<Rightarrow> (bool \<times> 'cb IOManager) res" where
  "cancelEvent fd event io =
     (if int (length (m_fdContexts io)) \<le> fd then Inr (False, io)
      else bindR (vec_at (m_fdContexts io) fd) (\<lambda>fd_ctx.
        if fc_events fd_ctx AND event = 0 then Inr (False, io)
        else let new_events = fc_events fd_ctx AND NOT event;
                 op = (if new_events \<noteq> 0 then EPOLL_MOD else EPOLL_DEL)
             in case epoll_ctl op fd (EPOLLET OR new_events) io of (ok, io1) \<Rightarrow>
                if \<not> ok then Inr (False, io1)
                else bindR (trigger_pending fd event io1) (\<lambda>io2. Inr (True, io2))))"

definition trigger_if :: "int \<Rightarrow> 32 word \<Rightarrow> 'cb IOManager \<Rightarrow> 'cb IOManager res" where
  "trigger_if fd event io =
     bindR (vec_at (m_fdContexts io) fd) (\<lambda>fd_ctx.
       if fc_events fd_ctx AND event \<noteq> 0 then trigger_pending fd event io else Inr io)"

definition cancelAll :: "int \<Rightarrow> 'cb IOManager \<Rightarrow> (bool \<times> 'cb IOManager) res" where
  "cancelAll fd io =
     (if int (length (m_fdContexts io)) \<le> fd then Inr (False, io)
      else bindR (vec_at (m_fdContexts io) fd) (\<lambda>fd_ctx.
        if fc_events fd_ctx = 0 then Inr (False, io)
        else case epoll_ctl EPOLL_DEL fd 0 io of (ok, io1) \<Rightarrow>
          if \<not> ok then Inr (False, io1)
          else bindR (trigger_if fd EV_READ io1) (\<lambda>io2.
               bindR (trigger_if fd EV_WRITE io2) (\<lambda>io3.
               bindR (vec_at (m_fdContexts io3) fd) (\<lambda>c.
               bindR (guardR AssertFailed (fc_events c = 0)) (\<lambda>_. Inr (True, io3)))))))"

subsection \<open>One wake-up of the idle fiber\<close>

text \<open>An event of \<open>epoll_wait\<close>: the descriptor and its bits.\<close>

definition idle_event :: "int \<times> 32 word \<Rightarrow> 'cb IOManager \<Rightarrow> 'cb IOManager res" where
  "idle_event ev io =
     (case ev of (fd, bits0) \<Rightarrow>
      if fd = tickle_fd io then Inr io
      else bindR (vec_at (m_fdContexts io) fd) (\<lambda>fd_ctx.
        let bits = (if bits0 AND (EPOLLERR OR EPOLLHUP) \<noteq> 0 then bits0 OR ((EV_READ OR EV_WRITE) AND fc_events fd_ctx) else bits0);
            real_events = (if bits AND EV_READ \<noteq> 0 then EV_READ else EV_NONE) OR (if bits AND EV_WRITE \<noteq> 0 then EV_WRITE else EV_NONE)
        in if fc_events fd_ctx AND real_events = EV_NONE then Inr io
           else let left_events = fc_events fd_ctx AND NOT real_events;
                    op = (if left_events \<noteq> 0 then EPOLL_MOD else EPOLL_DEL)
                in case epoll_ctl op (fc_fd fd_ctx) (EPOLLET OR left_events) io of (ok, io1) \<Rightarrow>
                   if \<not> ok then Inr io1
                   else bindR (if real_events AND EV_READ \<noteq> 0 then trigger_pending fd EV_READ io1 else Inr io1) (\<lambda>io2.
                        if real_events AND EV_WRITE \<noteq> 0 then trigger_pending fd EV_WRITE io2 else Inr io2)))"

definition expired_tasks :: "nat \<Rightarrow> 'cb option list \<Rightarrow> (nat \<times> 'cb task) list" where
  "expired_tasks sched cbs = concat (map (\<lambda>cb. case cb of Some f \<Rightarrow> [(sched, TaskCb f)] | None \<Rightarrow> []) cbs)"

text \<open>A turn of the loop after \<open>epoll_wait\<close> delivered its events, before the fiber yields.\<close>

definition idle_turn :: "64 word \<Rightarrow> (int \<times> 32 word) list \<Rightarrow> 'cb IOManager \<Rightarrow> 'cb IOManager res" where
  "idle_turn now_ms evs io =
     (case listExpiredCb now_ms (io_timers io) of (cbs, tm) \<Rightarrow>
       foldR idle_event evs (io\<lparr>io_timers := tm, tasks := tasks io @ expired_tasks (io_scheduler io) cbs\<rparr>))"

text \<open>The time \<open>epoll_wait\<close> may block: the timeout is cast to \<open>int\<close> and capped at 5000.\<close>

definition wait_time :: "64 word \<Rightarrow> int" where
  "wait_time next_timeout =
     (if next_timeout \<noteq> -1 then min (sint (ucast next_timeout :: 32 word)) 5000 else 5000)"

text \<open>\<open>stopping\<close>; the part of the scheduler is an argument.\<close>

definition io_stopping :: "bool \<Rightarrow> 64 word \<Rightarrow> 'cb IOManager \<Rightarrow> bool \<times> 64 word \<times> 'cb IOManager" where
  "io_stopping scheduler_stopping now_ms io =
     (case getNextTimer now_ms (io_timers io) of (timeout, tm) \<Rightarrow>
       (timeout = -1 \<and> m_pendingEventCount io = 0 \<and> scheduler_stopping, timeout, io\<lparr>io_timers := tm\<rparr>))"

subsection \<open>Waiters\<close>

definition waiter :: "'cb EventContext \<Rightarrow> (nat \<times> 'cb task) list" where
  "waiter e = (case ec_scheduler e of None \<Rightarrow> []
     | Some s \<Rightarrow> (case ec_cb e of Some cb \<Rightarrow> [(s, TaskCb cb)]
                  | None \<Rightarrow> (case ec_fiber e of Some f \<Rightarrow> [(s, TaskFiber f)] | None \<Rightarrow> [])))"

definition ctx_waiters :: "'cb FdContext \<Rightarrow> (nat \<times> 'cb task) multiset" where
  "ctx_waiters c = mset (waiter (fc_read c)) + mset (waiter (fc_write c))"

definition waiters :: "'cb IOManager \<Rightarrow> (nat \<times> 'cb task) multiset" where
  "waiters io = sum_list (map ctx_waiters (m_fdContexts io))"

text \<open>A context with at most one kind of event registered, whose waiter is there exactly then.\<close>

definition ctx_ok :: "'cb FdContext \<Rightarrow> bool" where
  "ctx_ok c \<longleftrightarrow> fc_events c \<in> {EV_NONE, EV_READ, EV_WRITE} \<and>
     (if fc_events c = EV_READ then length (waiter (fc_read c)) = 1 else fc_read c = resetEventContext) \<and>
     (if fc_events c = EV_WRITE then length (waiter (fc_write c)) = 1 else fc_write c = resetEventContext)"

definition ctx_of :: "int \<Rightarrow> 'cb IOManager \<Rightarrow> 'cb FdContext" where
  "ctx_of fd io = (if 0 \<le> fd \<and> fd < int (length (m_fdContexts io)) then m_fdContexts io ! nat fd else newFdContext fd)"

definition io_ok :: "'cb IOManager \<Rightarrow> bool" where
  "io_ok io \<longleftrightarrow> 32 \<le> length (m_fdContexts io) \<and>
     (\<forall>fd. ctx_ok (ctx_of fd io) \<and> fc_fd (ctx_of fd io) = fd \<and>
        (fd \<ge> 0 \<and> fd \<noteq> tickle_fd io \<longrightarrow> interest io fd = (if fc_events (ctx_of fd io) = 0 then None else Some (EPOLLET OR fc_events (ctx_of fd io))))) \<and>
     m_pendingEventCount io = word_of_nat (size (waiters io))"

lemma waiter_reset [simp]: "waiter resetEventContext = []"
  by (simp add: waiter_def resetEventContext_def)

lemma ctx_waiters_new [simp]: "ctx_waiters (newFdContext fd) = {#}"
  by (simp add: ctx_waiters_def newFdContext_def)

lemma ctx_ok_new: "ctx_ok (newFdContext fd)"
  by (simp add: ctx_ok_def newFdContext_def EV_NONE_def EV_READ_def EV_WRITE_def)

lemma event_bits:
  "EV_READ AND EV_READ \<noteq> 0" "EV_WRITE AND EV_WRITE \<noteq> 0" "EV_READ AND EV_WRITE = 0" "EV_WRITE AND EV_READ = 0"
  "EV_READ \<noteq> 0" "EV_WRITE \<noteq> 0" "EV_READ \<noteq> EV_WRITE" "e AND NOT e = (0 :: 32 word)" "EV_NONE = 0"
  by (simp_all add: event_defs)

lemma sum_list_update_mset:
  fixes xs :: "'a list" and f :: "'a \<Rightarrow> 'b multiset"
  assumes "i < length xs"
  shows "sum_list (map f (xs[i := y])) + f (xs ! i) = sum_list (map f xs) + f y"
  using assms
proof (induction xs arbitrary: i)
  case (Cons x xs)
  then show ?case by (cases i) (auto simp: ac_simps)
qed simp

lemma vec_at_ctx: "0 \<le> fd \<Longrightarrow> fd < int (length (m_fdContexts io)) \<Longrightarrow> vec_at (m_fdContexts io) fd = Inr (ctx_of fd io)"
  by (simp add: vec_at_def ctx_of_def)

lemma ctx_of_put:
  "0 \<le> fd \<Longrightarrow> fd < int (length (m_fdContexts io)) \<Longrightarrow> ctx_of j (put_ctx fd c io) = (if j = fd then c else ctx_of j io)"
  by (auto simp: ctx_of_def put_ctx_def nth_list_update)

lemma put_ctx_simps [simp]:
  "length (m_fdContexts (put_ctx fd c io)) = length (m_fdContexts io)" "interest (put_ctx fd c io) = interest io"
  "tasks (put_ctx fd c io) = tasks io" "m_pendingEventCount (put_ctx fd c io) = m_pendingEventCount io"
  "tickle_fd (put_ctx fd c io) = tickle_fd io" "refused (put_ctx fd c io) = refused io"
  "io_scheduler (put_ctx fd c io) = io_scheduler io"
  by (simp_all add: put_ctx_def)

lemma waiters_put:
  assumes "0 \<le> fd" "fd < int (length (m_fdContexts io))"
  shows "waiters (put_ctx fd c io) + ctx_waiters (ctx_of fd io) = waiters io + ctx_waiters c"
  using sum_list_update_mset [of "nat fd" "m_fdContexts io" ctx_waiters c] assms
  by (simp add: waiters_def put_ctx_def ctx_of_def nat_less_iff)

lemma waiters_cong: "m_fdContexts t = m_fdContexts s \<Longrightarrow> waiters t = waiters s"
  by (simp add: waiters_def)

lemma ctx_of_cong: "m_fdContexts t = m_fdContexts s \<Longrightarrow> ctx_of fd t = ctx_of fd s"
  by (simp add: ctx_of_def)

lemma io_okD:
  assumes "io_ok io"
  shows "32 \<le> length (m_fdContexts io)" "ctx_ok (ctx_of fd io)" "fc_fd (ctx_of fd io) = fd"
    "fd \<ge> 0 \<Longrightarrow> fd \<noteq> tickle_fd io \<Longrightarrow>
       interest io fd = (if fc_events (ctx_of fd io) = 0 then None else Some (EPOLLET OR fc_events (ctx_of fd io)))"
    "m_pendingEventCount io = word_of_nat (size (waiters io))"
  using assms unfolding io_ok_def by blast+

text \<open>Triggering the one registered event hands its waiter over and clears the context.\<close>

lemma trigger_single:
  assumes "ctx_ok c" "fc_events c = event" "event = EV_READ \<or> event = EV_WRITE"
  shows "\<exists>w c'. triggerEvent event c = Inr ([w], c') \<and> ctx_waiters c = {#w#} \<and> ctx_ok c' \<and> fc_events c' = 0 \<and>
    fc_fd c' = fc_fd c \<and> ctx_waiters c' = {#}"
proof -
  let ?e = "if event = EV_READ then fc_read c else fc_write c"
  have ne: "event AND event \<noteq> 0" "event AND NOT event = 0" using assms(3) event_bits by auto
  have "length (waiter ?e) = 1" using assms event_bits(7) by (auto simp: ctx_ok_def)
  then obtain w where w: "waiter ?e = [w]" by (cases "waiter ?e") auto
  let ?c' = "putEventContext event resetEventContext (c\<lparr>fc_events := 0\<rparr>)"
  have "triggerEvent event c = Inr ([w], ?c')"
    using w assms(2,3) ne event_bits(7)
    by (auto simp: triggerEvent_def getEventContext_def putEventContext_def waiter_def Let_def split: option.splits)
  moreover have "ctx_waiters c = {#w#}"
    using w assms event_bits(7) by (auto simp: ctx_waiters_def ctx_ok_def)
  moreover have "ctx_ok ?c'" "fc_events ?c' = 0" "fc_fd ?c' = fc_fd c" "ctx_waiters ?c' = {#}"
    using assms event_bits by (auto simp: ctx_ok_def putEventContext_def ctx_waiters_def)
  ultimately show ?thesis by blast
qed

lemma trigger_pending_single:
  assumes "0 \<le> fd" "fd < int (length (m_fdContexts io))" "ctx_ok (ctx_of fd io)" "fc_events (ctx_of fd io) = event"
    "event = EV_READ \<or> event = EV_WRITE" "m_pendingEventCount io = word_of_nat (size (waiters io))"
  shows "\<exists>io' c'. trigger_pending fd event io = Inr io' \<and> mset (tasks io') + waiters io' = mset (tasks io) + waiters io \<and>
    m_pendingEventCount io' = word_of_nat (size (waiters io')) \<and> ctx_ok c' \<and> fc_events c' = 0 \<and> fc_fd c' = fc_fd (ctx_of fd io) \<and>
    (\<forall>j. ctx_of j io' = (if j = fd then c' else ctx_of j io)) \<and> interest io' = interest io \<and> tickle_fd io' = tickle_fd io \<and>
    length (m_fdContexts io') = length (m_fdContexts io)"
proof -
  from trigger_single [OF assms(3-5)] obtain w c' where
    t: "triggerEvent event (ctx_of fd io) = Inr ([w], c')" "ctx_waiters (ctx_of fd io) = {#w#}" "ctx_ok c'" "fc_events c' = 0"
    "fc_fd c' = fc_fd (ctx_of fd io)" "ctx_waiters c' = {#}" by blast
  let ?io' = "(put_ctx fd c' io)\<lparr>tasks := tasks io @ [w], m_pendingEventCount := m_pendingEventCount io - 1\<rparr>"
  have wt: "waiters ?io' = waiters (put_ctx fd c' io)" by (rule waiters_cong) simp
  have "waiters (put_ctx fd c' io) + {#w#} = waiters io" using waiters_put [OF assms(1,2), of c'] t(2,6) by simp
  then have we: "waiters ?io' + {#w#} = waiters io" unfolding wt .
  then have "size (waiters io) = Suc (size (waiters (put_ctx fd c' io)))" unfolding wt
    by (metis size_add_mset union_mset_add_mset_right add_0_right)
  then have "m_pendingEventCount ?io' = word_of_nat (size (waiters ?io'))" unfolding wt by (simp add: assms(6))
  moreover have "mset (tasks ?io') + waiters ?io' = mset (tasks io) + waiters io" unfolding we [symmetric] by simp
  moreover have "ctx_of j ?io' = (if j = fd then c' else ctx_of j io)" for j
    using ctx_of_put [OF assms(1,2)] ctx_of_cong [of ?io' "put_ctx fd c' io"] by simp
  moreover have "trigger_pending fd event io = Inr ?io'"
    by (simp add: trigger_pending_def vec_at_ctx [OF assms(1,2)] t(1))
  ultimately show ?thesis using t(3-5) by (intro exI [of _ ?io'] exI [of _ c']) simp
qed

subsection \<open>Operations on contexts with one event\<close>

text \<open>The kernel reports only events of the interest it was told.\<close>

definition kernel_event :: "int \<times> 32 word \<Rightarrow> 'cb IOManager \<Rightarrow> bool" where
  "kernel_event ev io \<longleftrightarrow> fst ev = tickle_fd io \<or>
     (0 \<le> fst ev \<and> fst ev < int (length (m_fdContexts io)) \<and>
      snd ev AND EV_READ AND NOT (fc_events (ctx_of (fst ev) io)) = 0 \<and> snd ev AND EV_WRITE AND NOT (fc_events (ctx_of (fst ev) io)) = 0)"

definition keeps_waiters :: "'cb IOManager \<Rightarrow> 'cb IOManager \<Rightarrow> bool" where
  "keeps_waiters io io' \<longleftrightarrow> io_ok io' \<and> mset (tasks io') + waiters io' = mset (tasks io) + waiters io"

lemma keeps_waiters_refl: "io_ok io \<Longrightarrow> keeps_waiters io io"
  by (simp add: keeps_waiters_def)

lemma epoll_ctl_del:
  assumes "io_ok io" "0 \<le> fd" "fd \<noteq> tickle_fd io" "fc_events (ctx_of fd io) \<noteq> 0"
  shows "epoll_ctl EPOLL_DEL fd ev io = (if refused io fd then (False, io) else (True, io\<lparr>interest := (interest io)(fd := None)\<rparr>))"
  using io_okD(4) [OF assms(1-3)] assms(4) by (simp add: epoll_ctl_def)

lemma single_event:
  assumes "io_ok io" "fc_events (ctx_of fd io) \<noteq> 0"
  shows "fc_events (ctx_of fd io) = EV_READ \<or> fc_events (ctx_of fd io) = EV_WRITE" "0 \<le> fd" "fd < int (length (m_fdContexts io))"
proof -
  show "fc_events (ctx_of fd io) = EV_READ \<or> fc_events (ctx_of fd io) = EV_WRITE"
    using io_okD(2) [OF assms(1), of fd] assms(2) by (auto simp: ctx_ok_def EV_NONE_def)
  have "\<not> (0 \<le> fd \<and> fd < int (length (m_fdContexts io))) \<Longrightarrow> fc_events (ctx_of fd io) = 0"
    by (auto simp: ctx_of_def newFdContext_def EV_NONE_def)
  then show "0 \<le> fd" "fd < int (length (m_fdContexts io))" using assms(2) by auto
qed

text \<open>After the interest is deleted, the one waiter is scheduled.\<close>

lemma deleted_then_triggered:
  assumes "io_ok io" "fd \<noteq> tickle_fd io" "fc_events (ctx_of fd io) = event" "event \<noteq> 0"
  shows "\<exists>io'. trigger_pending fd event (io\<lparr>interest := (interest io)(fd := None)\<rparr>) = Inr io' \<and> keeps_waiters io io' \<and>
    fc_events (ctx_of fd io') = 0 \<and> length (m_fdContexts io') = length (m_fdContexts io) \<and> waiters io' + ctx_waiters (ctx_of fd io) = waiters io"
proof -
  let ?io1 = "io\<lparr>interest := (interest io)(fd := None)\<rparr>"
  have ne: "fc_events (ctx_of fd io) \<noteq> 0" using assms(3,4) by simp
  note se = single_event [OF assms(1) ne]
  have c1: "ctx_of j ?io1 = ctx_of j io" "waiters ?io1 = waiters io" for j
    by (simp_all add: ctx_of_def waiters_def)
  have "event = EV_READ \<or> event = EV_WRITE" using se(1) assms(3) by simp
  from trigger_pending_single [of fd ?io1 event, unfolded c1, OF _ _ io_okD(2) [OF assms(1)] assms(3) this]
    se(2,3) io_okD(5) [OF assms(1)]
  obtain io' c' where t: "trigger_pending fd event ?io1 = Inr io'" "mset (tasks io') + waiters io' = mset (tasks io) + waiters io"
    "m_pendingEventCount io' = word_of_nat (size (waiters io'))" "ctx_ok c'" "fc_events c' = 0" "fc_fd c' = fc_fd (ctx_of fd io)"
    "\<forall>j. ctx_of j io' = (if j = fd then c' else ctx_of j io)" "interest io' = (interest io)(fd := None)" "tickle_fd io' = tickle_fd io"
    "length (m_fdContexts io') = length (m_fdContexts io)" by (auto simp: c1)
  have "io_ok io'"
    unfolding io_ok_def
  proof (intro conjI allI impI)
    fix j
    show "ctx_ok (ctx_of j io')" "fc_fd (ctx_of j io') = j" using t(4,6,7) io_okD(2,3) [OF assms(1)] by auto
    show "interest io' j = (if fc_events (ctx_of j io') = 0 then None else Some (EPOLLET OR fc_events (ctx_of j io')))"
      if "0 \<le> j \<and> j \<noteq> tickle_fd io'" using that t(5,7,8,9) io_okD(4) [OF assms(1), of j] by auto
  qed (use t(3,10) io_okD(1) [OF assms(1)] in simp_all)
  moreover have "waiters io' + ctx_waiters (ctx_of fd io) = waiters io"
  proof -
    from trigger_single [OF io_okD(2) [OF assms(1)] assms(3)] \<open>event = EV_READ \<or> event = EV_WRITE\<close>
    obtain w cw where w: "triggerEvent event (ctx_of fd io) = Inr ([w], cw)" "ctx_waiters (ctx_of fd io) = {#w#}" by blast
    have "tasks io' = tasks io @ [w]"
      using t(1) vec_at_ctx [OF se(2,3)] w(1) by (auto simp: trigger_pending_def res_simps)
    with t(2) w(2) show ?thesis by simp
  qed
  ultimately show ?thesis using t(1,2,5,7,10) by (auto simp: keeps_waiters_def)
qed

lemma cancelEvent_result:
  assumes "io_ok io" "0 \<le> fd" "fd \<noteq> tickle_fd io" "event = EV_READ \<or> event = EV_WRITE"
  shows "\<exists>ok io'. cancelEvent fd event io = Inr (ok, io') \<and> keeps_waiters io io' \<and>
    (ok \<longrightarrow> waiters io' + ctx_waiters (ctx_of fd io) = waiters io)"
proof (cases "int (length (m_fdContexts io)) \<le> fd")
  case True
  then have "cancelEvent fd event io = Inr (False, io)" by (simp add: cancelEvent_def)
  then show ?thesis using keeps_waiters_refl [OF assms(1)] by blast
next
  case False
  then have va: "vec_at (m_fdContexts io) fd = Inr (ctx_of fd io)" using assms(2) by (intro vec_at_ctx) simp_all
  show ?thesis
  proof (cases "fc_events (ctx_of fd io) AND event = 0")
    case True
    then have "cancelEvent fd event io = Inr (False, io)" using False va by (simp add: cancelEvent_def)
    then show ?thesis using keeps_waiters_refl [OF assms(1)] by blast
  next
    case ev: False
    then have ne: "fc_events (ctx_of fd io) \<noteq> 0" by auto
    have e: "fc_events (ctx_of fd io) = event" using single_event(1) [OF assms(1) ne] ev assms(4) event_bits by auto
    have nz: "event \<noteq> 0" using e ne by simp
    from deleted_then_triggered [OF assms(1,3) e nz] obtain io' where
      t: "trigger_pending fd event (io\<lparr>interest := (interest io)(fd := None)\<rparr>) = Inr io'" "keeps_waiters io io'"
      "waiters io' + ctx_waiters (ctx_of fd io) = waiters io" by blast
    show ?thesis using False va ev e t epoll_ctl_del [OF assms(1-3) ne] keeps_waiters_refl [OF assms(1)] event_bits(8)
      by (auto simp: cancelEvent_def Let_def)
  qed
qed

lemma cancelAll_result:
  assumes "io_ok io" "0 \<le> fd" "fd \<noteq> tickle_fd io"
  shows "\<exists>ok io'. cancelAll fd io = Inr (ok, io') \<and> keeps_waiters io io' \<and> (ok \<longrightarrow> waiters io' + ctx_waiters (ctx_of fd io) = waiters io)"
proof (cases "int (length (m_fdContexts io)) \<le> fd")
  case True
  then have "cancelAll fd io = Inr (False, io)" by (simp add: cancelAll_def)
  then show ?thesis using keeps_waiters_refl [OF assms(1)] by blast
next
  case False
  then have va: "vec_at (m_fdContexts io) fd = Inr (ctx_of fd io)" using assms(2) by (intro vec_at_ctx) simp_all
  show ?thesis
  proof (cases "fc_events (ctx_of fd io) = 0 \<or> refused io fd")
    case True
    then have "cancelAll fd io = Inr (False, io)" using False va epoll_ctl_del [OF assms]
      by (cases "fc_events (ctx_of fd io) = 0") (simp_all add: cancelAll_def)
    then show ?thesis using keeps_waiters_refl [OF assms(1)] by blast
  next
    case ev: False
    then have ne: "fc_events (ctx_of fd io) \<noteq> 0" by auto
    let ?e = "fc_events (ctx_of fd io)"
    let ?io1 = "io\<lparr>interest := (interest io)(fd := None)\<rparr>"
    from deleted_then_triggered [OF assms(1,3) refl ne] obtain io' where
      t: "trigger_pending fd ?e ?io1 = Inr io'" "keeps_waiters io io'" "fc_events (ctx_of fd io') = 0"
      "length (m_fdContexts io') = length (m_fdContexts io)" "waiters io' + ctx_waiters (ctx_of fd io) = waiters io" by blast
    have va': "vec_at (m_fdContexts io') fd = Inr (ctx_of fd io')" using assms(2) False t(4) by (intro vec_at_ctx) simp_all
    have va1: "vec_at (m_fdContexts ?io1) fd = Inr (ctx_of fd io)" using va by simp
    have trig: "bindR (trigger_if fd EV_READ ?io1) (\<lambda>io2. bindR (trigger_if fd EV_WRITE io2) f) = f io'" for f :: "'a IOManager \<Rightarrow> (bool \<times> 'a IOManager) res"
      using single_event(1) [OF assms(1) ne]
    proof
      assume r: "?e = EV_READ"
      have "trigger_if fd EV_READ ?io1 = Inr io'" "trigger_if fd EV_WRITE io' = Inr io'"
        unfolding trigger_if_def va1 va' using t(1,3) r event_bits by simp_all
      then show ?thesis by simp
    next
      assume r: "?e = EV_WRITE"
      have "trigger_if fd EV_READ ?io1 = Inr ?io1" "trigger_if fd EV_WRITE ?io1 = Inr io'"
        unfolding trigger_if_def va1 using t(1) r event_bits by simp_all
      then show ?thesis by simp
    qed
    have "cancelAll fd io = Inr (True, io')"
      using False va ev t(3) va' epoll_ctl_del [OF assms ne] by (simp add: cancelAll_def trig)
    with t(2,5) show ?thesis by blast
  qed
qed

lemma trigger_if_timers: "trigger_if fd event io = Inr io' \<Longrightarrow> io_timers io' = io_timers io"
  by (auto simp: trigger_if_def trigger_pending_def res_simps put_ctx_def split: if_splits)

lemma cancelAll_timers: "cancelAll fd io = Inr (ok, io') \<Longrightarrow> io_timers io' = io_timers io"
  by (auto simp: cancelAll_def epoll_ctl_def res_simps dest!: trigger_if_timers split: if_splits prod.splits)

lemma io_ok_cong:
  assumes "io_ok io" "m_fdContexts io' = m_fdContexts io" "interest io' = interest io"
    "m_pendingEventCount io' = m_pendingEventCount io" "tickle_fd io' = tickle_fd io"
  shows "io_ok io'"
  using assms(1,3-5) unfolding io_ok_def ctx_of_cong [OF assms(2)] waiters_cong [OF assms(2)] assms(2) by simp

lemma idle_event_result:
  assumes "io_ok io" "kernel_event ev io"
  shows "\<exists>io'. idle_event ev io = Inr io' \<and> keeps_waiters io io'"
proof -
  obtain fd bits0 where ev: "ev = (fd, bits0)" by (cases ev)
  show ?thesis
  proof (cases "fd = tickle_fd io")
    case True
    then show ?thesis using keeps_waiters_refl [OF assms(1)] by (simp add: idle_event_def ev)
  next
    case False
    with assms(2) ev have fd: "0 \<le> fd" "fd < int (length (m_fdContexts io))"
      "bits0 AND EV_READ AND NOT (fc_events (ctx_of fd io)) = 0" "bits0 AND EV_WRITE AND NOT (fc_events (ctx_of fd io)) = 0"
      by (simp_all add: kernel_event_def)
    let ?c = "ctx_of fd io"
    let ?bits = "if bits0 AND (EPOLLERR OR EPOLLHUP) \<noteq> 0 then bits0 OR ((EV_READ OR EV_WRITE) AND fc_events ?c) else bits0"
    let ?real = "(if ?bits AND EV_READ \<noteq> 0 then EV_READ else EV_NONE) OR (if ?bits AND EV_WRITE \<noteq> 0 then EV_WRITE else EV_NONE)"
    have va: "vec_at (m_fdContexts io) fd = Inr ?c" by (rule vec_at_ctx [OF fd(1,2)])
    show ?thesis
    proof (cases "fc_events ?c AND ?real = EV_NONE")
      case True
      then have "idle_event ev io = Inr io" using False va by (simp add: idle_event_def ev Let_def)
      then show ?thesis using keeps_waiters_refl [OF assms(1)] by blast
    next
      case hit: False
      then have ne: "fc_events ?c \<noteq> 0" by (auto simp: event_bits)
      note se = single_event(1) [OF assms(1) ne]
      from deleted_then_triggered [OF assms(1) False refl ne] obtain io' where
        t: "trigger_pending fd (fc_events ?c) (io\<lparr>interest := (interest io)(fd := None)\<rparr>) = Inr io'" "keeps_waiters io io'" by blast
      have real: "?real = fc_events ?c"
        using se hit fd(3,4) by (auto simp: event_defs bit.conj_disj_distrib2 split: if_splits)
      have ie: "idle_event ev io = (case epoll_ctl EPOLL_DEL fd EPOLLET io of (ok, io1) \<Rightarrow>
          if \<not> ok then Inr io1
          else bindR (if fc_events ?c AND EV_READ \<noteq> 0 then trigger_pending fd EV_READ io1 else Inr io1) (\<lambda>io2.
               if fc_events ?c AND EV_WRITE \<noteq> 0 then trigger_pending fd EV_WRITE io2 else Inr io2))"
        unfolding idle_event_def ev Let_def prod.case va bindR.simps real
        using False ne io_okD(3) [OF assms(1), of fd] event_bits(8,9) by (auto split: prod.split)
      have tr: "bindR (if fc_events ?c AND EV_READ \<noteq> 0 then trigger_pending fd EV_READ io1 else Inr io1) (\<lambda>io2.
               if fc_events ?c AND EV_WRITE \<noteq> 0 then trigger_pending fd EV_WRITE io2 else Inr io2) = trigger_pending fd (fc_events ?c) io1" for io1
        using se by (cases "trigger_pending fd (fc_events ?c) io1") (auto simp: event_bits)
      show ?thesis
      proof (cases "refused io fd")
        case True
        then have "idle_event ev io = Inr io" unfolding ie tr by (simp add: epoll_ctl_del [OF assms(1) fd(1) False ne])
        then show ?thesis using keeps_waiters_refl [OF assms(1)] by blast
      next
        case ok: False
        have "idle_event ev io = Inr io'" unfolding ie tr by (simp add: epoll_ctl_del [OF assms(1) fd(1) False ne] ok t(1))
        then show ?thesis using t(2) by blast
      qed
    qed
  qed
qed

lemma contextResize_ctx:
  assumes "length (m_fdContexts io) \<le> n"
  shows "ctx_of j (io\<lparr>m_fdContexts := contextResize n (m_fdContexts io)\<rparr>) = ctx_of j io"
    "waiters (io\<lparr>m_fdContexts := contextResize n (m_fdContexts io)\<rparr>) = waiters io"
proof -
  show "ctx_of j (io\<lparr>m_fdContexts := contextResize n (m_fdContexts io)\<rparr>) = ctx_of j io"
    using assms by (auto simp: ctx_of_def contextResize_def nth_append)
  have "sum_list (map (ctx_waiters \<circ> (\<lambda>i. newFdContext (int i))) l) = {#}" for l by (induction l) simp_all
  then show "waiters (io\<lparr>m_fdContexts := contextResize n (m_fdContexts io)\<rparr>) = waiters io"
    using assms by (simp add: waiters_def contextResize_def)
qed

text \<open>Registering an event where none is registered: the waiter is stored, or the kernel refuses.\<close>

lemma addEvent_result:
  assumes "io_ok io" "0 \<le> fd" "fd \<noteq> tickle_fd io" "event = EV_READ \<or> event = EV_WRITE" "fc_events (ctx_of fd io) = 0"
    "cb \<noteq> None \<or> running"
  shows "\<exists>r io'. addEvent fd event cb fiber running io = Inr (r, io') \<and> io_ok io' \<and> tasks io' = tasks io \<and>
    (r = 0 \<and> waiters io' = waiters io + {#(io_scheduler io, case cb of Some f \<Rightarrow> TaskCb f | None \<Rightarrow> TaskFiber fiber)#} \<and>
       fc_events (ctx_of fd io') = event \<or>
     r = -1 \<and> waiters io' = waiters io \<and> refused io fd) \<and>
    io_timers io' = io_timers io \<and> refused io' = refused io \<and> tickle_fd io' = tickle_fd io"
proof -
  let ?n = "nat (fd * 3 div 2)"
  let ?io = "if int (length (m_fdContexts io)) > fd then io else io\<lparr>m_fdContexts := contextResize ?n (m_fdContexts io)\<rparr>"
  have l32: "32 \<le> length (m_fdContexts io)" by (rule io_okD(1) [OF assms(1)])
  have grow: "length (m_fdContexts io) \<le> ?n" "fd < int ?n" if "\<not> int (length (m_fdContexts io)) > fd"
    using that l32 by linarith+
  have len: "fd < int (length (m_fdContexts ?io))" "32 \<le> length (m_fdContexts ?io)"
    using grow l32 by (auto simp: contextResize_def)
  have c: "ctx_of j ?io = ctx_of j io" "waiters ?io = waiters io" for j using contextResize_ctx grow(1) by (auto split: if_splits)
  have f: "interest ?io = interest io" "tickle_fd ?io = tickle_fd io" "tasks ?io = tasks io" "refused ?io = refused io"
    "m_pendingEventCount ?io = m_pendingEventCount io" "io_scheduler ?io = io_scheduler io" by simp_all
  have ok: "io_ok ?io" using assms(1) len(2) unfolding io_ok_def c f by blast
  have va: "vec_at (m_fdContexts ?io) fd = Inr (ctx_of fd io)" using vec_at_ctx [OF assms(2) len(1)] c by simp
  let ?ev = "EPOLLET OR event"
  have ep: "epoll_ctl EPOLL_ADD fd ?ev ?io = (if refused io fd then (False, ?io) else (True, ?io\<lparr>interest := (interest io)(fd := Some ?ev)\<rparr>))"
    using io_okD(4) [OF assms(1-3)] assms(5) by (simp add: epoll_ctl_def)
  have k: "ctx_ok (ctx_of fd io)" "fc_fd (ctx_of fd io) = fd" by (rule io_okD(2,3) [OF assms(1)])+
  have empty: "fc_read (ctx_of fd io) = resetEventContext" "fc_write (ctx_of fd io) = resetEventContext"
    using k(1) assms(5) event_bits by (auto simp: ctx_ok_def)
  let ?e = "\<lparr>ec_scheduler = Some (io_scheduler io), ec_fiber = (if cb = None then Some fiber else None), ec_cb = cb\<rparr>"
  let ?c' = "putEventContext event ?e ((ctx_of fd io)\<lparr>fc_events := event\<rparr>)"
  let ?io2 = "?io\<lparr>interest := (interest io)(fd := Some ?ev), m_pendingEventCount := m_pendingEventCount io + 1\<rparr>"
  let ?w = "(io_scheduler io, case cb of Some f \<Rightarrow> TaskCb f | None \<Rightarrow> TaskFiber fiber)"
  have w: "waiter ?e = [?w]" by (cases cb) (simp_all add: waiter_def)
  show ?thesis
  proof (cases "refused io fd")
    case True
    have "addEvent fd event cb fiber running io = Inr (-1, ?io)"
      unfolding addEvent_def Let_def va bindR.simps using assms(5) ep True by simp
    then show ?thesis using ok c f True by (intro exI [of _ "-1"] exI [of _ ?io]) simp
  next
    case False
    have "getEventContext event ((ctx_of fd io)\<lparr>fc_events := event\<rparr>) = Inr resetEventContext"
      using assms(4) empty by (auto simp: getEventContext_def)
    then have run: "addEvent fd event cb fiber running io = Inr (0, put_ctx fd ?c' ?io2)"
      unfolding addEvent_def Let_def va bindR.simps using assms(5,6) ep False by (auto simp: resetEventContext_def)
    have len2: "fd < int (length (m_fdContexts ?io2))" using len(1) by simp
    have c2: "ctx_of j ?io2 = ctx_of j io" "waiters ?io2 = waiters io" for j
      using c ctx_of_cong [of ?io2 ?io] waiters_cong [of ?io2 ?io] by simp_all
    have cw: "ctx_waiters ?c' = {#?w#}" "ctx_waiters (ctx_of fd io) = {#}" "ctx_ok ?c'" "fc_fd ?c' = fd" "fc_events ?c' = event"
      using w assms(4) empty k event_bits by (auto simp: ctx_waiters_def putEventContext_def ctx_ok_def)
    have wt: "waiters (put_ctx fd ?c' ?io2) = waiters io + {#?w#}"
      using waiters_put [OF assms(2) len2, of ?c'] unfolding c2 cw by simp
    have ct: "ctx_of j (put_ctx fd ?c' ?io2) = (if j = fd then ?c' else ctx_of j io)" for j
      using ctx_of_put [OF assms(2) len2, of j ?c'] unfolding c2 .
    have tk: "tickle_fd (put_ctx fd ?c' ?io2) = tickle_fd io" using f(2) by simp
    have "io_ok (put_ctx fd ?c' ?io2)"
      unfolding io_ok_def
    proof (intro conjI allI impI)
      fix j
      show "ctx_ok (ctx_of j (put_ctx fd ?c' ?io2))" "fc_fd (ctx_of j (put_ctx fd ?c' ?io2)) = j"
        unfolding ct using cw io_okD(2,3) [OF assms(1)] by auto
      show "interest (put_ctx fd ?c' ?io2) j = (if fc_events (ctx_of j (put_ctx fd ?c' ?io2)) = 0 then None
          else Some (EPOLLET OR fc_events (ctx_of j (put_ctx fd ?c' ?io2))))" if "0 \<le> j \<and> j \<noteq> tickle_fd (put_ctx fd ?c' ?io2)"
        unfolding ct using that [unfolded tk] cw(5) assms(4) event_bits io_okD(4) [OF assms(1), of j] by auto
    next
      show "32 \<le> length (m_fdContexts (put_ctx fd ?c' ?io2))" using len(2) by simp
      show "m_pendingEventCount (put_ctx fd ?c' ?io2) = word_of_nat (size (waiters (put_ctx fd ?c' ?io2)))"
        unfolding wt using io_okD(5) [OF assms(1)] by simp
    qed
    moreover have "fc_events (ctx_of fd (put_ctx fd ?c' ?io2)) = event" unfolding ct using cw(5) by simp
    moreover have "tasks (put_ctx fd ?c' ?io2) = tasks io \<and> io_timers (put_ctx fd ?c' ?io2) = io_timers io \<and>
        refused (put_ctx fd ?c' ?io2) = refused io" by (simp add: put_ctx_def)
    ultimately show ?thesis using run wt tk by blast
  qed
qed

text \<open>An event the kernel reports wakes the one waiter.\<close>

lemma trigger_pending_frames:
  "trigger_pending fd event io = Inr io' \<Longrightarrow> io_timers io' = io_timers io \<and> refused io' = refused io \<and> tickle_fd io' = tickle_fd io"
  by (auto simp: trigger_pending_def res_simps put_ctx_def)

lemma idle_event_wakes:
  assumes "io_ok io" "0 \<le> fd" "fd \<noteq> tickle_fd io" "fc_events (ctx_of fd io) = event" "event \<noteq> 0" "\<not> refused io fd"
  shows "\<exists>io'. idle_event (fd, event) io = Inr io' \<and> io_ok io' \<and> fc_events (ctx_of fd io') = 0 \<and>
    io_timers io' = io_timers io \<and> refused io' = refused io \<and> tickle_fd io' = tickle_fd io"
proof -
  let ?io1 = "io\<lparr>interest := (interest io)(fd := None)\<rparr>"
  have ne: "fc_events (ctx_of fd io) \<noteq> 0" using assms(4,5) by simp
  note se = single_event [OF assms(1) ne]
  from deleted_then_triggered [OF assms(1,3-5)] obtain io' where
    t: "trigger_pending fd event ?io1 = Inr io'" "keeps_waiters io io'" "fc_events (ctx_of fd io') = 0" by blast
  have va: "vec_at (m_fdContexts io) fd = Inr (ctx_of fd io)" by (rule vec_at_ctx [OF se(2,3)])
  have b: "event AND (EPOLLERR OR EPOLLHUP) = 0" "event = EV_READ \<or> event = EV_WRITE"
    using se(1) assms(4) by (auto simp: event_defs)
  have "idle_event (fd, event) io = trigger_pending fd event ?io1"
    unfolding idle_event_def prod.case va bindR.simps Let_def assms(4) io_okD(3) [OF assms(1)] epoll_ctl_del [OF assms(1-3) ne]
    using assms(3,6) b event_bits epoll_ctl_del [OF assms(1-3) ne]
    by (cases "trigger_pending fd event ?io1") (auto simp: epoll_ctl_del [OF assms(1-3) ne])
  with t trigger_pending_frames [OF t(1)] show ?thesis by (auto simp: keeps_waiters_def)
qed

lemma cancelEvent_wakes:
  assumes "io_ok io" "0 \<le> fd" "fd \<noteq> tickle_fd io" "fc_events (ctx_of fd io) = event" "event \<noteq> 0" "\<not> refused io fd"
  shows "\<exists>io'. cancelEvent fd event io = Inr (True, io') \<and> io_ok io' \<and> fc_events (ctx_of fd io') = 0 \<and>
    io_timers io' = io_timers io \<and> refused io' = refused io \<and> tickle_fd io' = tickle_fd io"
proof -
  let ?io1 = "io\<lparr>interest := (interest io)(fd := None)\<rparr>"
  have ne: "fc_events (ctx_of fd io) \<noteq> 0" using assms(4,5) by simp
  note se = single_event [OF assms(1) ne]
  from deleted_then_triggered [OF assms(1,3-5)] obtain io' where
    t: "trigger_pending fd event ?io1 = Inr io'" "keeps_waiters io io'" "fc_events (ctx_of fd io') = 0" by blast
  have "cancelEvent fd event io = Inr (True, io')"
    using t(1) vec_at_ctx [OF se(2,3)] se(3) assms(4-6) event_bits(8) epoll_ctl_del [OF assms(1-3) ne]
    by (simp add: cancelEvent_def Let_def)
  with t trigger_pending_frames [OF t(1)] show ?thesis by (auto simp: keeps_waiters_def)
qed

lemma delEvent_result:
  assumes "io_ok io" "0 \<le> fd" "fd \<noteq> tickle_fd io" "event = EV_READ \<or> event = EV_WRITE"
  shows "\<exists>ok io'. delEvent fd event io = Inr (ok, io') \<and> io_ok io' \<and> tasks io' = tasks io \<and>
    waiters io' + (if ok then ctx_waiters (ctx_of fd io) else {#}) = waiters io"
proof -
  have no: ?thesis if "delEvent fd event io = Inr (False, io)" using that assms(1) by auto
  show ?thesis
  proof (cases "int (length (m_fdContexts io)) \<le> fd \<or> fc_events (ctx_of fd io) AND event = 0 \<or> refused io fd")
    case True
    consider "int (length (m_fdContexts io)) \<le> fd" | "\<not> int (length (m_fdContexts io)) \<le> fd" "fc_events (ctx_of fd io) AND event = 0"
      | "\<not> int (length (m_fdContexts io)) \<le> fd" "fc_events (ctx_of fd io) AND event \<noteq> 0" "refused io fd" using True by blast
    then show ?thesis
    proof cases
      case 1
      then show ?thesis by (intro no) (simp add: delEvent_def)
    next
      case 2
      then show ?thesis using vec_at_ctx [OF assms(2), of io] by (intro no) (simp add: delEvent_def not_le)
    next
      case 3
      then show ?thesis using vec_at_ctx [OF assms(2), of io] by (intro no) (simp add: delEvent_def epoll_ctl_def Let_def not_le)
    qed
  next
    case False
    then have lt: "fd < int (length (m_fdContexts io))" and nr: "\<not> refused io fd" and ev: "fc_events (ctx_of fd io) AND event \<noteq> 0" by auto
    then have ne: "fc_events (ctx_of fd io) \<noteq> 0" by auto
    have e: "fc_events (ctx_of fd io) = event" using single_event(1) [OF assms(1) ne] ev assms(4) event_bits by auto
    note va = vec_at_ctx [OF assms(2) lt]
    let ?c' = "putEventContext event resetEventContext ((ctx_of fd io)\<lparr>fc_events := 0\<rparr>)"
    let ?io2 = "io\<lparr>interest := (interest io)(fd := None), m_pendingEventCount := m_pendingEventCount io - 1\<rparr>"
    have run: "delEvent fd event io = Inr (True, put_ctx fd ?c' ?io2)"
      using False lt va ev e epoll_ctl_del [OF assms(1-3) ne] nr event_bits(8) assms(4)
      by (auto simp: delEvent_def Let_def getEventContext_def)
    have k: "ctx_ok (ctx_of fd io)" "fc_fd (ctx_of fd io) = fd" by (rule io_okD(2,3) [OF assms(1)])+
    have c': "ctx_ok ?c'" "fc_fd ?c' = fd" "fc_events ?c' = 0" "ctx_waiters ?c' = {#}"
      using k e assms(4) event_bits by (auto simp: ctx_ok_def putEventContext_def ctx_waiters_def)
    have lt2: "fd < int (length (m_fdContexts ?io2))" using lt by simp
    have c2: "ctx_of j ?io2 = ctx_of j io" "waiters ?io2 = waiters io" for j
      by (simp_all add: ctx_of_cong [of ?io2 io] waiters_cong [of ?io2 io])
    have ct: "ctx_of j (put_ctx fd ?c' ?io2) = (if j = fd then ?c' else ctx_of j io)" for j
      using ctx_of_put [OF assms(2) lt2, of j ?c'] unfolding c2 .
    have wt: "waiters (put_ctx fd ?c' ?io2) + ctx_waiters (ctx_of fd io) = waiters io"
      using waiters_put [OF assms(2) lt2, of ?c'] unfolding c2 c'(4) by simp
    obtain w where "ctx_waiters (ctx_of fd io) = {#w#}" using trigger_single [OF k(1) e assms(4)] by blast
    then have sz: "size (waiters io) = Suc (size (waiters (put_ctx fd ?c' ?io2)))"
      unfolding wt [symmetric] by simp
    obtain W where W: "size (waiters (put_ctx fd ?c' ?io2)) = W" by blast
    have "m_pendingEventCount (put_ctx fd ?c' ?io2) = m_pendingEventCount io - 1" by simp
    also have "\<dots> = word_of_nat W" unfolding io_okD(5) [OF assms(1)] sz [unfolded W] by simp
    finally have "m_pendingEventCount (put_ctx fd ?c' ?io2) = word_of_nat (size (waiters (put_ctx fd ?c' ?io2)))" unfolding W .
    moreover have "interest (put_ctx fd ?c' ?io2) j = (if fc_events (ctx_of j (put_ctx fd ?c' ?io2)) = 0 then None
        else Some (EPOLLET OR fc_events (ctx_of j (put_ctx fd ?c' ?io2))))" if "0 \<le> j" "j \<noteq> tickle_fd io" for j
      unfolding ct using that c'(3) io_okD(4) [OF assms(1), of j] by auto
    moreover have "ctx_ok (ctx_of j (put_ctx fd ?c' ?io2)) \<and> fc_fd (ctx_of j (put_ctx fd ?c' ?io2)) = j" for j
      unfolding ct using c' io_okD(2,3) [OF assms(1)] by auto
    ultimately have "io_ok (put_ctx fd ?c' ?io2)" using io_okD(1) [OF assms(1)] unfolding io_ok_def by simp
    then show ?thesis using run wt by auto
  qed
qed

subsection \<open>Runs\<close>

definition IOManager_ctor :: "bool \<Rightarrow> int \<Rightarrow> nat \<Rightarrow> 64 word \<Rightarrow> 'cb IOManager res" where
  "IOManager_ctor calls_ok pipe_fd sched now =
     bindR (guardR AssertFailed calls_ok) (\<lambda>_.
       Inr \<lparr>m_fdContexts = contextResize 32 [], m_pendingEventCount = 0, tickle_fd = pipe_fd,
         interest = Map.empty(pipe_fd \<mapsto> EV_READ OR EPOLLET), refused = (\<lambda>_. False), tasks = [],
         io_timers = TimerManager_ctor now, io_scheduler = sched\<rparr>)"

lemma io_ok_ctor: "IOManager_ctor ok pfd sched now = Inr io \<Longrightarrow> io_ok io \<and> tasks io = [] \<and> waiters io = {#}"
proof -
  assume "IOManager_ctor ok pfd sched now = Inr io"
  then have io: "m_fdContexts io = contextResize 32 []" "m_pendingEventCount io = 0" "interest io = Map.empty(pfd \<mapsto> EV_READ OR EPOLLET)"
    "tickle_fd io = pfd" "tasks io = []" by (auto simp: IOManager_ctor_def guardR_def split: if_splits)
  have "map (\<lambda>i. newFdContext (int i)) [0..<32] ! k = newFdContext (int k)" if "k < 32" for k
    using that by (subst nth_map) simp_all
  then have c: "ctx_of fd io = newFdContext fd" for fd by (auto simp: ctx_of_def io contextResize_def nat_less_iff simp del: upt_conv_Cons)
  have "sum_list (map (ctx_waiters \<circ> (\<lambda>i. newFdContext (int i))) l) = {#}" for l by (induction l) simp_all
  then have w: "waiters io = {#}" by (simp add: waiters_def io contextResize_def)
  have "io_ok io" unfolding io_ok_def c w
    by (simp add: ctx_ok_new io contextResize_def) (simp add: newFdContext_def EV_NONE_def)
  with w io(5) show ?thesis by simp
qed

text \<open>
  Runs in which a descriptor is waited on by one party at a time: an event is added only where none is
  registered. \<open>A\<close> collects the waiters that were registered and not deleted again. The kernel may
  start or stop refusing descriptors at any time.
\<close>

inductive io_runs :: "'cb IOManager \<Rightarrow> (nat \<times> 'cb task) multiset \<Rightarrow> 'cb IOManager \<Rightarrow> bool" for io0 where
  start: "io_runs io0 {#} io0"
| kernel: "io_runs io0 A io \<Longrightarrow> io_runs io0 A (io\<lparr>refused := bad\<rparr>)"
| add: "io_runs io0 A io \<Longrightarrow> 0 \<le> fd \<Longrightarrow> fd \<noteq> tickle_fd io \<Longrightarrow> event = EV_READ \<or> event = EV_WRITE \<Longrightarrow>
    fc_events (ctx_of fd io) = 0 \<Longrightarrow> cb \<noteq> None \<or> running \<Longrightarrow> addEvent fd event cb fiber running io = Inr (r, io') \<Longrightarrow>
    io_runs io0 (if r = 0 then A + {#(io_scheduler io, case cb of Some f \<Rightarrow> TaskCb f | None \<Rightarrow> TaskFiber fiber)#} else A) io'"
| del: "io_runs io0 A io \<Longrightarrow> 0 \<le> fd \<Longrightarrow> fd \<noteq> tickle_fd io \<Longrightarrow> event = EV_READ \<or> event = EV_WRITE \<Longrightarrow>
    delEvent fd event io = Inr (ok, io') \<Longrightarrow> io_runs io0 (if ok then A - ctx_waiters (ctx_of fd io) else A) io'"
| cancel: "io_runs io0 A io \<Longrightarrow> 0 \<le> fd \<Longrightarrow> fd \<noteq> tickle_fd io \<Longrightarrow> event = EV_READ \<or> event = EV_WRITE \<Longrightarrow>
    cancelEvent fd event io = Inr (ok, io') \<Longrightarrow> io_runs io0 A io'"
| cancel_all: "io_runs io0 A io \<Longrightarrow> 0 \<le> fd \<Longrightarrow> fd \<noteq> tickle_fd io \<Longrightarrow> cancelAll fd io = Inr (ok, io') \<Longrightarrow> io_runs io0 A io'"
| ready: "io_runs io0 A io \<Longrightarrow> kernel_event ev io \<Longrightarrow> idle_event ev io = Inr io' \<Longrightarrow> io_runs io0 A io'"

inductive_cases io_runs_startE: "io_runs io0 {#} io"

lemma io_runs_ok:
  "io_runs io0 A io \<Longrightarrow> io_ok io0 \<Longrightarrow> tasks io0 = [] \<Longrightarrow> waiters io0 = {#} \<Longrightarrow>
     io_ok io \<and> mset (tasks io) + waiters io = A"
proof (induction rule: io_runs.induct)
  case start
  then show ?case by simp
next
  case (kernel A io bad)
  then have "io_ok io" "mset (tasks io) + waiters io = A" by simp_all
  then show ?case using io_ok_cong [of io "io\<lparr>refused := bad\<rparr>"] waiters_cong [of "io\<lparr>refused := bad\<rparr>" io] by simp
next
  case (add A io fd event cb running fiber r io')
  from add.IH add.prems have ih: "io_ok io" "mset (tasks io) + waiters io = A" by simp_all
  from addEvent_result [OF ih(1) add.hyps(2-6), of fiber] add.hyps(7)
  have "io_ok io'" "tasks io' = tasks io" "r = 0 \<and> waiters io' = waiters io + {#(io_scheduler io, case cb of Some f \<Rightarrow> TaskCb f | None \<Rightarrow> TaskFiber fiber)#} \<or>
     r = -1 \<and> waiters io' = waiters io" by auto
  with ih(2) show ?case by auto
next
  case (del A io fd event ok io')
  from del.IH del.prems have ih: "io_ok io" "mset (tasks io) + waiters io = A" by simp_all
  from delEvent_result [OF ih(1) del.hyps(2-4)] del.hyps(5) have "io_ok io'" "tasks io' = tasks io"
    "waiters io' + (if ok then ctx_waiters (ctx_of fd io) else {#}) = waiters io" by auto
  then have "A = (mset (tasks io') + waiters io') + (if ok then ctx_waiters (ctx_of fd io) else {#})"
    unfolding ih(2) [symmetric] by (simp add: ac_simps)
  with \<open>io_ok io'\<close> show ?case by (cases ok) simp_all
next
  case (cancel A io fd event ok io')
  from cancel.IH cancel.prems have ih: "io_ok io" "mset (tasks io) + waiters io = A" by simp_all
  from cancelEvent_result [OF ih(1) cancel.hyps(2-4)] cancel.hyps(5) ih(2) show ?case by (auto simp: keeps_waiters_def)
next
  case (cancel_all A io fd ok io')
  from cancel_all.IH cancel_all.prems have ih: "io_ok io" "mset (tasks io) + waiters io = A" by simp_all
  from cancelAll_result [OF ih(1) cancel_all.hyps(2,3)] cancel_all.hyps(4) ih(2) show ?case by (auto simp: keeps_waiters_def)
next
  case (ready A io ev io')
  from ready.IH ready.prems have ih: "io_ok io" "mset (tasks io) + waiters io = A" by simp_all
  from idle_event_result [OF ih(1) ready.hyps(2)] ready.hyps(3) ih(2) show ?case by (auto simp: keeps_waiters_def)
qed

text \<open>C31. As long as at most one kind of event is registered per descriptor, no waiter is lost and none is
  woken twice: in every run of an IO manager from its construction on, every fiber or callback that
  registered (and was not deleted again) is either still waiting or in the task queue, exactly once;
  the counter of pending events is the number of those still waiting, and what epoll watches is what
  the contexts say.\<close>

theorem io_runs_conserve_waiters:
  assumes "IOManager_ctor True pfd sched now = Inr io0" "io_runs io0 A io"
  shows "mset (tasks io) + waiters io = A \<and> m_pendingEventCount io = word_of_nat (size (waiters io)) \<and>
    (\<forall>fd. 0 \<le> fd \<and> fd \<noteq> tickle_fd io \<longrightarrow>
       interest io fd = (if fc_events (ctx_of fd io) = 0 then None else Some (EPOLLET OR fc_events (ctx_of fd io))))"
proof -
  have "io_ok io" "mset (tasks io) + waiters io = A"
    using io_runs_ok [OF assms(2)] io_ok_ctor [OF assms(1)] by auto
  then show ?thesis using io_okD(4,5) by blast
qed

lemma waiter_scheduler: "waiter e = [w] \<Longrightarrow> ec_scheduler e \<noteq> None"
  by (auto simp: waiter_def split: option.splits)

lemma triggerEvent_read:
  assumes "waiter (fc_read c) = [r]" "fc_events c AND EV_READ \<noteq> 0"
  shows "triggerEvent EV_READ c = Inr ([r], c\<lparr>fc_events := 0, fc_read := resetEventContext\<rparr>)"
  using assms event_bits
  by (auto simp: triggerEvent_def getEventContext_def putEventContext_def waiter_def Let_def split: option.splits)

text \<open>C32. With a reader and a writer waiting on one descriptor, triggering one of them clears the events of
  both (the mask becomes \<open>event & ~event\<close>): closing the descriptor wakes the reader only, the writer
  stays in its context for ever with the count of pending events one too high, so that the manager
  never stops, and the next wait for writing on the descriptor aborts the process. When epoll reports
  both events at once, waking them aborts the process too.\<close>

theorem two_events_lose_a_waiter:
  assumes "0 \<le> fd" "fd < int (length (m_fdContexts io))" "fd \<noteq> tickle_fd io" "\<not> refused io fd" "interest io fd \<noteq> None"
    "fc_events (ctx_of fd io) = EV_READ OR EV_WRITE" "fc_fd (ctx_of fd io) = fd"
    "waiter (fc_read (ctx_of fd io)) = [r]" "waiter (fc_write (ctx_of fd io)) = [w]"
  shows "(\<exists>io'. cancelAll fd io = Inr (True, io') \<and> tasks io' = tasks io @ [r] \<and>
      m_pendingEventCount io' = m_pendingEventCount io - 1 \<and> interest io' fd = None \<and>
      waiter (fc_write (ctx_of fd io')) = [w] \<and> addEvent fd EV_WRITE None fiber True io' = Inl AssertFailed) \<and>
    idle_event (fd, EV_READ OR EV_WRITE) io = Inl AssertFailed"
proof -
  let ?c = "ctx_of fd io" and ?io1 = "io\<lparr>interest := (interest io)(fd := None)\<rparr>"
  let ?c' = "?c\<lparr>fc_events := 0, fc_read := resetEventContext\<rparr>"
  let ?io' = "(put_ctx fd ?c' ?io1)\<lparr>tasks := tasks io @ [r], m_pendingEventCount := m_pendingEventCount io - 1\<rparr>"
  have bits: "fc_events ?c AND EV_READ \<noteq> 0" "fc_events ?c AND EV_WRITE \<noteq> 0" "fc_events ?c \<noteq> 0"
    "fc_events ?c AND NOT (EV_READ OR EV_WRITE) = 0" "fc_events ?c AND (EV_READ OR EV_WRITE) \<noteq> 0"
    unfolding assms(6) by (simp_all add: event_defs)
  have va: "vec_at (m_fdContexts io) fd = Inr ?c" by (rule vec_at_ctx [OF assms(1,2)])
  have va1: "vec_at (m_fdContexts ?io1) fd = Inr ?c" using va by simp
  have ct: "ctx_of fd ?io' = ?c'" using ctx_of_put [OF assms(1), of ?io1 fd ?c'] assms(2) ctx_of_cong [of ?io' "put_ctx fd ?c' ?io1"] by simp
  have va': "vec_at (m_fdContexts ?io') fd = Inr ?c'" using vec_at_ctx [OF assms(1), of ?io'] assms(2) unfolding ct by simp
  have del: "epoll_ctl EPOLL_DEL fd ev io = (True, ?io1)" for ev using assms(4,5) by (simp add: epoll_ctl_def)
  have tr: "trigger_pending fd EV_READ ?io1 = Inr ?io'"
    unfolding trigger_pending_def va1 bindR.simps triggerEvent_read [OF assms(8) bits(1)] by simp
  have tif: "trigger_if fd EV_READ ?io1 = Inr ?io'" "trigger_if fd EV_WRITE ?io' = Inr ?io'"
    unfolding trigger_if_def va1 va' bindR.simps using tr bits(1) by simp_all
  have "cancelAll fd io = Inr (True, ?io')"
    unfolding cancelAll_def va bindR.simps using assms(2) bits(3) by (simp only: del prod.case tif va' bindR.simps) simp
  moreover have "addEvent fd EV_WRITE None fiber True ?io' = Inl AssertFailed"
  proof -
    have l: "int (length (m_fdContexts ?io')) > fd" using assms(2) by simp
    have ep: "epoll_ctl EPOLL_ADD fd ev ?io' = (True, ?io'\<lparr>interest := (interest ?io')(fd := Some ev)\<rparr>)" for ev
      using assms(4) by (simp add: epoll_ctl_def)
    have "ec_scheduler (fc_write ?c') \<noteq> None" using waiter_scheduler [OF assms(9)] by simp
    then show ?thesis unfolding addEvent_def Let_def if_P [OF l] va' bindR.simps
      using event_bits by (auto simp: ep getEventContext_def)
  qed
  moreover have "idle_event (fd, EV_READ OR EV_WRITE) io = Inl AssertFailed"
  proof -
    have w: "trigger_pending fd EV_WRITE ?io' = Inl AssertFailed"
      unfolding trigger_pending_def va' bindR.simps by (simp add: triggerEvent_def)
    have b: "(EV_READ OR EV_WRITE) AND EV_READ \<noteq> 0" "(EV_READ OR EV_WRITE) AND EV_WRITE \<noteq> 0" "(EV_READ OR EV_WRITE) AND (EPOLLERR OR EPOLLHUP) = 0"
      by (simp_all add: event_defs)
    show ?thesis
      unfolding idle_event_def prod.case if_not_P [OF assms(3)] va bindR.simps Let_def assms(7)
      using b bits by (simp add: del tr w event_bits(9))
  qed
  ultimately show ?thesis using assms(9) ct by (intro conjI exI [of _ ?io']) simp_all
qed

subsection \<open>Sample runs\<close>

definition io0 :: "unit IOManager" where
  "io0 = (case IOManager_ctor True 4 0 1000 of Inr io \<Rightarrow> io | Inl _ \<Rightarrow> undefined)"

definition io_step :: "'cb IOManager \<Rightarrow> ('a \<times> 'cb IOManager) res \<Rightarrow> 'cb IOManager" where
  "io_step io r = (case r of Inr (_, io') \<Rightarrow> io' | Inl _ \<Rightarrow> io)"

definition io1 :: "unit IOManager" where
  "io1 = io_step io0 (addEvent 5 EV_READ None 7 True io0)"

definition io2 :: "unit IOManager" where
  "io2 = io_step io1 (addEvent 5 EV_WRITE None 8 True io1)"

theorem io_runs_conserve_waiters_witness:
  "\<exists>io. idle_event (5, EV_READ) io1 = Inr io \<and> tasks io = [(0, TaskFiber 7)] \<and> waiters io = {#} \<and> m_pendingEventCount io = 0"
proof -
  have c: "IOManager_ctor True 4 0 1000 = Inr io0" by (simp add: io0_def IOManager_ctor_def)
  have "case addEvent 5 EV_READ None 7 True io0 of Inr (r, _) \<Rightarrow> r = 0 | Inl _ \<Rightarrow> False" by code_simp
  then have add: "addEvent 5 EV_READ None 7 True io0 = Inr (0, io1)"
    by (auto simp: io1_def io_step_def split: sum.splits)
  have a: "fc_events (ctx_of 5 io0) = 0" "tickle_fd io0 = 4"
    "io_scheduler io0 = 0" "tickle_fd io1 = 4" "fc_events (ctx_of 5 io1) = EV_READ" "length (m_fdContexts io1) = 32" by code_simp+
  have "io_runs io0 (if (0 :: int) = 0 then {#} + {#(io_scheduler io0, case (None :: unit option) of Some f \<Rightarrow> TaskCb f | None \<Rightarrow> TaskFiber 7)#} else {#}) io1"
    by (rule io_runs.add [OF io_runs.start _ _ _ _ _ add]) (simp_all add: a)
  then have r1: "io_runs io0 {#(0, TaskFiber 7)#} io1" using a(3) by simp
  have k: "kernel_event (5, EV_READ) io1" using a(4,5,6) by (simp add: kernel_event_def event_defs)
  have "case idle_event (5, EV_READ) io1 of Inr io \<Rightarrow> tasks io = [(0, TaskFiber 7)] | Inl _ \<Rightarrow> False" by code_simp
  then obtain io where i: "idle_event (5, EV_READ) io1 = Inr io" "tasks io = [(0, TaskFiber 7)]" by (auto split: sum.splits)
  from io_runs_conserve_waiters [OF c io_runs.ready [OF r1 k i(1)]] i show ?thesis by auto
qed

theorem two_events_lose_a_waiter_witness:
  "(\<exists>io. cancelAll 5 io2 = Inr (True, io) \<and> tasks io = [(0, TaskFiber 7)] \<and> m_pendingEventCount io = 1 \<and>
      addEvent 5 EV_WRITE None 9 True io = Inl AssertFailed) \<and>
   idle_event (5, EV_READ OR EV_WRITE) io2 = Inl AssertFailed"
proof -
  have s: "length (m_fdContexts io2) = 32" "tickle_fd io2 = 4" "refused io2 5 = False" "interest io2 5 \<noteq> None"
    "fc_events (ctx_of 5 io2) = EV_READ OR EV_WRITE" "fc_fd (ctx_of 5 io2) = 5" "waiter (fc_read (ctx_of 5 io2)) = [(0, TaskFiber 7)]"
    "waiter (fc_write (ctx_of 5 io2)) = [(0, TaskFiber 8)]" "m_pendingEventCount io2 = 2" "tasks io2 = []"
    by code_simp+
  show ?thesis using two_events_lose_a_waiter [of 5 io2 "(0, TaskFiber 7)" "(0, TaskFiber 8)" 9] s by auto
qed

end
