(* ===== verification/FdManager.thy ===== *)
theory FdManager
  imports Prelude
begin

text \<open>
  src/fiber/fd_manager.cpp: what the runtime knows about a file descriptor (\<open>FdCtx\<close>) and the table of
  descriptors (\<open>FdManager\<close>), grown on demand. Of the kernel the table uses \<open>fstat\<close> (is the descriptor
  open, is it a socket) and the flag \<open>O_NONBLOCK\<close>, both in the record \<open>kernel\<close>. A context is used only
  while its table entry exists, so it is kept as a value in the table.
\<close>

record kernel =
  k_kind :: "int \<Rightarrow> bool option"
  k_nonblock :: "int \<Rightarrow> bool"

record FdCtx =
  m_isInit :: bool
  m_isSocket :: bool
  m_sysNonblock :: bool
  m_userNonBlock :: bool
  m_isClosed :: bool
  m_fd :: int
  m_recvTimeout :: "64 word"
  m_sendTimeout :: "64 word"

definition SO_RCVTIMEO :: int where "SO_RCVTIMEO = 20"
definition SO_SNDTIMEO :: int where "SO_SNDTIMEO = 21"

text \<open>\<open>fcntl_f(fd, F_SETFL, flags)\<close>, for the flag \<open>O_NONBLOCK\<close>.\<close>

definition set_nonblock :: "int \<Rightarrow> bool \<Rightarrow> kernel \<Rightarrow> kernel" where
  "set_nonblock fd b k = k\<lparr>k_nonblock := (k_nonblock k)(fd := b)\<rparr>"

subsection \<open>A descriptor\<close>

definition FdCtx_init :: "FdCtx \<Rightarrow> kernel \<Rightarrow> bool \<times> FdCtx \<times> kernel" where
  "FdCtx_init c k =
     (if m_isInit c then (True, c, k)
      else let c1 = c\<lparr>m_recvTimeout := -1, m_sendTimeout := -1\<rparr>;
               c2 = (case k_kind k (m_fd c1) of
                       None \<Rightarrow> c1\<lparr>m_isInit := False, m_isSocket := False\<rparr>
                     | Some sock \<Rightarrow> c1\<lparr>m_isInit := True, m_isSocket := sock\<rparr>);
               (c3, k1) = (if m_isSocket c2
                  then let k1 = (if \<not> k_nonblock k (m_fd c2) then set_nonblock (m_fd c2) True k else k)
                       in (c2\<lparr>m_sysNonblock := True\<rparr>, k1)
                  else (c2\<lparr>m_sysNonblock := False\<rparr>, k))
           in (m_isInit c3, c3\<lparr>m_userNonBlock := False, m_isClosed := False\<rparr>, k1))"

definition FdCtx_ctor :: "int \<Rightarrow> kernel \<Rightarrow> FdCtx \<times> kernel" where
  "FdCtx_ctor fd k =
     (case FdCtx_init \<lparr>m_isInit = False, m_isSocket = False, m_sysNonblock = False, m_userNonBlock = False,
         m_isClosed = False, m_fd = fd, m_recvTimeout = -1, m_sendTimeout = -1\<rparr> k of (_, c, k') \<Rightarrow> (c, k'))"

definition setTimeout :: "int \<Rightarrow> 64 word \<Rightarrow> FdCtx \<Rightarrow> FdCtx" where
  "setTimeout type v c = (if type = SO_RCVTIMEO then c\<lparr>m_recvTimeout := v\<rparr> else c\<lparr>m_sendTimeout := v\<rparr>)"

definition getTimeout :: "int \<Rightarrow> FdCtx \<Rightarrow> 64 word" where
  "getTimeout type c = (if type = SO_RCVTIMEO then m_recvTimeout c else m_sendTimeout c)"

subsection \<open>The table\<close>

type_synonym fd_table = "FdCtx option list"

definition FdManager_ctor :: fd_table where
  "FdManager_ctor = replicate 64 None"

text \<open>\<open>vector::resize\<close>: cut or filled up with null pointers; \<open>fd * 1.5\<close> is rounded down.\<close>

definition resize :: "nat \<Rightarrow> fd_table \<Rightarrow> fd_table" where
  "resize n ds = take n ds @ replicate (n - length ds) None"

definition fd_create :: "int \<Rightarrow> fd_table \<times> kernel \<Rightarrow> (FdCtx option \<times> fd_table \<times> kernel) res" where
  "fd_create fd = (\<lambda>(ds, k).
     case FdCtx_ctor fd k of (ctx, k') \<Rightarrow>
       let ds' = (if fd \<ge> int (length ds) then resize (nat (fd * 3 div 2)) ds else ds)
       in bindR (vec_put ds' fd (Some ctx)) (\<lambda>ds2. Inr (Some ctx, ds2, k')))"

definition fd_get :: "int \<Rightarrow> bool \<Rightarrow> fd_table \<times> kernel \<Rightarrow> (FdCtx option \<times> fd_table \<times> kernel) res" where
  "fd_get fd auto_create = (\<lambda>(ds, k).
     if fd = -1 then Inr (None, ds, k)
     else if int (length ds) \<le> fd then
       if \<not> auto_create then Inr (None, ds, k) else fd_create fd (ds, k)
     else bindR (vec_at ds fd) (\<lambda>c.
       if c \<noteq> None \<or> \<not> auto_create then Inr (c, ds, k) else fd_create fd (ds, k)))"

definition fd_del :: "int \<Rightarrow> fd_table \<Rightarrow> fd_table res" where
  "fd_del fd ds = (if int (length ds) \<le> fd then Inr ds else vec_put ds fd None)"

subsection \<open>Lookups\<close>

text \<open>The entry of a descriptor, absent outside the table.\<close>

definition entry :: "fd_table \<Rightarrow> int \<Rightarrow> FdCtx option" where
  "entry ds fd = (if 0 \<le> fd \<and> fd < int (length ds) then ds ! nat fd else None)"

definition table_ok :: "fd_table \<Rightarrow> bool" where
  "table_ok ds \<longleftrightarrow> 64 \<le> length ds \<and> (\<forall>fd c. entry ds fd = Some c \<longrightarrow> m_fd c = fd)"

lemma table_ok_ctor: "table_ok FdManager_ctor"
  by (auto simp: table_ok_def FdManager_ctor_def entry_def)

lemma entry_resize: "length ds \<le> n \<Longrightarrow> entry (resize n ds) fd = entry ds fd"
  by (auto simp: entry_def resize_def nth_append)

lemma entry_put: "0 \<le> fd \<Longrightarrow> fd < int (length ds) \<Longrightarrow> entry (ds[nat fd := x]) j = (if j = fd then x else entry ds j)"
  by (auto simp: entry_def nth_list_update)

lemma FdCtx_ctor_result:
  "FdCtx_ctor fd k = (\<lparr>m_isInit = k_kind k fd \<noteq> None, m_isSocket = (k_kind k fd = Some True), m_sysNonblock = (k_kind k fd = Some True),
      m_userNonBlock = False, m_isClosed = False, m_fd = fd, m_recvTimeout = -1, m_sendTimeout = -1\<rparr>,
    if k_kind k fd = Some True then set_nonblock fd True k else k)"
  by (cases k) (auto simp: FdCtx_ctor_def FdCtx_init_def set_nonblock_def Let_def fun_upd_idem split: option.split)

lemma fd_create_result:
  assumes "64 \<le> length ds" "0 \<le> fd"
  shows "\<exists>ds'. fd_create fd (ds, k) = Inr (Some (fst (FdCtx_ctor fd k)), ds', snd (FdCtx_ctor fd k)) \<and>
    length ds \<le> length ds' \<and> (\<forall>j. entry ds' j = (if j = fd then Some (fst (FdCtx_ctor fd k)) else entry ds j))"
proof -
  obtain c k' where c: "FdCtx_ctor fd k = (c, k')" by (meson surj_pair)
  let ?ds = "if fd \<ge> int (length ds) then resize (nat (fd * 3 div 2)) ds else ds"
  have len: "length (resize n ds) = n" if "length ds \<le> n" for n using that by (simp add: resize_def)
  have grow: "length ds \<le> nat (fd * 3 div 2)" "fd < fd * 3 div 2" if "int (length ds) \<le> fd" using that assms by linarith+
  have b: "fd < int (length ?ds)" "length ds \<le> length ?ds" using len grow by (auto split: if_splits)
  have e: "entry ?ds j = entry ds j" for j using grow by (simp add: entry_resize)
  have p: "fd_create fd (ds, k) = Inr (Some c, ?ds[nat fd := Some c], k')"
    using vec_put_inside [OF assms(2) b(1), of "Some c"] by (simp add: fd_create_def c Let_def)
  show ?thesis unfolding c fst_conv snd_conv p
    using b(2) entry_put [OF assms(2) b(1)] e by (intro exI [of _ "?ds[nat fd := Some c]"]) auto
qed

lemma fd_get_result:
  assumes "table_ok ds" "-1 \<le> fd"
  shows "fd_get fd False (ds, k) = Inr (entry ds fd, ds, k)"
    "\<exists>ds'. fd_get fd True (ds, k) =
       (if fd = -1 \<or> entry ds fd \<noteq> None then Inr (entry ds fd, ds, k)
        else Inr (Some (fst (FdCtx_ctor fd k)), ds', snd (FdCtx_ctor fd k))) \<and> length ds \<le> length ds' \<and>
     (\<forall>j. entry ds' j = (if j = fd \<and> fd \<noteq> -1 then Some (fst (FdCtx_ctor fd k)) else entry ds j))"
proof -
  have look: "vec_at ds fd = Inr (entry ds fd)" if "0 \<le> fd" "\<not> int (length ds) \<le> fd"
    using that by (simp add: vec_at_def entry_def)
  have out: "entry ds fd = None" if "fd = -1 \<or> int (length ds) \<le> fd" using that by (auto simp: entry_def)
  show "fd_get fd False (ds, k) = Inr (entry ds fd, ds, k)"
    using look out assms(2) by (cases "fd = -1") (auto simp: fd_get_def)
  show "\<exists>ds'. fd_get fd True (ds, k) =
       (if fd = -1 \<or> entry ds fd \<noteq> None then Inr (entry ds fd, ds, k)
        else Inr (Some (fst (FdCtx_ctor fd k)), ds', snd (FdCtx_ctor fd k))) \<and> length ds \<le> length ds' \<and>
     (\<forall>j. entry ds' j = (if j = fd \<and> fd \<noteq> -1 then Some (fst (FdCtx_ctor fd k)) else entry ds j))"
  proof (cases "fd = -1")
    case True
    then show ?thesis using out by (intro exI [of _ ds]) (simp add: fd_get_def)
  next
    case False
    then have fd: "0 \<le> fd" using assms(2) by simp
    from fd_create_result [OF _ fd, of ds k] assms(1) obtain ds' where
      "fd_create fd (ds, k) = Inr (Some (fst (FdCtx_ctor fd k)), ds', snd (FdCtx_ctor fd k))" "length ds \<le> length ds'"
      "\<forall>j. entry ds' j = (if j = fd then Some (fst (FdCtx_ctor fd k)) else entry ds j)"
      by (auto simp: table_ok_def)
    then show ?thesis using look [OF fd] out False by (intro exI [of _ ds']) (auto simp: fd_get_def)
  qed
qed

lemma fd_del_result:
  assumes "table_ok ds" "0 \<le> fd"
  shows "\<exists>ds'. fd_del fd ds = Inr ds' \<and> table_ok ds' \<and> (\<forall>j. entry ds' j = (if j = fd then None else entry ds j))"
proof (cases "int (length ds) \<le> fd")
  case True
  then have "entry ds fd = None" by (simp add: entry_def)
  then show ?thesis using True assms by (auto simp: fd_del_def)
next
  case False
  then have b: "fd < int (length ds)" by simp
  show ?thesis using vec_put_inside [OF assms(2) b, of None] entry_put [OF assms(2) b, of None] False assms(1)
    by (intro exI [of _ "ds[nat fd := None]"]) (auto simp: fd_del_def table_ok_def)
qed

end
