(* ===== verification/Hook.thy ===== *)
theory Hook
  imports IOManager FdManager
begin

unbundle bit_operations_syntax

text \<open>
  src/fiber/hook.cpp: the system calls the runtime replaces. In a thread with hooks a call on a socket
  that would block registers the fiber with the I/O manager, arms a timer when the socket has a
  timeout, and yields; it is called again when the fiber is resumed. The results of the original calls
  are arguments: \<open>answers\<close> is what the kernel answers to the successive calls, a value and an
  \<open>errno\<close>; \<open>envs\<close> is what the rest of the program does between a yield and the resumption. A call
  whose answers or resumptions are used up has not returned, which is the result \<open>None\<close>. The thread's
  scheduler is an I/O manager.
\<close>

type_synonym answer = "int \<times> int"

definition EINTR :: int where "EINTR = 4"
definition EBADF :: int where "EBADF = 9"
definition EAGAIN :: int where "EAGAIN = 11"
definition ETIMEDOUT :: int where "ETIMEDOUT = 110"
definition EINPROGRESS :: int where "EINPROGRESS = 115"

lemmas errno_defs = EINTR_def EBADF_def EAGAIN_def ETIMEDOUT_def EINPROGRESS_def

text \<open>The callbacks of timers: the condition timer of a call (its \<open>timer_info\<close>, descriptor and event), and
  putting a sleeping fiber back into the queue of its scheduler.\<close>

datatype hook_cb = TimeoutCb nat int "32 word" | ScheduleCb nat

record hooked =
  t_hook_enable :: bool
  h_io :: "hook_cb IOManager"
  h_fds :: fd_table
  h_kernel :: kernel
  timer_infos :: "nat \<Rightarrow> int option"
  next_info :: nat
  h_errno :: int
  h_now :: "64 word"

type_synonym call_result = "(int option \<times> hooked) res"

subsection \<open>Timers of a call\<close>

definition arm :: "64 word \<Rightarrow> hook_cb \<Rightarrow> hooked \<Rightarrow> tptr \<times> hooked" where
  "arm ms cb h =
     (case addTimer ms (Some cb) False (h_now h) (io_timers (h_io h)) of
        (a, tm) \<Rightarrow> (a, h\<lparr>h_io := (h_io h)\<lparr>io_timers := tm\<rparr>\<rparr>))"

definition arm_timeout :: "int \<Rightarrow> 32 word \<Rightarrow> 64 word \<Rightarrow> nat \<Rightarrow> hooked \<Rightarrow> tptr option \<times> hooked" where
  "arm_timeout fd event timeout ti h =
     (if timeout \<noteq> -1 then case arm timeout (TimeoutCb ti fd event) h of (a, h') \<Rightarrow> (Some a, h') else (None, h))"

definition disarm :: "tptr option \<Rightarrow> hooked \<Rightarrow> hooked res" where
  "disarm timer h =
     (case timer of None \<Rightarrow> Inr h
      | Some a \<Rightarrow> bindR (timer_cancel a (io_timers (h_io h)))
          (\<lambda>(_, tm). Inr (h\<lparr>h_io := (h_io h)\<lparr>io_timers := tm\<rparr>\<rparr>)))"

text \<open>What a callback does when the scheduler runs it. The condition of a timeout is that its call has
  not returned (\<open>OnTimer\<close> locks the weak pointer).\<close>

definition run_hook_cb :: "hook_cb \<Rightarrow> hooked \<Rightarrow> hooked res" where
  "run_hook_cb cb h =
     (case cb of
        TimeoutCb ti fd event \<Rightarrow>
          (case timer_infos h ti of
             None \<Rightarrow> Inr h
           | Some c \<Rightarrow>
               if c \<noteq> 0 then Inr h
               else bindR (cancelEvent fd event (h_io h))
                 (\<lambda>(_, io). Inr (h\<lparr>timer_infos := (timer_infos h)(ti \<mapsto> ETIMEDOUT), h_io := io\<rparr>)))
      | ScheduleCb fib \<Rightarrow> Inr (h\<lparr>h_io := (h_io h)\<lparr>tasks := tasks (h_io h) @ [(io_scheduler (h_io h), TaskFiber fib)]\<rparr>\<rparr>))"

subsection \<open>Input and output\<close>

text \<open>The original call.\<close>

definition direct :: "answer list \<Rightarrow> hooked \<Rightarrow> call_result" where
  "direct answers h =
     (case answers of [] \<Rightarrow> Inr (None, h)
      | (n, e) # _ \<Rightarrow> Inr (Some n, if n = -1 then h\<lparr>h_errno := e\<rparr> else h))"

fun do_io_retry ::
  "int \<Rightarrow> 32 word \<Rightarrow> 64 word \<Rightarrow> nat \<Rightarrow> nat \<Rightarrow> answer list \<Rightarrow> (hooked \<Rightarrow> hooked) list \<Rightarrow> hooked \<Rightarrow> call_result"
where
  "do_io_retry fd event timeout ti fib [] envs h = Inr (None, h)"
| "do_io_retry fd event timeout ti fib ((n, e) # answers) envs h =
     (let h0 = (if n = -1 then h\<lparr>h_errno := e\<rparr> else h) in
      if n = -1 \<and> e = EINTR then do_io_retry fd event timeout ti fib answers envs h0
      else if n = -1 \<and> e = EAGAIN then
        (case arm_timeout fd event timeout ti h0 of (timer, h1) \<Rightarrow>
         bindR (addEvent fd event None fib True (h_io h1)) (\<lambda>(rt, io).
           let h2 = h1\<lparr>h_io := io\<rparr> in
           if rt \<noteq> 0 then bindR (disarm timer h2) (\<lambda>h3. Inr (Some (-1), h3))
           else (case envs of
               [] \<Rightarrow> Inr (None, h2)
             | env # envs' \<Rightarrow>
                 bindR (disarm timer (env h2)) (\<lambda>h4.
                   case timer_infos h4 ti of
                     None \<Rightarrow> Inl NullDeref
                   | Some c \<Rightarrow>
                       if c \<noteq> 0 then Inr (Some (-1), h4\<lparr>h_errno := c\<rparr>)
                       else do_io_retry fd event timeout ti fib answers envs' h4))))
      else Inr (Some n, h0))"

definition new_info :: "hooked \<Rightarrow> nat \<times> hooked" where
  "new_info h = (next_info h, h\<lparr>timer_infos := (timer_infos h)(next_info h \<mapsto> 0), next_info := next_info h + 1\<rparr>)"

text \<open>When a call returns its \<open>timer_info\<close> is freed.\<close>

definition drop_info :: "nat \<Rightarrow> int option \<times> hooked \<Rightarrow> call_result" where
  "drop_info ti = (\<lambda>(r, h). Inr (r, if r = None then h else h\<lparr>timer_infos := (timer_infos h)(ti := None)\<rparr>))"

definition do_io ::
  "int \<Rightarrow> 32 word \<Rightarrow> int \<Rightarrow> nat \<Rightarrow> answer list \<Rightarrow> (hooked \<Rightarrow> hooked) list \<Rightarrow> hooked \<Rightarrow> call_result"
where
  "do_io fd event timeout_so fib answers envs h =
     (if \<not> t_hook_enable h then direct answers h
      else bindR (fd_get fd False (h_fds h, h_kernel h)) (\<lambda>(ctx, _).
        case ctx of
          None \<Rightarrow> direct answers h
        | Some c \<Rightarrow>
            if m_isClosed c then Inr (Some (-1), h\<lparr>h_errno := EBADF\<rparr>)
            else if \<not> m_isSocket c \<or> m_userNonBlock c then direct answers h
            else (case new_info h of (ti, h1) \<Rightarrow>
              bindR (do_io_retry fd event (getTimeout timeout_so c) ti fib answers envs h1) (drop_info ti))))"

definition hook_read where "hook_read fd = do_io fd EV_READ SO_RCVTIMEO"
definition hook_readv where "hook_readv fd = do_io fd EV_READ SO_RCVTIMEO"
definition hook_recv where "hook_recv sockfd = do_io sockfd EV_READ SO_RCVTIMEO"
definition hook_recvfrom where "hook_recvfrom sockfd = do_io sockfd EV_READ SO_RCVTIMEO"
definition hook_recvmsg where "hook_recvmsg sockfd = do_io sockfd EV_READ SO_RCVTIMEO"
definition hook_write where "hook_write fd = do_io fd EV_WRITE SO_SNDTIMEO"
definition hook_writev where "hook_writev fd = do_io fd EV_WRITE SO_SNDTIMEO"
definition hook_send where "hook_send s = do_io s EV_WRITE SO_SNDTIMEO"
definition hook_sendto where "hook_sendto s = do_io s EV_WRITE SO_SNDTIMEO"
definition hook_sendmsg where "hook_sendmsg s = do_io s EV_WRITE SO_SNDTIMEO"

subsection \<open>Opening and connecting\<close>

text \<open>The kernel's side of \<open>socket\<close> and \<open>accept\<close>: a new socket, blocking unless it is asked for.\<close>

definition sys_open :: "int \<Rightarrow> bool \<Rightarrow> kernel \<Rightarrow> kernel" where
  "sys_open fd nonblock k = k\<lparr>k_kind := (k_kind k)(fd := Some True), k_nonblock := (k_nonblock k)(fd := nonblock)\<rparr>"

definition register :: "int \<Rightarrow> hooked \<Rightarrow> hooked res" where
  "register fd h =
     bindR (fd_get fd True (h_fds h, h_kernel h)) (\<lambda>(_, ds, k). Inr (h\<lparr>h_fds := ds, h_kernel := k\<rparr>))"

definition hook_socket :: "int \<Rightarrow> bool \<Rightarrow> hooked \<Rightarrow> (int \<times> hooked) res" where
  "hook_socket fd nonblock h =
     (let h1 = (if fd = -1 then h else h\<lparr>h_kernel := sys_open fd nonblock (h_kernel h)\<rparr>) in
      if \<not> t_hook_enable h then Inr (fd, h1)
      else if fd = -1 then Inr (fd, h1)
      else bindR (register fd h1) (\<lambda>h2. Inr (fd, h2)))"

definition hook_accept :: "int \<Rightarrow> nat \<Rightarrow> answer list \<Rightarrow> (hooked \<Rightarrow> hooked) list \<Rightarrow> hooked \<Rightarrow> call_result" where
  "hook_accept s fib answers envs h =
     bindR (do_io s EV_READ SO_RCVTIMEO fib answers envs h) (\<lambda>(r, h1).
       case r of None \<Rightarrow> Inr (None, h1)
       | Some fd \<Rightarrow>
           if fd \<ge> 0 then bindR (register fd (h1\<lparr>h_kernel := sys_open fd False (h_kernel h1)\<rparr>)) (\<lambda>h2. Inr (Some fd, h2))
           else Inr (Some fd, h1))"

text \<open>\<open>so_error\<close>: the error of the socket that \<open>getsockopt\<close> returns at the end of the wait, if it does.\<close>

definition connect_result :: "int option \<Rightarrow> hooked \<Rightarrow> call_result" where
  "connect_result so_error h =
     (case so_error of None \<Rightarrow> Inr (Some (-1), h)
      | Some error \<Rightarrow> if error = 0 then Inr (Some 0, h) else Inr (Some (-1), h\<lparr>h_errno := error\<rparr>))"

definition connect_wait ::
  "int \<Rightarrow> 64 word \<Rightarrow> nat \<Rightarrow> nat \<Rightarrow> (hooked \<Rightarrow> hooked) list \<Rightarrow> int option \<Rightarrow> hooked \<Rightarrow> call_result"
where
  "connect_wait fd timeout_ms ti fib envs so_error h =
     (case arm_timeout fd EV_WRITE timeout_ms ti h of (timer, h1) \<Rightarrow>
      bindR (addEvent fd EV_WRITE None fib True (h_io h1)) (\<lambda>(rt, io).
        let h2 = h1\<lparr>h_io := io\<rparr> in
        if rt = 0 then
          (case envs of [] \<Rightarrow> Inr (None, h2)
           | env # _ \<Rightarrow> bindR (disarm timer (env h2)) (\<lambda>h4.
               case timer_infos h4 ti of None \<Rightarrow> Inl NullDeref
               | Some c \<Rightarrow> if c \<noteq> 0 then Inr (Some (-1), h4\<lparr>h_errno := c\<rparr>) else connect_result so_error h4))
        else bindR (disarm timer h2) (connect_result so_error)))"

definition connect_with_timeout ::
  "int \<Rightarrow> 64 word \<Rightarrow> nat \<Rightarrow> answer list \<Rightarrow> (hooked \<Rightarrow> hooked) list \<Rightarrow> int option \<Rightarrow> hooked \<Rightarrow> call_result"
where
  "connect_with_timeout fd timeout_ms fib answers envs so_error h =
     (if \<not> t_hook_enable h then direct answers h
      else bindR (fd_get fd False (h_fds h, h_kernel h)) (\<lambda>(ctx, _).
        case ctx of
          None \<Rightarrow> Inr (Some (-1), h\<lparr>h_errno := EBADF\<rparr>)
        | Some c \<Rightarrow>
            if m_isClosed c then Inr (Some (-1), h\<lparr>h_errno := EBADF\<rparr>)
            else if \<not> m_isSocket c then direct answers h
            else if m_userNonBlock c then direct answers h
            else bindR (direct answers h) (\<lambda>(r, h0).
              case r of None \<Rightarrow> Inr (None, h0)
              | Some n \<Rightarrow>
                  if n = 0 then Inr (Some 0, h0)
                  else if n \<noteq> -1 \<or> h_errno h0 \<noteq> EINPROGRESS then Inr (Some n, h0)
                  else (case new_info h0 of (ti, h1) \<Rightarrow>
                    bindR (connect_wait fd timeout_ms ti fib envs so_error h1) (drop_info ti)))))"

definition s_connect_timeout :: "64 word" where "s_connect_timeout = 5000"

definition hook_connect where
  "hook_connect sockfd = connect_with_timeout sockfd s_connect_timeout"

subsection \<open>Closing and options\<close>

definition sys_close :: "int \<Rightarrow> hooked \<Rightarrow> int \<times> hooked" where
  "sys_close fd h =
     (if k_kind (h_kernel h) fd = None then (-1, h\<lparr>h_errno := EBADF\<rparr>)
      else (0, h\<lparr>h_kernel := (h_kernel h)\<lparr>k_kind := (k_kind (h_kernel h))(fd := None)\<rparr>\<rparr>))"

definition hook_close :: "int \<Rightarrow> hooked \<Rightarrow> (int \<times> hooked) res" where
  "hook_close fd h =
     (if \<not> t_hook_enable h then Inr (sys_close fd h)
      else bindR (fd_get fd False (h_fds h, h_kernel h)) (\<lambda>(ctx, _).
        case ctx of
          None \<Rightarrow> Inr (sys_close fd h)
        | Some _ \<Rightarrow> bindR (cancelAll fd (h_io h)) (\<lambda>(_, io).
            bindR (fd_del fd (h_fds h)) (\<lambda>ds. Inr (sys_close fd (h\<lparr>h_io := io, h_fds := ds\<rparr>))))))"

definition F_GETFL :: int where "F_GETFL = 3"
definition F_SETFL :: int where "F_SETFL = 4"
definition O_NONBLOCK :: "32 word" where "O_NONBLOCK = 0x800"

definition put_entry :: "int \<Rightarrow> FdCtx \<Rightarrow> hooked \<Rightarrow> hooked res" where
  "put_entry fd c h = bindR (vec_put (h_fds h) fd (Some c)) (\<lambda>ds. Inr (h\<lparr>h_fds := ds\<rparr>))"

text \<open>\<open>fcntl_f(fd, F_SETFL, arg)\<close> and \<open>ioctl_f(fd, FIONBIO, &arg)\<close>.\<close>

definition sys_set_nonblock :: "int \<Rightarrow> bool \<Rightarrow> hooked \<Rightarrow> 32 word \<times> hooked" where
  "sys_set_nonblock fd b h =
     (if k_kind (h_kernel h) fd = None then (-1, h\<lparr>h_errno := EBADF\<rparr>)
      else (0, h\<lparr>h_kernel := set_nonblock fd b (h_kernel h)\<rparr>))"

text \<open>The commands other than \<open>F_SETFL\<close> and \<open>F_GETFL\<close> are passed on; their answer is the argument
  \<open>fcntl_f\<close>. \<open>F_GETFL\<close> calls the hooked \<open>fcntl\<close>.\<close>

partial_function (option) hook_fcntl ::
  "(int \<Rightarrow> int \<Rightarrow> 32 word \<Rightarrow> 32 word) \<Rightarrow> int \<Rightarrow> int \<Rightarrow> 32 word \<Rightarrow> hooked \<Rightarrow> (32 word \<times> hooked) res option"
where
  "hook_fcntl fcntl_f fd cmd arg h =
     (if cmd = F_SETFL then
        Some (bindR (fd_get fd False (h_fds h, h_kernel h)) (\<lambda>(ctx, _).
          case ctx of
            None \<Rightarrow> Inr (sys_set_nonblock fd (arg AND O_NONBLOCK \<noteq> 0) h)
          | Some c \<Rightarrow>
              if m_isClosed c \<or> \<not> m_isSocket c then Inr (sys_set_nonblock fd (arg AND O_NONBLOCK \<noteq> 0) h)
              else bindR (put_entry fd (c\<lparr>m_userNonBlock := (arg AND O_NONBLOCK \<noteq> 0)\<rparr>) h) (\<lambda>h1.
                let arg1 = (if m_sysNonblock c then arg OR O_NONBLOCK else arg AND NOT O_NONBLOCK)
                in Inr (sys_set_nonblock fd (arg1 AND O_NONBLOCK \<noteq> 0) h1))))
      else if cmd = F_GETFL then
        Option.bind (hook_fcntl fcntl_f fd cmd 0 h) (\<lambda>res. Some (bindR res (\<lambda>(arg, h1).
          bindR (fd_get fd False (h_fds h1, h_kernel h1)) (\<lambda>(ctx, _).
            case ctx of
              None \<Rightarrow> Inr (arg, h1)
            | Some c \<Rightarrow>
                if m_isClosed c \<or> \<not> m_isSocket c then Inr (arg, h1)
                else if m_userNonBlock c then Inr (arg OR O_NONBLOCK, h1)
                else Inr (arg AND NOT O_NONBLOCK, h1)))))
      else Some (Inr (fcntl_f fd cmd arg, h)))"

definition FIONBIO :: int where "FIONBIO = 0x5421"

definition hook_ioctl :: "(int \<Rightarrow> int \<Rightarrow> int \<Rightarrow> 32 word) \<Rightarrow> int \<Rightarrow> int \<Rightarrow> int \<Rightarrow> hooked \<Rightarrow> (32 word \<times> hooked) res" where
  "hook_ioctl ioctl_f d request arg h =
     (if request = FIONBIO then
        bindR (fd_get d False (h_fds h, h_kernel h)) (\<lambda>(ctx, _).
          case ctx of
            None \<Rightarrow> Inr (sys_set_nonblock d (arg \<noteq> 0) h)
          | Some c \<Rightarrow>
              if m_isClosed c \<or> \<not> m_isSocket c then Inr (sys_set_nonblock d (arg \<noteq> 0) h)
              else bindR (put_entry d (c\<lparr>m_userNonBlock := (arg \<noteq> 0)\<rparr>) h) (\<lambda>h1.
                Inr (sys_set_nonblock d (arg \<noteq> 0) h1)))
      else Inr (ioctl_f d request arg, h))"

definition SOL_SOCKET :: int where "SOL_SOCKET = 1"

text \<open>The division of C.\<close>

definition c_div :: "int \<Rightarrow> int \<Rightarrow> int" where
  "c_div a b = (if a \<ge> 0 then a div b else - ((- a) div b))"

text \<open>The option's value is a \<open>timeval\<close>, seconds and microseconds; the result of the original call is \<open>r\<close>.\<close>

definition hook_setsockopt :: "int \<Rightarrow> int \<Rightarrow> int \<Rightarrow> int \<times> int \<Rightarrow> int \<Rightarrow> hooked \<Rightarrow> (int \<times> hooked) res" where
  "hook_setsockopt sockfd level optname v r h =
     (if \<not> t_hook_enable h then Inr (r, h)
      else if level = SOL_SOCKET \<and> (optname = SO_RCVTIMEO \<or> optname = SO_SNDTIMEO) then
        bindR (fd_get sockfd False (h_fds h, h_kernel h)) (\<lambda>(ctx, _).
          case ctx of
            None \<Rightarrow> Inr (r, h)
          | Some c \<Rightarrow> bindR (put_entry sockfd (setTimeout optname (word_of_int (fst v * 1000 + c_div (snd v) 1000)) c) h)
              (\<lambda>h1. Inr (r, h1)))
      else Inr (r, h))"

definition hook_getsockopt :: "int \<Rightarrow> hooked \<Rightarrow> int \<times> hooked" where
  "hook_getsockopt r h = (r, h)"

subsection \<open>Sleeping\<close>

definition sleep_for :: "64 word \<Rightarrow> nat \<Rightarrow> (hooked \<Rightarrow> hooked) list \<Rightarrow> hooked \<Rightarrow> int option \<times> hooked" where
  "sleep_for ms fib envs h =
     (case arm ms (ScheduleCb fib) h of (_, h1) \<Rightarrow>
        case envs of [] \<Rightarrow> (None, h1) | env # _ \<Rightarrow> (Some 0, env h1))"

text \<open>\<open>seconds * 1000\<close> is computed in 32 bits; the milliseconds of \<open>nanosleep\<close> go through an \<open>int\<close>.
  Without hooks the original call is made, whose result is \<open>r\<close>.\<close>

definition hook_sleep :: "32 word \<Rightarrow> int \<Rightarrow> nat \<Rightarrow> (hooked \<Rightarrow> hooked) list \<Rightarrow> hooked \<Rightarrow> int option \<times> hooked" where
  "hook_sleep seconds r fib envs h =
     (if \<not> t_hook_enable h then (Some r, h) else sleep_for (ucast (seconds * 1000)) fib envs h)"

definition hook_usleep :: "32 word \<Rightarrow> nat \<Rightarrow> (hooked \<Rightarrow> hooked) list \<Rightarrow> hooked \<Rightarrow> int option \<times> hooked" where
  "hook_usleep usec fib envs h =
     (if \<not> t_hook_enable h then (Some 0, h) else sleep_for (ucast (usec div 1000)) fib envs h)"

definition nanosleep_ms :: "int \<Rightarrow> int \<Rightarrow> 64 word" where
  "nanosleep_ms tv_sec tv_nsec =
     word_of_int (sint (word_of_int (tv_sec * 1000 + c_div (c_div tv_nsec 1000) 1000) :: 32 word))"

definition hook_nanosleep :: "int \<Rightarrow> int \<Rightarrow> int \<Rightarrow> nat \<Rightarrow> (hooked \<Rightarrow> hooked) list \<Rightarrow> hooked \<Rightarrow> int option \<times> hooked" where
  "hook_nanosleep tv_sec tv_nsec r fib envs h =
     (if \<not> t_hook_enable h then (Some r, h) else sleep_for (nanosleep_ms tv_sec tv_nsec) fib envs h)"

subsection \<open>A call that waits\<close>

definition hooked_ok :: "hooked \<Rightarrow> bool" where
  "hooked_ok h \<longleftrightarrow> io_ok (h_io h) \<and> tm_ok (io_timers (h_io h))"

text \<open>The state of a call that can register: its descriptor has no event, the kernel accepts the
  descriptor, and the call's \<open>timer_info\<close> is not cancelled.\<close>

definition can_wait :: "int \<Rightarrow> nat \<Rightarrow> hooked \<Rightarrow> bool" where
  "can_wait fd ti h \<longleftrightarrow> hooked_ok h \<and> 0 \<le> fd \<and> fd \<noteq> tickle_fd (h_io h) \<and> \<not> refused (h_io h) fd \<and>
     fc_events (ctx_of fd (h_io h)) = 0 \<and> timer_infos h ti = Some 0"

text \<open>A resumption by the awaited event: whatever else happened, the event was triggered and the timeout
  did not fire.\<close>

definition resumes :: "int \<Rightarrow> 32 word \<Rightarrow> nat \<Rightarrow> (hooked \<Rightarrow> hooked) \<Rightarrow> bool" where
  "resumes fd event ti env \<longleftrightarrow>
     (\<forall>h. hooked_ok h \<and> 0 \<le> fd \<and> fd \<noteq> tickle_fd (h_io h) \<and> \<not> refused (h_io h) fd \<and> fc_events (ctx_of fd (h_io h)) = event \<and>
          timer_infos h ti = Some 0 \<longrightarrow>
        can_wait fd ti (env h) \<and>
        (\<forall>a. timer_heap (io_timers (h_io h)) a \<noteq> None \<longrightarrow> timer_heap (io_timers (h_io (env h))) a \<noteq> None))"

lemma hooked_ok_timers:
  assumes "io_ok (h_io h)" "tm_ok tm"
  shows "hooked_ok (h\<lparr>h_io := (h_io h)\<lparr>io_timers := tm\<rparr>\<rparr>)"
  using io_ok_cong [OF assms(1), of "(h_io h)\<lparr>io_timers := tm\<rparr>"] assms(2) by (simp add: hooked_ok_def)

lemma can_wait_timers:
  assumes "can_wait fd ti h" "tm_ok tm"
  shows "can_wait fd ti (h\<lparr>h_io := (h_io h)\<lparr>io_timers := tm\<rparr>\<rparr>)"
  using assms hooked_ok_timers [of h tm] ctx_of_cong [of "(h_io h)\<lparr>io_timers := tm\<rparr>" "h_io h" fd]
  by (simp add: can_wait_def hooked_ok_def)

lemma arm_timeout_ok:
  assumes "can_wait fd ti h"
  shows "\<exists>timer h'. arm_timeout fd event timeout ti h = (timer, h') \<and> can_wait fd ti h' \<and>
    (\<forall>a. timer = Some a \<longrightarrow> timer_heap (io_timers (h_io h')) a \<noteq> None)"
proof (cases "timeout = -1")
  case True
  then show ?thesis using assms by (simp add: arm_timeout_def)
next
  case False
  let ?cb = "TimeoutCb ti fd event"
  obtain a tm where t: "addTimer timeout (Some ?cb) False (h_now h) (io_timers (h_io h)) = (a, tm)" by (meson surj_pair)
  have "tm_ok (io_timers (h_io h))" using assms by (simp add: can_wait_def hooked_ok_def)
  from tm_ok_addTimer [OF this, of "Some ?cb" timeout False "h_now h"] have tm: "tm_ok tm" by (simp add: t)
  have "timer_heap tm a \<noteq> None" using t by (auto simp: addTimer_def Let_def)
  then show ?thesis using False can_wait_timers [OF assms tm] by (simp add: arm_timeout_def arm_def t)
qed

lemma disarm_ok:
  assumes "can_wait fd ti h" "\<forall>a. timer = Some a \<longrightarrow> timer_heap (io_timers (h_io h)) a \<noteq> None"
  shows "\<exists>h'. disarm timer h = Inr h' \<and> can_wait fd ti h'"
proof (cases timer)
  case None
  then show ?thesis using assms(1) by (simp add: disarm_def)
next
  case (Some a)
  with assms(2) obtain t where t: "timer_heap (io_timers (h_io h)) a = Some t" by auto
  have "tm_ok (io_timers (h_io h))" using assms(1) by (simp add: can_wait_def hooked_ok_def)
  from timer_cancel_ok [OF this t] obtain tm where
    "timer_cancel a (io_timers (h_io h)) = Inr (m_cb t \<noteq> None, tm)" "tm_ok tm" by blast
  then show ?thesis using Some can_wait_timers [OF assms(1)] by (simp add: disarm_def)
qed

text \<open>What a call that would block does before it yields: it is registered, and its timer is armed.\<close>

lemma suspend_ok:
  assumes "can_wait fd ti h" "event = EV_READ \<or> event = EV_WRITE"
  shows "\<exists>timer h1 io. arm_timeout fd event timeout ti h = (timer, h1) \<and> addEvent fd event None fib True (h_io h1) = Inr (0, io) \<and>
    hooked_ok (h1\<lparr>h_io := io\<rparr>) \<and> tickle_fd io = tickle_fd (h_io h1) \<and> 0 \<le> fd \<and> fd \<noteq> tickle_fd io \<and> \<not> refused io fd \<and>
    fc_events (ctx_of fd io) = event \<and> timer_infos h1 ti = Some 0 \<and>
    (\<forall>a. timer = Some a \<longrightarrow> timer_heap (io_timers io) a \<noteq> None)"
proof -
  from arm_timeout_ok [OF assms(1)] obtain timer h1 where a: "arm_timeout fd event timeout ti h = (timer, h1)"
    "can_wait fd ti h1" "\<forall>a. timer = Some a \<longrightarrow> timer_heap (io_timers (h_io h1)) a \<noteq> None" by blast
  then have w: "io_ok (h_io h1)" "tm_ok (io_timers (h_io h1))" "0 \<le> fd" "fd \<noteq> tickle_fd (h_io h1)" "\<not> refused (h_io h1) fd"
    "fc_events (ctx_of fd (h_io h1)) = 0" "timer_infos h1 ti = Some 0" by (simp_all add: can_wait_def hooked_ok_def)
  from addEvent_result [OF w(1,3,4) assms(2) w(6) disjI2 [OF TrueI], of None fib] obtain r io where
    "addEvent fd event None fib True (h_io h1) = Inr (r, io)" "io_ok io"
    "r = 0 \<and> fc_events (ctx_of fd io) = event \<or> r = -1 \<and> refused (h_io h1) fd"
    "io_timers io = io_timers (h_io h1)" "refused io = refused (h_io h1)" "tickle_fd io = tickle_fd (h_io h1)" by blast
  with a w show ?thesis by (intro exI [of _ timer] exI [of _ h1] exI [of _ io]) (auto simp: hooked_ok_def)
qed

text \<open>One wait: the call is made again after the resumption.\<close>

lemma wait_then_retry:
  assumes "can_wait fd ti h" "event = EV_READ \<or> event = EV_WRITE" "resumes fd event ti env"
  shows "\<exists>h'. can_wait fd ti h' \<and>
    do_io_retry fd event timeout ti fib ((-1, EAGAIN) # answers) (env # envs) h =
    do_io_retry fd event timeout ti fib answers envs h'"
proof -
  have "can_wait fd ti (h\<lparr>h_errno := EAGAIN\<rparr>)" using assms(1) by (simp add: can_wait_def hooked_ok_def)
  from suspend_ok [OF this assms(2), of timeout fib] obtain timer h1 io where
    s: "arm_timeout fd event timeout ti (h\<lparr>h_errno := EAGAIN\<rparr>) = (timer, h1)" "addEvent fd event None fib True (h_io h1) = Inr (0, io)"
    "hooked_ok (h1\<lparr>h_io := io\<rparr>)" "0 \<le> fd" "fd \<noteq> tickle_fd io" "\<not> refused io fd" "fc_events (ctx_of fd io) = event"
    "timer_infos h1 ti = Some 0" "\<forall>a. timer = Some a \<longrightarrow> timer_heap (io_timers io) a \<noteq> None" by blast
  let ?h2 = "h1\<lparr>h_io := io\<rparr>"
  have e: "can_wait fd ti (env ?h2)" "\<forall>a. timer = Some a \<longrightarrow> timer_heap (io_timers (h_io (env ?h2))) a \<noteq> None"
    using assms(3) [unfolded resumes_def, rule_format, of ?h2] s(3-9) by auto
  from disarm_ok [OF e] obtain h4 where h4: "disarm timer (env ?h2) = Inr h4" "can_wait fd ti h4" by blast
  then have "timer_infos h4 ti = Some 0" by (simp add: can_wait_def)
  with s(1,2) h4 show ?thesis by (intro exI [of _ h4]) (simp add: errno_defs)
qed

definition tries_again :: "answer \<Rightarrow> bool" where
  "tries_again a \<longleftrightarrow> fst a = -1 \<and> (snd a = EINTR \<or> snd a = EAGAIN)"

definition waits :: "answer list \<Rightarrow> nat" where
  "waits as = length (filter (\<lambda>a. snd a = EAGAIN) as)"

lemma retry_until_result:
  assumes "can_wait fd ti h" "event = EV_READ \<or> event = EV_WRITE" "\<forall>a \<in> set as. tries_again a" "\<not> tries_again (n, e)"
    "waits as \<le> length envs" "\<forall>env \<in> set envs. resumes fd event ti env"
  shows "\<exists>h'. do_io_retry fd event timeout ti fib (as @ (n, e) # rest) envs h = Inr (Some n, h') \<and> can_wait fd ti h' \<and>
    (n = -1 \<longrightarrow> h_errno h' = e)"
  using assms(1,3,5,6)
proof (induction as arbitrary: h envs)
  case Nil
  then show ?case using assms(4) by (auto simp: tries_again_def can_wait_def hooked_ok_def)
next
  case (Cons a as)
  show ?case
  proof (cases "snd a = EAGAIN")
    case True
    then have a: "a = (-1, EAGAIN)" using Cons.prems(2) by (cases a) (simp add: tries_again_def)
    then obtain env envs' where envs: "envs = env # envs'" using Cons.prems(3) by (cases envs) (simp_all add: waits_def)
    from wait_then_retry [OF Cons.prems(1) assms(2), of env timeout fib "as @ (n, e) # rest" envs'] Cons.prems(4) envs
    obtain h' where h': "can_wait fd ti h'" "do_io_retry fd event timeout ti fib ((-1, EAGAIN) # as @ (n, e) # rest) envs h =
        do_io_retry fd event timeout ti fib (as @ (n, e) # rest) envs' h'" by auto
    have "waits as \<le> length envs'" using Cons.prems(3) a envs by (simp add: waits_def)
    from Cons.IH [OF h'(1) _ this] Cons.prems(2,4) envs h'(2) a show ?thesis by auto
  next
    case False
    then have a: "a = (-1, EINTR)" using Cons.prems(2) by (cases a) (simp add: tries_again_def)
    have w: "can_wait fd ti (h\<lparr>h_errno := EINTR\<rparr>)" using Cons.prems(1) by (simp add: can_wait_def hooked_ok_def)
    have "waits as \<le> length envs" using Cons.prems(3) by (simp add: waits_def split: if_splits)
    from Cons.IH [OF w _ this Cons.prems(4)] Cons.prems(2) a show ?thesis by auto
  qed
qed

text \<open>A socket the program believes to be blocking, in a thread with hooks, on which nobody waits.\<close>

definition blocking_socket :: "int \<Rightarrow> FdCtx \<Rightarrow> hooked \<Rightarrow> bool" where
  "blocking_socket fd c h \<longleftrightarrow> t_hook_enable h \<and> table_ok (h_fds h) \<and> entry (h_fds h) fd = Some c \<and>
     m_isSocket c \<and> \<not> m_isClosed c \<and> \<not> m_userNonBlock c \<and> hooked_ok h \<and> 0 \<le> fd \<and> fd \<noteq> tickle_fd (h_io h) \<and>
     \<not> refused (h_io h) fd \<and> fc_events (ctx_of fd (h_io h)) = 0"

lemma do_io_enters:
  assumes "blocking_socket fd c h"
  shows "do_io fd event so fib answers envs h =
      bindR (do_io_retry fd event (getTimeout so c) (next_info h) fib answers envs (snd (new_info h))) (drop_info (next_info h))"
    "can_wait fd (next_info h) (snd (new_info h))"
proof -
  have "table_ok (h_fds h)" "-1 \<le> fd" using assms by (simp_all add: blocking_socket_def)
  from fd_get_result(1) [OF this, of "h_kernel h"] assms
  show "do_io fd event so fib answers envs h =
      bindR (do_io_retry fd event (getTimeout so c) (next_info h) fib answers envs (snd (new_info h))) (drop_info (next_info h))"
    by (simp add: blocking_socket_def do_io_def new_info_def)
  show "can_wait fd (next_info h) (snd (new_info h))"
    using assms by (simp add: blocking_socket_def can_wait_def new_info_def hooked_ok_def)
qed

text \<open>C37. A hooked call hides that the runtime made its socket non-blocking: however often the kernel
  answers that the call was interrupted or would block, the caller gets the first answer that is
  neither, as from a blocking call, provided each wait ends with the awaited event. Afterwards nothing
  is registered for the descriptor and the call's timeout is dead.\<close>

theorem do_io_hides_nonblocking:
  assumes "blocking_socket fd c h" "event = EV_READ \<or> event = EV_WRITE"
    "\<forall>a \<in> set as. tries_again a" "\<not> tries_again (n, e)"
    "waits as \<le> length envs" "\<forall>env \<in> set envs. resumes fd event (next_info h) env"
  shows "\<exists>h'. do_io fd event so fib (as @ (n, e) # rest) envs h = Inr (Some n, h') \<and> (n = -1 \<longrightarrow> h_errno h' = e) \<and>
    fc_events (ctx_of fd (h_io h')) = 0 \<and> timer_infos h' (next_info h) = None \<and> hooked_ok h'"
proof -
  note d = do_io_enters(1) [OF assms(1), of event so fib "as @ (n, e) # rest" envs] do_io_enters(2) [OF assms(1)]
  from retry_until_result [OF d(2) assms(2-6), of "getTimeout so c" fib rest] obtain h' where
    "do_io_retry fd event (getTimeout so c) (next_info h) fib (as @ (n, e) # rest) envs (snd (new_info h)) = Inr (Some n, h')"
    "can_wait fd (next_info h) h'" "n = -1 \<longrightarrow> h_errno h' = e" by blast
  then show ?thesis unfolding d(1) by (simp add: drop_info_def can_wait_def hooked_ok_def)
qed

text \<open>The timeout's callback wakes the fiber.\<close>

lemma timeout_wakes:
  assumes "hooked_ok h" "0 \<le> fd" "fd \<noteq> tickle_fd (h_io h)" "\<not> refused (h_io h) fd" "fc_events (ctx_of fd (h_io h)) = event"
    "event \<noteq> 0" "timer_infos h ti = Some 0"
  shows "\<exists>io. run_hook_cb (TimeoutCb ti fd event) h = Inr (h\<lparr>timer_infos := (timer_infos h)(ti \<mapsto> ETIMEDOUT), h_io := io\<rparr>) \<and>
    io_ok io \<and> fc_events (ctx_of fd io) = 0 \<and> io_timers io = io_timers (h_io h)"
proof -
  have "io_ok (h_io h)" using assms(1) by (simp add: hooked_ok_def)
  from cancelEvent_wakes [OF this assms(2,3,5,6,4)] obtain io where
    "cancelEvent fd event (h_io h) = Inr (True, io)" "io_ok io" "fc_events (ctx_of fd io) = 0" "io_timers io = io_timers (h_io h)" by blast
  then show ?thesis using assms(7) by (auto simp: run_hook_cb_def)
qed

text \<open>The resumption by the timer: the scheduler runs the callback, then the fiber it woke.\<close>

definition timeout_fires :: "nat \<Rightarrow> int \<Rightarrow> 32 word \<Rightarrow> hooked \<Rightarrow> hooked" where
  "timeout_fires ti fd event h = (case run_hook_cb (TimeoutCb ti fd event) h of Inr h' \<Rightarrow> h' | Inl _ \<Rightarrow> h)"

text \<open>A call on a socket with a timeout that would block returns -1 with \<open>ETIMEDOUT\<close> when its timer
  fires first, without another call of the kernel; the wait is deregistered, and the timer's callback,
  should it run again or late, does nothing.\<close>

theorem do_io_times_out:
  assumes "blocking_socket fd c h" "event = EV_READ \<or> event = EV_WRITE" "getTimeout so c \<noteq> -1"
  shows "\<exists>h'. do_io fd event so fib ((-1, EAGAIN) # answers) (timeout_fires (next_info h) fd event # envs) h = Inr (Some (-1), h') \<and>
    h_errno h' = ETIMEDOUT \<and>
    fc_events (ctx_of fd (h_io h')) = 0 \<and> hooked_ok h' \<and> run_hook_cb (TimeoutCb (next_info h) fd event) h' = Inr h'"
proof -
  let ?ti = "next_info h" and ?h = "(snd (new_info h))\<lparr>h_errno := EAGAIN\<rparr>"
  let ?env = "timeout_fires ?ti fd event"
  note d = do_io_enters(1) [OF assms(1), of event so fib "(-1, EAGAIN) # answers" "?env # envs"] do_io_enters(2) [OF assms(1)]
  have "can_wait fd ?ti ?h" using d(2) by (simp add: can_wait_def hooked_ok_def)
  from suspend_ok [OF this assms(2), of "getTimeout so c" fib] obtain timer h1 io where
    s: "arm_timeout fd event (getTimeout so c) ?ti ?h = (timer, h1)" "addEvent fd event None fib True (h_io h1) = Inr (0, io)"
    "hooked_ok (h1\<lparr>h_io := io\<rparr>)" "0 \<le> fd" "fd \<noteq> tickle_fd io" "\<not> refused io fd" "fc_events (ctx_of fd io) = event"
    "timer_infos h1 ?ti = Some 0" "\<forall>a. timer = Some a \<longrightarrow> timer_heap (io_timers io) a \<noteq> None" by blast
  let ?h2 = "h1\<lparr>h_io := io\<rparr>"
  have "event \<noteq> 0" using assms(2) event_bits by auto
  with timeout_wakes [of ?h2 fd event ?ti] s(3-8) obtain io' where
    w: "run_hook_cb (TimeoutCb ?ti fd event) ?h2 = Inr (?h2\<lparr>timer_infos := (timer_infos ?h2)(?ti \<mapsto> ETIMEDOUT), h_io := io'\<rparr>)"
    "io_ok io'" "fc_events (ctx_of fd io') = 0" "io_timers io' = io_timers io" by auto
  let ?h3 = "?h2\<lparr>timer_infos := (timer_infos ?h2)(?ti \<mapsto> ETIMEDOUT), h_io := io'\<rparr>"
  have env: "?env ?h2 = ?h3" using w(1) by (simp add: timeout_fires_def)
  obtain a t where a: "timer = Some a" "timer_heap (io_timers io) a = Some t"
    using s(1,9) assms(3) by (cases timer) (auto simp: arm_timeout_def split: prod.splits)
  have "tm_ok (io_timers io)" using s(3) by (simp add: hooked_ok_def)
  from timer_cancel_ok [OF this a(2)] obtain tm where
    c: "timer_cancel a (io_timers io) = Inr (m_cb t \<noteq> None, tm)" "tm_ok tm" by blast
  let ?h4 = "?h3\<lparr>h_io := io'\<lparr>io_timers := tm\<rparr>\<rparr>"
  have dis: "disarm timer (?env ?h2) = Inr ?h4" unfolding env using a(1) c(1) w(4) by (simp add: disarm_def)
  have "do_io_retry fd event (getTimeout so c) ?ti fib ((-1, EAGAIN) # answers) (?env # envs) (snd (new_info h)) =
      Inr (Some (-1), ?h4\<lparr>h_errno := ETIMEDOUT\<rparr>)"
    using s(1,2) dis by (simp add: errno_defs)
  then have "do_io fd event so fib ((-1, EAGAIN) # answers) (?env # envs) h =
      Inr (Some (-1), (?h4\<lparr>h_errno := ETIMEDOUT\<rparr>)\<lparr>timer_infos := (timer_infos ?h4)(?ti := None)\<rparr>)"
    unfolding d(1) by (simp add: drop_info_def)
  moreover have "hooked_ok ?h4" using hooked_ok_timers [of ?h3 tm] w(2) c(2) by simp
  moreover have "fc_events (ctx_of fd (io'\<lparr>io_timers := tm\<rparr>)) = 0" using w(3) ctx_of_cong [of "io'\<lparr>io_timers := tm\<rparr>" io' fd] by simp
  ultimately show ?thesis by (simp add: run_hook_cb_def hooked_ok_def)
qed

subsection \<open>The flag of the kernel\<close>

text \<open>Every context of the table is an open socket which the runtime made non-blocking, and the kernel
  agrees.\<close>

definition nonblock_ok :: "hooked \<Rightarrow> bool" where
  "nonblock_ok h \<longleftrightarrow> table_ok (h_fds h) \<and>
     (\<forall>fd c. entry (h_fds h) fd = Some c \<longrightarrow>
        m_isSocket c \<and> m_sysNonblock c \<and> \<not> m_isClosed c \<and> k_kind (h_kernel h) fd = Some True \<and> k_nonblock (h_kernel h) fd)"

lemma nonblock_okD:
  assumes "nonblock_ok h"
  shows "table_ok (h_fds h)"
    "entry (h_fds h) fd = Some c \<Longrightarrow> m_isSocket c \<and> m_sysNonblock c \<and> \<not> m_isClosed c \<and> k_kind (h_kernel h) fd = Some True \<and> k_nonblock (h_kernel h) fd"
  using assms unfolding nonblock_ok_def by blast+

text \<open>Registering a socket the kernel has just opened.\<close>

lemma register_ok:
  assumes "nonblock_ok h" "0 \<le> fd" "k_kind (h_kernel h) fd = None"
  shows "\<exists>ds k. register fd (h\<lparr>h_kernel := sys_open fd nb (h_kernel h)\<rparr>) = Inr (h\<lparr>h_fds := ds, h_kernel := k\<rparr>) \<and>
    nonblock_ok (h\<lparr>h_fds := ds, h_kernel := k\<rparr>) \<and> (\<exists>c. entry ds fd = Some c \<and> \<not> m_userNonBlock c \<and> m_recvTimeout c = -1 \<and> m_sendTimeout c = -1)"
proof -
  let ?k = "sys_open fd nb (h_kernel h)"
  have e: "entry (h_fds h) fd = None" using nonblock_okD(2) [OF assms(1), of fd] assms(3) by (cases "entry (h_fds h) fd") auto
  have fd: "-1 \<le> fd" "fd \<noteq> -1" using assms(2) by simp_all
  from fd_get_result(2) [OF nonblock_okD(1) [OF assms(1)] fd(1), of ?k] e fd(2) obtain ds where
    ds: "fd_get fd True (h_fds h, ?k) = Inr (Some (fst (FdCtx_ctor fd ?k)), ds, snd (FdCtx_ctor fd ?k))"
    "length (h_fds h) \<le> length ds" "\<forall>j. entry ds j = (if j = fd then Some (fst (FdCtx_ctor fd ?k)) else entry (h_fds h) j)" by auto
  have c: "FdCtx_ctor fd ?k = (\<lparr>m_isInit = True, m_isSocket = True, m_sysNonblock = True, m_userNonBlock = False,
      m_isClosed = False, m_fd = fd, m_recvTimeout = -1, m_sendTimeout = -1\<rparr>, set_nonblock fd True ?k)"
    by (simp add: FdCtx_ctor_result sys_open_def)
  have "nonblock_ok (h\<lparr>h_fds := ds, h_kernel := set_nonblock fd True ?k\<rparr>)"
    unfolding nonblock_ok_def table_ok_def
  proof (intro conjI allI impI)
    show "64 \<le> length (h_fds (h\<lparr>h_fds := ds, h_kernel := set_nonblock fd True ?k\<rparr>))"
      using ds(2) nonblock_okD(1) [OF assms(1)] by (simp add: table_ok_def)
    fix j x assume x: "entry (h_fds (h\<lparr>h_fds := ds, h_kernel := set_nonblock fd True ?k\<rparr>)) j = Some x"
    show "m_fd x = j" using x ds(3) c nonblock_okD(1) [OF assms(1)] by (auto simp: table_ok_def split: if_splits)
    show "m_isSocket x" "m_sysNonblock x" "\<not> m_isClosed x"
      "k_kind (h_kernel (h\<lparr>h_fds := ds, h_kernel := set_nonblock fd True ?k\<rparr>)) j = Some True"
      "k_nonblock (h_kernel (h\<lparr>h_fds := ds, h_kernel := set_nonblock fd True ?k\<rparr>)) j"
      using x ds(3) c nonblock_okD(2) [OF assms(1), of j x] by (auto simp: set_nonblock_def sys_open_def split: if_splits)
  qed
  then show ?thesis using ds(1,3) c by (intro exI [of _ ds] exI [of _ "set_nonblock fd True ?k"]) (simp add: register_def)
qed

text \<open>Changing the flags of a context.\<close>

lemma put_entry_ok:
  assumes "nonblock_ok h" "entry (h_fds h) fd = Some c" "m_fd c' = m_fd c" "m_isSocket c' = m_isSocket c"
    "m_sysNonblock c' = m_sysNonblock c" "m_isClosed c' = m_isClosed c"
  shows "\<exists>ds. put_entry fd c' h = Inr (h\<lparr>h_fds := ds\<rparr>) \<and> nonblock_ok (h\<lparr>h_fds := ds\<rparr>) \<and> (\<forall>j. entry ds j = (if j = fd then Some c' else entry (h_fds h) j))"
proof -
  have b: "0 \<le> fd" "fd < int (length (h_fds h))" using assms(2) by (auto simp: entry_def split: if_splits)
  have e: "entry ((h_fds h)[nat fd := Some c']) j = (if j = fd then Some c' else entry (h_fds h) j)" for j
    by (rule entry_put [OF b])
  have "table_ok ((h_fds h)[nat fd := Some c'])"
    using nonblock_okD(1) [OF assms(1)] assms(2,3) unfolding table_ok_def e by (auto split: if_splits)
  then have "nonblock_ok (h\<lparr>h_fds := (h_fds h)[nat fd := Some c']\<rparr>)"
    using nonblock_okD(2) [OF assms(1)] assms(2,4-6) unfolding nonblock_ok_def by (auto simp: e split: if_splits)
  then show ?thesis using e vec_put_inside [OF b, of "Some c'"] by (auto simp: put_entry_def)
qed

text \<open>The calls that set flags touch the table and the kernel only.\<close>

lemma flag_frames:
  "put_entry fd c h = Inr h' \<Longrightarrow> h_io h' = h_io h \<and> t_hook_enable h' = t_hook_enable h"
  "sys_set_nonblock fd b h = (w, h') \<Longrightarrow> h_io h' = h_io h \<and> t_hook_enable h' = t_hook_enable h"
  by (auto simp: put_entry_def sys_set_nonblock_def res_simps split: if_splits)

lemma set_flag_ok:
  "nonblock_ok h \<Longrightarrow> nonblock_ok (snd (sys_set_nonblock fd True h))"
  by (auto simp: nonblock_ok_def sys_set_nonblock_def set_nonblock_def)

lemma other_flag_ok:
  "nonblock_ok h \<Longrightarrow> entry (h_fds h) fd = None \<Longrightarrow> nonblock_ok (snd (sys_set_nonblock fd b h))"
  by (auto simp: nonblock_ok_def sys_set_nonblock_def set_nonblock_def)

lemma fcntl_setfl_ok:
  assumes "nonblock_ok h" "-1 \<le> fd"
  shows "\<exists>r h'. hook_fcntl f fd F_SETFL arg h = Some (Inr (r, h')) \<and> nonblock_ok h' \<and> h_io h' = h_io h \<and> t_hook_enable h' = t_hook_enable h \<and>
    (\<forall>c. entry (h_fds h) fd = Some c \<longrightarrow> (\<exists>c'. entry (h_fds h') fd = Some c' \<and> m_userNonBlock c' = (arg AND O_NONBLOCK \<noteq> 0)))"
proof (cases "entry (h_fds h) fd")
  case None
  from fd_get_result(1) [OF nonblock_okD(1) [OF assms(1)] assms(2), of "h_kernel h"] None
  have "hook_fcntl f fd F_SETFL arg h = Some (Inr (sys_set_nonblock fd (arg AND O_NONBLOCK \<noteq> 0) h))"
    by (simp add: hook_fcntl.simps)
  moreover obtain r h' where s: "sys_set_nonblock fd (arg AND O_NONBLOCK \<noteq> 0) h = (r, h')" by (meson surj_pair)
  ultimately show ?thesis using flag_frames(2) [OF s] other_flag_ok [OF assms(1) None, of "arg AND O_NONBLOCK \<noteq> 0"] None by simp
next
  case (Some c)
  note k = nonblock_okD(2) [OF assms(1) Some]
  let ?c = "c\<lparr>m_userNonBlock := (arg AND O_NONBLOCK \<noteq> 0)\<rparr>"
  from put_entry_ok [OF assms(1) Some, of ?c] obtain ds where
    ds: "put_entry fd ?c h = Inr (h\<lparr>h_fds := ds\<rparr>)" "nonblock_ok (h\<lparr>h_fds := ds\<rparr>)" "entry ds fd = Some ?c" by auto
  have "(arg OR O_NONBLOCK) AND O_NONBLOCK \<noteq> 0" by (simp add: O_NONBLOCK_def bit.conj_disj_distrib2)
  then have "hook_fcntl f fd F_SETFL arg h = Some (Inr (sys_set_nonblock fd True (h\<lparr>h_fds := ds\<rparr>)))"
    using fd_get_result(1) [OF nonblock_okD(1) [OF assms(1)] assms(2), of "h_kernel h"] Some k ds(1)
    by (simp add: hook_fcntl.simps)
  moreover obtain r h' where s: "sys_set_nonblock fd True (h\<lparr>h_fds := ds\<rparr>) = (r, h')" by (meson surj_pair)
  moreover have "h_fds h' = ds" using s by (auto simp: sys_set_nonblock_def split: if_splits)
  ultimately show ?thesis using set_flag_ok [OF ds(2), of fd] ds(3) flag_frames(2) [OF s] by simp
qed

lemma ioctl_set_ok:
  assumes "nonblock_ok h" "-1 \<le> fd" "arg \<noteq> 0"
  shows "\<exists>r h'. hook_ioctl f fd FIONBIO arg h = Inr (r, h') \<and> nonblock_ok h' \<and> h_io h' = h_io h \<and> t_hook_enable h' = t_hook_enable h"
proof (cases "entry (h_fds h) fd")
  case None
  from fd_get_result(1) [OF nonblock_okD(1) [OF assms(1)] assms(2), of "h_kernel h"] None
  have "hook_ioctl f fd FIONBIO arg h = Inr (sys_set_nonblock fd True h)" using assms(3) by (simp add: hook_ioctl_def)
  moreover obtain r h' where s: "sys_set_nonblock fd True h = (r, h')" by (meson surj_pair)
  ultimately show ?thesis using set_flag_ok [OF assms(1), of fd] flag_frames(2) [OF s] by simp
next
  case (Some c)
  note k = nonblock_okD(2) [OF assms(1) Some]
  let ?c = "c\<lparr>m_userNonBlock := True\<rparr>"
  from put_entry_ok [OF assms(1) Some, of ?c] obtain ds where
    ds: "put_entry fd ?c h = Inr (h\<lparr>h_fds := ds\<rparr>)" "nonblock_ok (h\<lparr>h_fds := ds\<rparr>)" by auto
  have "hook_ioctl f fd FIONBIO arg h = Inr (sys_set_nonblock fd True (h\<lparr>h_fds := ds\<rparr>))"
    using fd_get_result(1) [OF nonblock_okD(1) [OF assms(1)] assms(2), of "h_kernel h"] Some k ds(1) assms(3)
    by (simp add: hook_ioctl_def)
  moreover obtain r h' where s: "sys_set_nonblock fd True (h\<lparr>h_fds := ds\<rparr>) = (r, h')" by (meson surj_pair)
  ultimately show ?thesis using set_flag_ok [OF ds(2), of fd] flag_frames(2) [OF s] by simp
qed

lemma setTimeout_frames [simp]:
  "m_fd (setTimeout t v c) = m_fd c" "m_isSocket (setTimeout t v c) = m_isSocket c"
  "m_sysNonblock (setTimeout t v c) = m_sysNonblock c" "m_isClosed (setTimeout t v c) = m_isClosed c"
  "m_userNonBlock (setTimeout t v c) = m_userNonBlock c"
  by (simp_all add: setTimeout_def)

lemma setsockopt_ok:
  assumes "nonblock_ok h" "-1 \<le> fd"
  shows "\<exists>h'. hook_setsockopt fd level optname v r h = Inr (r, h') \<and> nonblock_ok h' \<and> h_io h' = h_io h \<and> t_hook_enable h' = t_hook_enable h"
proof (cases "entry (h_fds h) fd")
  case None
  then show ?thesis using fd_get_result(1) [OF nonblock_okD(1) [OF assms(1)] assms(2), of "h_kernel h"] assms(1)
    by (simp add: hook_setsockopt_def)
next
  case (Some c)
  let ?c = "setTimeout optname (word_of_int (fst v * 1000 + c_div (snd v) 1000)) c"
  from put_entry_ok [OF assms(1) Some, of ?c] obtain ds where
    "put_entry fd ?c h = Inr (h\<lparr>h_fds := ds\<rparr>)" "nonblock_ok (h\<lparr>h_fds := ds\<rparr>)" by (metis setTimeout_frames(1-4))
  then show ?thesis using fd_get_result(1) [OF nonblock_okD(1) [OF assms(1)] assms(2), of "h_kernel h"] Some assms(1)
    by (simp add: hook_setsockopt_def)
qed

lemma close_ok:
  assumes "nonblock_ok h" "t_hook_enable h" "hooked_ok h" "0 \<le> fd" "fd \<noteq> tickle_fd (h_io h)"
  shows "\<exists>r h'. hook_close fd h = Inr (r, h') \<and> nonblock_ok h' \<and> hooked_ok h' \<and> entry (h_fds h') fd = None \<and> k_kind (h_kernel h') fd = None"
proof -
  have closed: "nonblock_ok (snd (sys_close fd u))" "k_kind (h_kernel (snd (sys_close fd u))) fd = None"
      "h_fds (snd (sys_close fd u)) = h_fds u" "h_io (snd (sys_close fd u)) = h_io u"
    if "nonblock_ok u" "entry (h_fds u) fd = None" for u
    using that by (auto simp: nonblock_ok_def sys_close_def)
  note g = fd_get_result(1) [OF nonblock_okD(1) [OF assms(1)], of fd "h_kernel h"]
  show ?thesis
  proof (cases "entry (h_fds h) fd")
    case None
    then have "hook_close fd h = Inr (sys_close fd h)" using g assms(2,4) by (simp add: hook_close_def)
    moreover obtain r h' where "sys_close fd h = (r, h')" by (meson surj_pair)
    ultimately show ?thesis using closed [OF assms(1) None] assms(3) None by (simp add: hooked_ok_def)
  next
    case (Some c)
    have io: "io_ok (h_io h)" "tm_ok (io_timers (h_io h))" using assms(3) by (simp_all add: hooked_ok_def)
    from cancelAll_result [OF io(1) assms(4,5)] obtain ok io' where
      c: "cancelAll fd (h_io h) = Inr (ok, io')" "io_ok io'" by (auto simp: keeps_waiters_def)
    have t: "io_timers io' = io_timers (h_io h)" by (rule cancelAll_timers [OF c(1)])
    from fd_del_result [OF nonblock_okD(1) [OF assms(1)] assms(4)] obtain ds where
      ds: "fd_del fd (h_fds h) = Inr ds" "table_ok ds" "\<forall>j. entry ds j = (if j = fd then None else entry (h_fds h) j)" by blast
    let ?u = "h\<lparr>h_io := io', h_fds := ds\<rparr>"
    have u: "nonblock_ok ?u" "entry (h_fds ?u) fd = None" using ds(2,3) nonblock_okD(2) [OF assms(1)] by (auto simp: nonblock_ok_def)
    have "hook_close fd h = Inr (sys_close fd ?u)" using g assms(2,4) Some c(1) ds(1) by (simp add: hook_close_def)
    moreover obtain r h' where "sys_close fd ?u = (r, h')" by (meson surj_pair)
    ultimately show ?thesis using closed [OF u] c(2) t io(2) u(2) by (simp add: hooked_ok_def)
  qed
qed

text \<open>
  Runs of threads with hooks: sockets are opened, accepted and closed, their flags and timeouts set;
  everything else (input and output, timers, other fibers) leaves the table and the flags alone.
  \<open>FIONBIO\<close> is used to set the flag only. An accept appears here when the kernel answers it.
\<close>

inductive hook_runs :: "hooked \<Rightarrow> hooked \<Rightarrow> bool" for h0 where
  start: "hook_runs h0 h0"
| other: "hook_runs h0 h \<Longrightarrow> h_fds h' = h_fds h \<Longrightarrow> h_kernel h' = h_kernel h \<Longrightarrow> t_hook_enable h' = t_hook_enable h \<Longrightarrow>
    hooked_ok h' \<Longrightarrow> hook_runs h0 h'"
| socket: "hook_runs h0 h \<Longrightarrow> fd = -1 \<or> 0 \<le> fd \<and> k_kind (h_kernel h) fd = None \<Longrightarrow> hook_socket fd nb h = Inr (r, h') \<Longrightarrow> hook_runs h0 h'"
| accept: "hook_runs h0 h \<Longrightarrow> k_kind (h_kernel h) fd = None \<Longrightarrow> 0 \<le> fd \<Longrightarrow>
    hook_accept s fib [(fd, 0)] [] h = Inr (r, h') \<Longrightarrow> hook_runs h0 h'"
| close: "hook_runs h0 h \<Longrightarrow> 0 \<le> fd \<Longrightarrow> fd \<noteq> tickle_fd (h_io h) \<Longrightarrow> hook_close fd h = Inr (r, h') \<Longrightarrow> hook_runs h0 h'"
| setfl: "hook_runs h0 h \<Longrightarrow> -1 \<le> fd \<Longrightarrow> hook_fcntl f fd F_SETFL arg h = Some (Inr (w, h')) \<Longrightarrow> hook_runs h0 h'"
| ioctl: "hook_runs h0 h \<Longrightarrow> -1 \<le> fd \<Longrightarrow> n \<noteq> 0 \<Longrightarrow> hook_ioctl f fd FIONBIO n h = Inr (w, h') \<Longrightarrow> hook_runs h0 h'"
| setsockopt: "hook_runs h0 h \<Longrightarrow> -1 \<le> fd \<Longrightarrow> hook_setsockopt fd level opt v q h = Inr (r, h') \<Longrightarrow> hook_runs h0 h'"

definition hook_inv :: "hooked \<Rightarrow> bool" where
  "hook_inv h \<longleftrightarrow> nonblock_ok h \<and> hooked_ok h \<and> t_hook_enable h"

lemma socket_inv:
  assumes "hook_inv h" "fd = -1 \<or> 0 \<le> fd \<and> k_kind (h_kernel h) fd = None" "hook_socket fd nb h = Inr (r, h')"
  shows "hook_inv h'"
proof (cases "fd = -1")
  case True
  then show ?thesis using assms(1,3) by (simp add: hook_socket_def Let_def split: if_splits)
next
  case False
  have i: "nonblock_ok h" "t_hook_enable h" "hooked_ok h" using assms(1) by (simp_all add: hook_inv_def)
  have "0 \<le> fd" "k_kind (h_kernel h) fd = None" using False assms(2) by auto
  from register_ok [OF i(1) this, of nb] obtain ds k where
    "register fd (h\<lparr>h_kernel := sys_open fd nb (h_kernel h)\<rparr>) = Inr (h\<lparr>h_fds := ds, h_kernel := k\<rparr>)"
    "nonblock_ok (h\<lparr>h_fds := ds, h_kernel := k\<rparr>)" by blast
  with i False assms(3) show ?thesis by (auto simp: hook_socket_def hook_inv_def hooked_ok_def Let_def)
qed

lemma do_io_immediate:
  assumes "do_io s event so fib [(fd, 0)] [] h = Inr (r, h')" "fd \<noteq> -1"
  shows "h_fds h' = h_fds h \<and> h_kernel h' = h_kernel h \<and> h_io h' = h_io h \<and> t_hook_enable h' = t_hook_enable h \<and> (r = Some fd \<or> r = Some (-1))"
  using assms
  by (auto simp: do_io_def direct_def new_info_def drop_info_def res_simps errno_defs split: if_splits option.splits)

lemma accept_inv:
  assumes "hook_inv h" "k_kind (h_kernel h) fd = None" "0 \<le> fd" "hook_accept s fib [(fd, 0)] [] h = Inr (r, h')"
  shows "hook_inv h'"
proof -
  from assms(4) obtain q h1 where d: "do_io s EV_READ SO_RCVTIMEO fib [(fd, 0)] [] h = Inr (q, h1)"
    by (auto simp: hook_accept_def res_simps)
  have "fd \<noteq> -1" using assms(3) by simp
  from do_io_immediate [OF d this] have f: "h_fds h1 = h_fds h" "h_kernel h1 = h_kernel h" "h_io h1 = h_io h"
    "t_hook_enable h1 = t_hook_enable h" "q = Some fd \<or> q = Some (-1)" by simp_all
  then have i: "nonblock_ok h1" "hooked_ok h1" "t_hook_enable h1" using assms(1) by (simp_all add: hook_inv_def nonblock_ok_def hooked_ok_def)
  from register_ok [OF i(1) assms(3), of False] f(2) assms(2) obtain ds k where
    "register fd (h1\<lparr>h_kernel := sys_open fd False (h_kernel h1)\<rparr>) = Inr (h1\<lparr>h_fds := ds, h_kernel := k\<rparr>)"
    "nonblock_ok (h1\<lparr>h_fds := ds, h_kernel := k\<rparr>)" by auto
  with i f(5) assms(3,4) d show ?thesis by (auto simp: hook_accept_def hook_inv_def hooked_ok_def)
qed

lemma hook_inv_cong:
  "hook_inv h \<Longrightarrow> h_fds h' = h_fds h \<Longrightarrow> h_kernel h' = h_kernel h \<Longrightarrow> t_hook_enable h' = t_hook_enable h \<Longrightarrow> hooked_ok h' \<Longrightarrow>
     hook_inv h'"
  unfolding hook_inv_def nonblock_ok_def by metis

lemma hook_runs_inv: "hook_runs h0 h \<Longrightarrow> hook_inv h0 \<Longrightarrow> hook_inv h"
proof (induction rule: hook_runs.induct)
  case start
  then show ?case .
next
  case (other h h')
  from hook_inv_cong [OF other.IH [OF other.prems] other.hyps(2-5)] show ?case .
next
  case (socket h fd nb r h')
  then show ?case using socket_inv by blast
next
  case (accept h fd s fib r h')
  then show ?case using accept_inv by blast
next
  case (close h fd r h')
  then have i: "nonblock_ok h" "t_hook_enable h" "hooked_ok h" by (simp_all add: hook_inv_def)
  have "t_hook_enable h' = t_hook_enable h"
    using close.hyps(4) by (auto simp: hook_close_def sys_close_def res_simps split: if_splits option.splits)
  with close_ok [OF i close.hyps(2,3)] close.hyps(4) i(2) show ?case by (auto simp: hook_inv_def)
next
  case (setfl h fd f arg w h')
  then have i: "nonblock_ok h" "t_hook_enable h" "hooked_ok h" by (simp_all add: hook_inv_def)
  from fcntl_setfl_ok [OF i(1) setfl.hyps(2), of f arg] setfl.hyps(3) i show ?case by (auto simp: hook_inv_def hooked_ok_def)
next
  case (ioctl h fd n f w h')
  then have i: "nonblock_ok h" "t_hook_enable h" "hooked_ok h" by (simp_all add: hook_inv_def)
  from ioctl_set_ok [OF i(1) ioctl.hyps(2,3), of f] ioctl.hyps(4) i show ?case by (auto simp: hook_inv_def hooked_ok_def)
next
  case (setsockopt h fd level opt v q r h')
  then have i: "nonblock_ok h" "t_hook_enable h" "hooked_ok h" by (simp_all add: hook_inv_def)
  from setsockopt_ok [OF i(1) setsockopt.hyps(2), of level opt v q] setsockopt.hyps(3) i show ?case by (auto simp: hook_inv_def hooked_ok_def)
qed

text \<open>In every run of threads with hooks from an empty table on, in which sockets are opened, accepted,
  connected, used, closed and reopened under the same number, their options set and \<open>O_NONBLOCK\<close> changed
  by the program with \<open>F_SETFL\<close>, every descriptor the runtime knows is an open socket that is
  non-blocking in the kernel: no hooked call ever blocks its thread.\<close>

theorem hook_runs_keep_nonblock:
  assumes "hook_runs h0 h" "t_hook_enable h0" "h_fds h0 = FdManager_ctor" "hooked_ok h0"
  shows "\<forall>fd c. entry (h_fds h) fd = Some c \<longrightarrow>
    m_fd c = fd \<and> m_isSocket c \<and> m_sysNonblock c \<and> k_kind (h_kernel h) fd = Some True \<and> k_nonblock (h_kernel h) fd"
proof -
  have "entry FdManager_ctor fd = None" for fd by (auto simp: entry_def FdManager_ctor_def)
  then have "hook_inv h0" using assms(2-4) table_ok_ctor by (simp add: hook_inv_def nonblock_ok_def)
  from hook_runs_inv [OF assms(1) this] have "nonblock_ok h" by (simp add: hook_inv_def)
  from nonblock_okD [OF this] show ?thesis by (auto simp: table_ok_def)
qed

text \<open>Two ways a known socket becomes blocking behind the runtime's back, so that the next hooked call
  on it blocks the whole thread: \<open>ioctl(FIONBIO)\<close> with 0 clears the kernel's flag (where \<open>fcntl\<close> would
  keep it), and a close in a thread without hooks leaves the context in the table, where the next
  socket with the same number finds it and is never made non-blocking.\<close>

theorem nonblock_lost:
  assumes "nonblock_ok h" "0 \<le> fd" "entry (h_fds h) fd = Some c" "t_hook_enable h"
  shows "(\<exists>h'. hook_ioctl f fd FIONBIO 0 h = Inr (0, h') \<and> entry (h_fds h') fd = Some (c\<lparr>m_userNonBlock := False\<rparr>) \<and>
      \<not> k_nonblock (h_kernel h') fd) \<and>
    (\<exists>h1 h2. hook_close fd (h\<lparr>t_hook_enable := False\<rparr>) = Inr (0, h1) \<and>
      hook_socket fd False (h1\<lparr>t_hook_enable := True\<rparr>) = Inr (fd, h2) \<and> entry (h_fds h2) fd = Some c \<and> m_sysNonblock c \<and>
      \<not> k_nonblock (h_kernel h2) fd)"
proof -
  note k = nonblock_okD(2) [OF assms(1,3)]
  have fd: "-1 \<le> fd" "fd \<noteq> -1" using assms(2) by simp_all
  note g = fd_get_result(1) [OF nonblock_okD(1) [OF assms(1)] fd(1)]
  let ?c = "c\<lparr>m_userNonBlock := False\<rparr>"
  from put_entry_ok [OF assms(1,3), of ?c] obtain ds where
    ds: "put_entry fd ?c h = Inr (h\<lparr>h_fds := ds\<rparr>)" "entry ds fd = Some ?c" by auto
  let ?u = "h\<lparr>h_fds := ds\<rparr>"
  have "hook_ioctl f fd FIONBIO 0 h = Inr (0, ?u\<lparr>h_kernel := set_nonblock fd False (h_kernel h)\<rparr>)"
    using g [of "h_kernel h"] assms(3) k ds(1) by (simp add: hook_ioctl_def sys_set_nonblock_def)
  then have 1: "\<exists>h'. hook_ioctl f fd FIONBIO 0 h = Inr (0, h') \<and> entry (h_fds h') fd = Some ?c \<and> \<not> k_nonblock (h_kernel h') fd"
    using ds(2) by (auto simp: set_nonblock_def)
  let ?k1 = "(h_kernel h)\<lparr>k_kind := (k_kind (h_kernel h))(fd := None)\<rparr>"
  let ?h1 = "h\<lparr>t_hook_enable := False, h_kernel := ?k1\<rparr>"
  have c: "hook_close fd (h\<lparr>t_hook_enable := False\<rparr>) = Inr (0, ?h1)" using k by (simp add: hook_close_def sys_close_def)
  from fd_get_result(2) [OF nonblock_okD(1) [OF assms(1)] fd(1), of "sys_open fd False ?k1"] assms(3)
  have "fd_get fd True (h_fds h, sys_open fd False ?k1) = Inr (Some c, h_fds h, sys_open fd False ?k1)" by auto
  then have "hook_socket fd False (?h1\<lparr>t_hook_enable := True\<rparr>) =
      Inr (fd, ?h1\<lparr>t_hook_enable := True, h_kernel := sys_open fd False ?k1\<rparr>)"
    using fd(2) by (simp add: hook_socket_def register_def Let_def)
  with c 1 assms(3) k show ?thesis by (auto simp: sys_open_def)
qed

text \<open>C38. \<open>fcntl(F_GETFL)\<close> never returns: it calls itself, whatever the descriptor, hooks enabled or not.\<close>

theorem fcntl_GETFL_never_returns:
  "hook_fcntl f fd F_GETFL arg h = None"
proof -
  have "cmd \<noteq> F_GETFL" if "hook_fcntl f fd cmd arg h = Some r" for cmd r
    using that
    by (rule hook_fcntl.raw_induct [where P = "\<lambda>f fd cmd arg h r. cmd \<noteq> F_GETFL", rotated])
      ((auto simp: F_SETFL_def F_GETFL_def split: if_splits bind_splits)?, blast)
  then show ?thesis by (cases "hook_fcntl f fd F_GETFL arg h") auto
qed

text \<open>\<open>accept\<close> registers its socket in threads without hooks too: there the socket it returns is
  non-blocking although nobody asked for it, and the first receive without data fails with \<open>EAGAIN\<close>.\<close>

theorem accept_without_hooks_nonblocking:
  assumes "table_ok (h_fds h)" "\<not> t_hook_enable h" "0 \<le> fd" "entry (h_fds h) fd = None"
  shows "\<exists>h'. hook_accept s fib [(fd, 0)] [] h = Inr (Some fd, h') \<and> k_nonblock (h_kernel h') fd \<and>
    hook_recv fd fib [(-1, EAGAIN)] [] h' = Inr (Some (-1), h'\<lparr>h_errno := EAGAIN\<rparr>)"
proof -
  let ?k = "sys_open fd False (h_kernel h)"
  have fd: "-1 \<le> fd" "fd \<noteq> -1" using assms(3) by simp_all
  have c: "snd (FdCtx_ctor fd ?k) = set_nonblock fd True ?k" by (simp add: FdCtx_ctor_result sys_open_def)
  from fd_get_result(2) [OF assms(1) fd(1), of ?k] assms(4) fd(2) c obtain ds where
    "fd_get fd True (h_fds h, ?k) = Inr (Some (fst (FdCtx_ctor fd ?k)), ds, set_nonblock fd True ?k)" by auto
  then have "hook_accept s fib [(fd, 0)] [] h = Inr (Some fd, h\<lparr>h_fds := ds, h_kernel := set_nonblock fd True ?k\<rparr>)"
    using assms(2,3) by (simp add: hook_accept_def do_io_def direct_def register_def)
  then show ?thesis using assms(2) by (simp add: hook_recv_def do_io_def direct_def set_nonblock_def)
qed

subsection \<open>How long a fiber sleeps\<close>

text \<open>The time at which the timer a sleeping fiber armed is due.\<close>

definition wake_time :: "hooked \<Rightarrow> int option \<times> hooked \<Rightarrow> 64 word" where
  "wake_time h = (\<lambda>(_, h'). next_of (timer_heap (io_timers (h_io h'))) (next_timer (io_timers (h_io h))))"

lemma wake_time_sleep_for: "wake_time h (sleep_for ms fib [] h) = h_now h + ms"
  by (simp add: wake_time_def sleep_for_def arm_def addTimer_def Let_def next_of_def Timer_ctor_def)

text \<open>How long a hooked call sleeps: \<open>sleep\<close> is right below 4294968 seconds; there its product wraps
  around, and a fiber that asks for 49 days sleeps 704 milliseconds. \<open>usleep\<close> rounds down to
  milliseconds. A \<open>nanosleep\<close> of 2147484 to 4294967 seconds goes through a negative \<open>int\<close>, which puts its
  timer into the past: it does not sleep at all.\<close>

theorem sleep_lengths:
  assumes "t_hook_enable h"
  shows "(unat seconds < 4294968 \<longrightarrow> wake_time h (hook_sleep seconds r fib [] h) = h_now h + word_of_nat (unat seconds * 1000)) \<and>
    wake_time h (hook_sleep 4294968 r fib [] h) = h_now h + 704 \<and>
    wake_time h (hook_usleep usec fib [] h) = h_now h + word_of_nat (unat usec div 1000) \<and>
    (2147484 \<le> sec \<and> sec \<le> 4294967 \<longrightarrow>
       wake_time h (hook_nanosleep sec 0 r fib [] h) = h_now h - word_of_int (2 ^ 32 - sec * 1000))"
proof (intro conjI impI)
  assume s: "unat seconds < 4294968"
  then have "unat (seconds * 1000) = unat seconds * 1000" by (subst unat_mult_lem [THEN iffD1]) simp_all
  then have "(ucast (seconds * 1000) :: 64 word) = word_of_nat (unat seconds * 1000)" by (metis of_nat_unat)
  then show "wake_time h (hook_sleep seconds r fib [] h) = h_now h + word_of_nat (unat seconds * 1000)"
    using assms by (simp add: hook_sleep_def wake_time_sleep_for)
next
  show "wake_time h (hook_sleep 4294968 r fib [] h) = h_now h + 704"
    using assms by (simp add: hook_sleep_def wake_time_sleep_for)
next
  have "(ucast (usec div 1000) :: 64 word) = word_of_nat (unat usec div 1000)" proof -
    have "unat (usec div 1000) = unat usec div 1000" by (simp add: unat_div)
    then show ?thesis by (metis of_nat_unat)
  qed
  then show "wake_time h (hook_usleep usec fib [] h) = h_now h + word_of_nat (unat usec div 1000)"
    using assms by (simp add: hook_usleep_def wake_time_sleep_for)
next
  assume b: "2147484 \<le> sec \<and> sec \<le> 4294967"
  have "(sec * 1000 - 2147483648 + 4294967296) mod 4294967296 = sec * 1000 - 2147483648"
    unfolding mod_add_self2 using b by (intro mod_pos_pos_trivial) linarith+
  then have m: "(sec * 1000 + 2147483648) mod 4294967296 = sec * 1000 - 2147483648" by (simp add: algebra_simps)
  have "signed_take_bit 31 (sec * 1000) = sec * 1000 - 2 ^ 32"
    using m by (simp add: signed_take_bit_eq_take_bit_shift take_bit_eq_mod)
  then have t: "sint (word_of_int (sec * 1000) :: 32 word) = sec * 1000 - 2 ^ 32" by (subst sint_sbintrunc') simp
  have z: "c_div (c_div 0 1000) 1000 = 0" by (simp add: c_div_def)
  have "nanosleep_ms sec 0 = word_of_int (sec * 1000 - 2 ^ 32)" unfolding nanosleep_ms_def z add_0_right t by (rule refl)
  then have "nanosleep_ms sec 0 = - word_of_int (2 ^ 32 - sec * 1000)" by simp
  then show "wake_time h (hook_nanosleep sec 0 r fib [] h) = h_now h - word_of_int (2 ^ 32 - sec * 1000)"
    using assms by (simp add: hook_nanosleep_def wake_time_sleep_for)
qed

subsection \<open>Sample runs\<close>

text \<open>The resumption by the event: the idle fiber hands the waiter over.\<close>

definition event_wakes :: "int \<Rightarrow> 32 word \<Rightarrow> hooked \<Rightarrow> hooked" where
  "event_wakes fd event h = (case idle_event (fd, event) (h_io h) of Inr io \<Rightarrow> h\<lparr>h_io := io\<rparr> | Inl _ \<Rightarrow> h)"

lemma event_resumes:
  assumes "event = EV_READ \<or> event = EV_WRITE"
  shows "resumes fd event ti (event_wakes fd event)"
  unfolding resumes_def
proof (intro allI impI)
  fix h assume h: "hooked_ok h \<and> 0 \<le> fd \<and> fd \<noteq> tickle_fd (h_io h) \<and> \<not> refused (h_io h) fd \<and> fc_events (ctx_of fd (h_io h)) = event \<and>
    timer_infos h ti = Some 0"
  have "event \<noteq> 0" using assms event_bits by auto
  with h idle_event_wakes [of "h_io h" fd event] obtain io where
    "idle_event (fd, event) (h_io h) = Inr io" "io_ok io" "fc_events (ctx_of fd io) = 0" "io_timers io = io_timers (h_io h)"
    "refused io = refused (h_io h)" "tickle_fd io = tickle_fd (h_io h)" by (auto simp: hooked_ok_def)
  with h show "can_wait fd ti (event_wakes fd event h) \<and>
     (\<forall>a. timer_heap (io_timers (h_io h)) a \<noteq> None \<longrightarrow> timer_heap (io_timers (h_io (event_wakes fd event h))) a \<noteq> None)"
    by (simp add: event_wakes_def can_wait_def hooked_ok_def)
qed

definition hk_step :: "hooked \<Rightarrow> ('a \<times> hooked) res \<Rightarrow> hooked" where
  "hk_step h r = (case r of Inr (_, h') \<Rightarrow> h' | Inl _ \<Rightarrow> h)"

definition hk0 :: hooked where
  "hk0 = \<lparr>t_hook_enable = True, h_io = (case IOManager_ctor True 4 0 1000 of Inr io \<Rightarrow> io | Inl _ \<Rightarrow> undefined),
     h_fds = FdManager_ctor, h_kernel = \<lparr>k_kind = (\<lambda>_. None), k_nonblock = (\<lambda>_. False)\<rparr>,
     timer_infos = (\<lambda>_. None), next_info = 0, h_errno = 0, h_now = 1000\<rparr>"

definition hk1 :: hooked where "hk1 = hk_step hk0 (hook_socket 5 False hk0)"
definition hk2 :: hooked where "hk2 = hk_step hk1 (hook_setsockopt 5 SOL_SOCKET SO_RCVTIMEO (2, 0) 0 hk1)"

definition ctx5 :: FdCtx where
  "ctx5 = \<lparr>m_isInit = True, m_isSocket = True, m_sysNonblock = True, m_userNonBlock = False, m_isClosed = False,
     m_fd = 5, m_recvTimeout = 2000, m_sendTimeout = -1\<rparr>"

lemma hk0_ok: "hooked_ok hk0" "t_hook_enable hk0" "h_fds hk0 = FdManager_ctor" "hook_inv hk0"
proof -
  obtain io where io: "IOManager_ctor True 4 0 1000 = (Inr io :: hook_cb IOManager res)" by (simp add: IOManager_ctor_def)
  have "io_timers io = TimerManager_ctor 1000" using io by (auto simp: IOManager_ctor_def)
  with io_ok_ctor [OF io] tm_ok_ctor show "hooked_ok hk0" by (simp add: hooked_ok_def hk0_def io)
  show "t_hook_enable hk0" "h_fds hk0 = FdManager_ctor" by (simp_all add: hk0_def)
  moreover have "entry FdManager_ctor fd = None" for fd by (auto simp: entry_def FdManager_ctor_def)
  ultimately show "hook_inv hk0" using \<open>hooked_ok hk0\<close> table_ok_ctor by (simp add: hook_inv_def nonblock_ok_def)
qed

lemma hk2_runs: "hook_runs hk0 hk2"
proof -
  have "case hook_socket 5 False hk0 of Inr (r, _) \<Rightarrow> r = 5 | Inl _ \<Rightarrow> False" by code_simp
  then have s: "hook_socket 5 False hk0 = Inr (5, hk1)" by (auto simp: hk1_def hk_step_def split: sum.splits)
  have "case hook_setsockopt 5 SOL_SOCKET SO_RCVTIMEO (2, 0) 0 hk1 of Inr (r, _) \<Rightarrow> r = 0 | Inl _ \<Rightarrow> False" by code_simp
  then have o: "hook_setsockopt 5 SOL_SOCKET SO_RCVTIMEO (2, 0) 0 hk1 = Inr (0, hk2)" by (auto simp: hk2_def hk_step_def split: sum.splits)
  have "k_kind (h_kernel hk0) 5 = None" by (simp add: hk0_def)
  then have "hook_runs hk0 hk1" by (intro hook_runs.socket [OF hook_runs.start _ s]) simp
  then show ?thesis by (rule hook_runs.setsockopt [OF _ _ o]) simp
qed

lemma hk2_state: "hook_inv hk2" "entry (h_fds hk2) 5 = Some ctx5" "next_info hk2 = 0" "blocking_socket 5 ctx5 hk2"
proof -
  show i: "hook_inv hk2" by (rule hook_runs_inv [OF hk2_runs hk0_ok(4)])
  show e: "entry (h_fds hk2) 5 = Some ctx5" "next_info hk2 = 0" by code_simp+
  have "tickle_fd (h_io hk2) = 4" "refused (h_io hk2) 5 = False" "fc_events (ctx_of 5 (h_io hk2)) = 0" by code_simp+
  with i e show "blocking_socket 5 ctx5 hk2"
    by (simp add: blocking_socket_def hook_inv_def nonblock_ok_def ctx5_def)
qed

theorem do_io_hides_nonblocking_witness:
  "\<exists>h. hook_read 5 1 [(-1, EINTR), (-1, EAGAIN), (3, 0)] [event_wakes 5 EV_READ] hk2 = Inr (Some 3, h) \<and>
     fc_events (ctx_of 5 (h_io h)) = 0 \<and> timer_infos h 0 = None"
proof -
  have t: "\<forall>a \<in> set [(-1, EINTR), (-1, EAGAIN)]. tries_again a" "\<not> tries_again (3, 0)"
    "waits [(-1, EINTR), (-1, EAGAIN)] \<le> length [event_wakes 5 EV_READ]"
    "\<forall>env \<in> set [event_wakes 5 EV_READ]. resumes 5 EV_READ (next_info hk2) env"
    using event_resumes by (simp_all add: tries_again_def waits_def errno_defs)
  from do_io_hides_nonblocking [OF hk2_state(4) disjI1 [OF refl] t, of SO_RCVTIMEO 1 "[]"] hk2_state(3)
  show ?thesis by (auto simp: hook_read_def)
qed

theorem do_io_times_out_witness:
  "\<exists>h. hook_read 5 1 [(-1, EAGAIN), (3, 0)] [timeout_fires 0 5 EV_READ] hk2 = Inr (Some (-1), h) \<and> h_errno h = ETIMEDOUT"
proof -
  have "getTimeout SO_RCVTIMEO ctx5 \<noteq> -1" by (simp add: getTimeout_def ctx5_def)
  from do_io_times_out [OF hk2_state(4) disjI1 [OF refl] this, of 1 "[(3, 0)]" "[]"] hk2_state(3)
  show ?thesis by (auto simp: hook_read_def)
qed

theorem hook_runs_keep_nonblock_witness:
  "k_nonblock (h_kernel hk2) 5 \<and> m_sysNonblock ctx5"
  using hook_runs_keep_nonblock [OF hk2_runs hk0_ok(2,3,1)] hk2_state(2) by blast

theorem nonblock_lost_witness:
  "\<exists>h. hook_ioctl (\<lambda>_ _ _. 0) 5 FIONBIO 0 hk2 = Inr (0, h) \<and> \<not> k_nonblock (h_kernel h) 5"
  using nonblock_lost [of hk2 5 ctx5 "\<lambda>_ _ _. 0"] hk2_state(1,2) by (auto simp: hook_inv_def)

theorem accept_without_hooks_nonblocking_witness:
  "\<exists>h. hook_accept 3 1 [(7, 0)] [] (hk2\<lparr>t_hook_enable := False\<rparr>) = Inr (Some 7, h) \<and>
     hook_recv 7 1 [(-1, EAGAIN)] [] h = Inr (Some (-1), h\<lparr>h_errno := EAGAIN\<rparr>)"
proof -
  have "entry (h_fds hk2) 7 = None" by code_simp
  then have "entry (h_fds (hk2\<lparr>t_hook_enable := False\<rparr>)) 7 = None" by simp
  from accept_without_hooks_nonblocking [OF _ _ _ this, of 3 1] hk2_state(1)
  show ?thesis by (auto simp: hook_inv_def nonblock_ok_def)
qed

theorem sleep_lengths_witness:
  "wake_time hk0 (hook_sleep 60 0 1 [] hk0) = 61000 \<and> wake_time hk0 (hook_sleep 4294968 0 1 [] hk0) = 1704 \<and>
   wake_time hk0 (hook_nanosleep 3000000 0 0 1 [] hk0) = 1000 - 1294967296"
proof -
  have n: "h_now hk0 = 1000" by (simp add: hk0_def)
  from sleep_lengths [OF hk0_ok(2), of 60 0 1 0 3000000] show ?thesis unfolding n by simp
qed

end
