(* ===== verification/RaftTicker.thy ===== *)
theory RaftTicker
  imports RaftLeader Hook
begin

text \<open>
  The two loops of a raft node that run as fibers (src/raftCore/raft.cpp): \<open>electionTimeOutTicker\<close> and
  \<open>leaderHearBeatTicker\<close>. \<open>Raft::init\<close> hands both to an I/O manager, so that their \<open>usleep\<close> is the hooked
  call of theory Hook. A turn has a first half, from the top of the loop to the sleep, and a second half,
  after it. Times are nanoseconds; the clock the loop reads and the randomized timeout are arguments.
\<close>


definition millisecond :: int where "millisecond = 1000000"
definition microsecond :: int where "microsecond = 1000"

text \<open>The first half: \<open>Nap\<close> is the sleep of the inner loop, after which the turn starts again; otherwise
  the argument of \<open>usleep\<close>, if it sleeps at all, and the time the turn read from the clock.\<close>

datatype turn = Nap int | Due "int option" int

definition suitableSleepTime :: "int \<Rightarrow> int \<Rightarrow> int \<Rightarrow> int" where
  "suitableSleepTime timeout lastReset wakeTime = timeout * millisecond + lastReset - wakeTime"

definition election_turn :: "int \<Rightarrow> int \<Rightarrow> Raft \<Rightarrow> turn" where
  "election_turn timeout wakeTime s =
     (if m_status s = Leader then Nap HeartBeatTimeout
      else let sleep = suitableSleepTime timeout (m_lastResetElectionTime s) wakeTime
           in Due (if sleep > millisecond then Some (c_div sleep millisecond) else None) wakeTime)"

definition election_due :: "raft_codec \<Rightarrow> int \<Rightarrow> int \<Rightarrow> Raft \<Rightarrow> ((int \<times> RequestVoteArgs) list \<times> Raft) option" where
  "election_due C wakeTime now s =
     (if m_lastResetElectionTime s - wakeTime > 0 then None else Some (doElection C now s))"

definition heartbeat_turn :: "int \<Rightarrow> Raft \<Rightarrow> turn" where
  "heartbeat_turn wakeTime s =
     (if m_status s \<noteq> Leader then Nap (1000 * HeartBeatTimeout)
      else let sleep = suitableSleepTime HeartBeatTimeout (m_lastResetHeartBeatTime s) wakeTime
           in Due (if sleep > millisecond then Some (c_div sleep microsecond) else None) wakeTime)"

definition heartbeat_due :: "int \<Rightarrow> int \<Rightarrow> Raft \<Rightarrow> (HeartBeatCall list \<times> Raft) res option" where
  "heartbeat_due wakeTime now s =
     (if m_lastResetHeartBeatTime s - wakeTime > 0 then None else Some (doHeartBeat now s))"



end
