(* ===== verification/Sync.thy ===== *)
theory Sync
  imports Prelude
begin

text \<open>
  The locks of the fiber runtime (src/fiber/include/mutex.hpp): \<open>Mutex\<close>, \<open>RWMutex\<close> and the guards
  \<open>ScopedLockImpl\<close>, \<open>ReadScopedLockImpl\<close> and \<open>WriteScopedLockImpl\<close>. The pthread objects are modelled by
  who holds them, as POSIX documents the default attributes: a call that has to wait is \<open>None\<close>; a thread
  that locks its own default mutex waits for ever; \<open>pthread_rwlock_rdlock\<close> and \<open>pthread_rwlock_wrlock\<close>
  return \<open>EDEADLK\<close> to the thread that holds the lock for writing, which \<open>RWMutex\<close> ignores. An
  \<open>unlock\<close> without the lock is \<open>NotHeld\<close>. The three guard templates differ in the call that locks: a
  guard carries its kind, and a lock is the pair of its \<open>acquire\<close>, by kind, and its \<open>release\<close>.

  The last section is the class \<open>Thread\<close> (src/fiber/thread.cpp).
\<close>

datatype lock_fault = NotHeld

datatype guard_kind = Scoped | ReadScoped | WriteScoped

definition exclusive :: "guard_kind \<Rightarrow> bool" where
  "exclusive k \<longleftrightarrow> k \<noteq> ReadScoped"

subsection \<open>The locks\<close>

type_synonym Mutex = "nat option"

definition Mutex_ctor :: Mutex where "Mutex_ctor = None"

definition Mutex_lock :: "nat \<Rightarrow> Mutex \<Rightarrow> Mutex option" where
  "Mutex_lock t m = (case m of None \<Rightarrow> Some (Some t) | Some u \<Rightarrow> None)"

definition Mutex_unlock :: "nat \<Rightarrow> Mutex \<Rightarrow> lock_fault + Mutex" where
  "Mutex_unlock t m = (if m = Some t then Inr None else Inl NotHeld)"

record RWMutex =
  rw_readers :: "nat list"
  rw_writer :: "nat option"

definition RWMutex_ctor :: RWMutex where
  "RWMutex_ctor = \<lparr>rw_readers = [], rw_writer = None\<rparr>"

definition RWMutex_rdlock :: "nat \<Rightarrow> RWMutex \<Rightarrow> RWMutex option" where
  "RWMutex_rdlock t m =
     (if rw_writer m = Some t then Some m
      else if rw_writer m \<noteq> None then None
      else Some (m\<lparr>rw_readers := t # rw_readers m\<rparr>))"

definition RWMutex_wrlock :: "nat \<Rightarrow> RWMutex \<Rightarrow> RWMutex option" where
  "RWMutex_wrlock t m =
     (if rw_writer m = Some t then Some m
      else if rw_writer m \<noteq> None \<or> rw_readers m \<noteq> [] then None
      else Some (m\<lparr>rw_writer := Some t\<rparr>))"

definition RWMutex_unlock :: "nat \<Rightarrow> RWMutex \<Rightarrow> lock_fault + RWMutex" where
  "RWMutex_unlock t m =
     (if rw_writer m = Some t then Inr (m\<lparr>rw_writer := None\<rparr>)
      else if t \<in> set (rw_readers m) then Inr (m\<lparr>rw_readers := remove1 t (rw_readers m)\<rparr>)
      else Inl NotHeld)"

text \<open>What the constructor of a guard of each kind calls; a \<open>Mutex\<close> has one kind of guard, an
  \<open>RWMutex\<close> two.\<close>

fun mutex_acquire :: "guard_kind \<Rightarrow> nat \<Rightarrow> Mutex \<Rightarrow> Mutex option" where
  "mutex_acquire Scoped t m = Mutex_lock t m"
| "mutex_acquire ReadScoped t m = None"
| "mutex_acquire WriteScoped t m = None"

fun rw_acquire :: "guard_kind \<Rightarrow> nat \<Rightarrow> RWMutex \<Rightarrow> RWMutex option" where
  "rw_acquire Scoped t m = None"
| "rw_acquire ReadScoped t m = RWMutex_rdlock t m"
| "rw_acquire WriteScoped t m = RWMutex_wrlock t m"

subsection \<open>The guards\<close>

record guard =
  g_kind :: guard_kind
  m_isLocked :: bool

definition ScopedLock_ctor ::
  "(guard_kind \<Rightarrow> nat \<Rightarrow> 'm \<Rightarrow> 'm option) \<Rightarrow> guard_kind \<Rightarrow> nat \<Rightarrow> 'm \<Rightarrow> (guard \<times> 'm) option" where
  "ScopedLock_ctor acq k t m = map_option (\<lambda>m'. (\<lparr>g_kind = k, m_isLocked = True\<rparr>, m')) (acq k t m)"

definition ScopedLock_lock ::
  "(guard_kind \<Rightarrow> nat \<Rightarrow> 'm \<Rightarrow> 'm option) \<Rightarrow> nat \<Rightarrow> guard \<Rightarrow> 'm \<Rightarrow> (guard \<times> 'm) option" where
  "ScopedLock_lock acq t g m =
     (if \<not> m_isLocked g then map_option (\<lambda>m'. (g\<lparr>m_isLocked := True\<rparr>, m')) (acq (g_kind g) t m) else Some (g, m))"

definition ScopedLock_unlock :: "(nat \<Rightarrow> 'm \<Rightarrow> lock_fault + 'm) \<Rightarrow> nat \<Rightarrow> guard \<Rightarrow> 'm \<Rightarrow> lock_fault + (guard \<times> 'm)" where
  "ScopedLock_unlock rel t g m =
     (if m_isLocked g then (case rel t m of Inl e \<Rightarrow> Inl e | Inr m' \<Rightarrow> Inr (g\<lparr>m_isLocked := False\<rparr>, m')) else Inr (g, m))"

definition ScopedLock_dtor :: "(nat \<Rightarrow> 'm \<Rightarrow> lock_fault + 'm) \<Rightarrow> nat \<Rightarrow> guard \<Rightarrow> 'm \<Rightarrow> lock_fault + 'm" where
  "ScopedLock_dtor rel t g m = (case ScopedLock_unlock rel t g m of Inl e \<Rightarrow> Inl e | Inr (g', m') \<Rightarrow> Inr m')"

subsection \<open>Threads that use one lock through guards\<close>

text \<open>Each thread has at most one guard of the lock, as every function of the runtime does; its
  operations come in any order and interleave with those of the other threads.\<close>

record 'm shared =
  lck :: 'm
  guards :: "nat \<Rightarrow> guard option"

inductive guard_runs ::
  "(guard_kind \<Rightarrow> nat \<Rightarrow> 'm \<Rightarrow> 'm option) \<Rightarrow> (nat \<Rightarrow> 'm \<Rightarrow> lock_fault + 'm) \<Rightarrow> 'm \<Rightarrow> 'm shared \<Rightarrow> bool"
  for acq rel m0 where
  start: "guard_runs acq rel m0 \<lparr>lck = m0, guards = Map.empty\<rparr>"
| construct: "guard_runs acq rel m0 s \<Longrightarrow> guards s t = None \<Longrightarrow> ScopedLock_ctor acq k t (lck s) = Some (g, m) \<Longrightarrow>
    guard_runs acq rel m0 (s\<lparr>lck := m, guards := (guards s)(t \<mapsto> g)\<rparr>)"
| lock: "guard_runs acq rel m0 s \<Longrightarrow> guards s t = Some g \<Longrightarrow> ScopedLock_lock acq t g (lck s) = Some (g', m) \<Longrightarrow>
    guard_runs acq rel m0 (s\<lparr>lck := m, guards := (guards s)(t \<mapsto> g')\<rparr>)"
| unlock: "guard_runs acq rel m0 s \<Longrightarrow> guards s t = Some g \<Longrightarrow> ScopedLock_unlock rel t g (lck s) = Inr (g', m) \<Longrightarrow>
    guard_runs acq rel m0 (s\<lparr>lck := m, guards := (guards s)(t \<mapsto> g')\<rparr>)"
| destruct: "guard_runs acq rel m0 s \<Longrightarrow> guards s t = Some g \<Longrightarrow> ScopedLock_dtor rel t g (lck s) = Inr m \<Longrightarrow>
    guard_runs acq rel m0 (s\<lparr>lck := m, guards := (guards s)(t := None)\<rparr>)"

text \<open>The kind in which the guard of a thread says its thread holds the lock.\<close>

definition guard_holds :: "guard option \<Rightarrow> guard_kind option" where
  "guard_holds x = (case x of None \<Rightarrow> None | Some g \<Rightarrow> if m_isLocked g then Some (g_kind g) else None)"

text \<open>What a guard relies on: the kind in which a thread holds the lock.\<close>

locale guarded_lock =
  fixes acq :: "guard_kind \<Rightarrow> nat \<Rightarrow> 'm \<Rightarrow> 'm option"
    and rel :: "nat \<Rightarrow> 'm \<Rightarrow> lock_fault + 'm"
    and free :: 'm
    and valid :: "'m \<Rightarrow> bool"
    and holds :: "'m \<Rightarrow> nat \<Rightarrow> guard_kind option"
  assumes free_valid: "valid free" "holds free = Map.empty"
    and acquired: "valid m \<Longrightarrow> holds m t = None \<Longrightarrow> acq k t m = Some m' \<Longrightarrow> valid m' \<and> holds m' = (holds m)(t \<mapsto> k)"
    and released: "valid m \<Longrightarrow> holds m t = Some k \<Longrightarrow> \<exists>m'. rel t m = Inr m' \<and> valid m' \<and> holds m' = (holds m)(t := None)"
    and unheld_free: "valid m \<Longrightarrow> holds m = Map.empty \<Longrightarrow> m = free"
    and excludes: "valid m \<Longrightarrow> holds m t = Some k \<Longrightarrow> exclusive k \<Longrightarrow> holds m u \<noteq> None \<Longrightarrow> t = u"
begin

definition agree :: "'m shared \<Rightarrow> bool" where
  "agree s \<longleftrightarrow> valid (lck s) \<and> holds (lck s) = guard_holds \<circ> guards s"

lemma agree_holds: "agree s \<Longrightarrow> holds (lck s) t = guard_holds (guards s t)"
  by (simp add: agree_def)

lemma agree_update:
  assumes "agree s" "valid m" "holds m = (holds (lck s))(t := guard_holds x)"
  shows "agree (s\<lparr>lck := m, guards := (guards s)(t := x)\<rparr>)"
  using assms by (auto simp: agree_def fun_eq_iff)

lemma unlock_result:
  assumes "agree s" "guards s t = Some g"
  shows "\<exists>m. ScopedLock_unlock rel t g (lck s) = Inr (g\<lparr>m_isLocked := False\<rparr>, m) \<and> valid m \<and>
    holds m = (holds (lck s))(t := None)"
proof (cases "m_isLocked g")
  case True
  with assms have "holds (lck s) t = Some (g_kind g)" "valid (lck s)"
    by (simp_all add: agree_holds guard_holds_def) (simp add: agree_def)
  from released [OF this(2,1)] True show ?thesis by (auto simp: ScopedLock_unlock_def)
next
  case False
  then have "g\<lparr>m_isLocked := False\<rparr> = g" by simp
  moreover from False assms have "holds (lck s) t = None" "valid (lck s)"
    by (auto simp: agree_holds guard_holds_def) (auto simp: agree_def)
  ultimately show ?thesis using False by (auto simp: ScopedLock_unlock_def fun_upd_idem)
qed

lemma runs_agree: "guard_runs acq rel free s \<Longrightarrow> agree s"
proof (induction rule: guard_runs.induct)
  case start
  then show ?case using free_valid by (simp add: agree_def guard_holds_def fun_eq_iff)
next
  case (construct s t k g m)
  have h: "holds (lck s) t = None" "valid (lck s)" using construct
    by (simp_all add: agree_holds guard_holds_def) (simp add: agree_def)
  from construct have a: "acq k t (lck s) = Some m" "g = \<lparr>g_kind = k, m_isLocked = True\<rparr>"
    by (auto simp: ScopedLock_ctor_def)
  from acquired [OF h(2,1) a(1)] agree_update [OF construct.IH] show ?case by (simp add: a(2) guard_holds_def)
next
  case (lock s t g g' m)
  show ?case
  proof (cases "m_isLocked g")
    case True
    with lock have "g' = g" "m = lck s" by (simp_all add: ScopedLock_lock_def)
    with lock agree_update [OF lock.IH, of "lck s" t "Some g"] show ?thesis
      by (simp add: agree_def fun_upd_idem guard_holds_def)
  next
    case False
    with lock have h: "holds (lck s) t = None" "valid (lck s)"
      by (simp_all add: agree_def guard_holds_def)
    from False lock have a: "acq (g_kind g) t (lck s) = Some m" "g' = g\<lparr>m_isLocked := True\<rparr>"
      by (auto simp: ScopedLock_lock_def)
    from acquired [OF h(2,1) a(1)] agree_update [OF lock.IH] show ?thesis by (simp add: a(2) guard_holds_def)
  qed
next
  case (unlock s t g g' m)
  from unlock_result [OF unlock.IH unlock.hyps(2)] unlock.hyps(3)
  have "g' = g\<lparr>m_isLocked := False\<rparr>" "valid m" "holds m = (holds (lck s))(t := None)" by auto
  with agree_update [OF unlock.IH, of m t "Some g'"] show ?case by (simp add: guard_holds_def)
next
  case (destruct s t g m)
  from unlock_result [OF destruct.IH destruct.hyps(2)] destruct.hyps(3)
  have "valid m" "holds m = (holds (lck s))(t := None)" by (auto simp: ScopedLock_dtor_def)
  with agree_update [OF destruct.IH, of m t None] show ?case by (simp add: guard_holds_def)
qed

lemma guards_correct:
  assumes "guard_runs acq rel free s"
  shows guards_exclude: "\<lbrakk>guards s t = Some g; m_isLocked g; exclusive (g_kind g); guards s u = Some g'; m_isLocked g'\<rbrakk> \<Longrightarrow> t = u"
    and guards_end: "guards s t = Some g \<Longrightarrow> \<exists>m. ScopedLock_dtor rel t g (lck s) = Inr m"
    and guards_restore: "\<forall>t g. guards s t = Some g \<longrightarrow> \<not> m_isLocked g \<Longrightarrow> lck s = free"
proof -
  note a = runs_agree [OF assms]
  have v: "valid (lck s)" using a by (simp add: agree_def)
  show "t = u" if "guards s t = Some g" "m_isLocked g" "exclusive (g_kind g)" "guards s u = Some g'" "m_isLocked g'"
    using excludes [OF v, of t "g_kind g" u] that by (simp add: agree_holds [OF a] guard_holds_def)
  show "\<exists>m. ScopedLock_dtor rel t g (lck s) = Inr m" if "guards s t = Some g"
    using unlock_result [OF a that] by (auto simp: ScopedLock_dtor_def)
  show "lck s = free" if "\<forall>t g. guards s t = Some g \<longrightarrow> \<not> m_isLocked g"
  proof (rule unheld_free [OF v])
    show "holds (lck s) = Map.empty" using that
      by (auto simp: fun_eq_iff agree_holds [OF a] guard_holds_def split: option.split)
  qed
qed

end

text \<open>Who holds a mutex, and a read-write lock.\<close>

definition mutex_holds :: "Mutex \<Rightarrow> nat \<Rightarrow> guard_kind option" where
  "mutex_holds m t = (if m = Some t then Some Scoped else None)"

definition rw_valid :: "RWMutex \<Rightarrow> bool" where
  "rw_valid m \<longleftrightarrow> distinct (rw_readers m) \<and> (rw_writer m \<noteq> None \<longrightarrow> rw_readers m = [])"

definition rw_holds :: "RWMutex \<Rightarrow> nat \<Rightarrow> guard_kind option" where
  "rw_holds m t = (if rw_writer m = Some t then Some WriteScoped else if t \<in> set (rw_readers m) then Some ReadScoped else None)"

interpretation mutex: guarded_lock mutex_acquire Mutex_unlock Mutex_ctor "\<lambda>m. True" mutex_holds
proof unfold_locales
  show "True \<and> mutex_holds m' = (mutex_holds m)(t \<mapsto> k)" if "mutex_acquire k t m = Some m'" for m m' t k
    using that by (cases k) (auto simp: Mutex_lock_def mutex_holds_def split: option.splits)
qed (auto simp: Mutex_ctor_def mutex_holds_def Mutex_unlock_def fun_eq_iff split: if_splits option.splits)

interpretation rw: guarded_lock rw_acquire RWMutex_unlock RWMutex_ctor rw_valid rw_holds
proof unfold_locales
  show "rw_valid m' \<and> rw_holds m' = (rw_holds m)(t \<mapsto> k)"
    if "rw_valid m" "rw_holds m t = None" "rw_acquire k t m = Some m'" for m m' t k
    using that by (cases k) (auto simp: RWMutex_rdlock_def RWMutex_wrlock_def rw_holds_def rw_valid_def split: if_splits)
  show "\<exists>m'. RWMutex_unlock t m = Inr m' \<and> rw_valid m' \<and> rw_holds m' = (rw_holds m)(t := None)"
    if "rw_valid m" "rw_holds m t = Some k" for m t k
    using that by (auto simp: RWMutex_unlock_def rw_holds_def rw_valid_def split: if_splits)
  show "m = RWMutex_ctor" if "rw_holds m = Map.empty" for m
  proof -
    have "rw_writer m \<noteq> Some t \<and> t \<notin> set (rw_readers m)" for t
      using fun_cong [OF that, of t] by (simp add: rw_holds_def split: if_splits)
    then have "rw_writer m = None" "rw_readers m = []"
      by (auto simp: not_Some_eq [symmetric]) (metis list.exhaust list.set_intros(1))
    then show ?thesis by (simp add: RWMutex_ctor_def)
  qed
qed (auto simp: RWMutex_ctor_def rw_valid_def rw_holds_def exclusive_def split: if_splits)

text \<open>C39. The guards keep a read-write lock. Whatever the threads do with one guard each, in whatever order:
  while a write guard is locked no other guard is; the destructor of every guard ends without an error; and
  when no guard is locked the lock is free, so that any thread can lock it.\<close>

theorem rw_guards_exclude:
  assumes "guard_runs rw_acquire RWMutex_unlock RWMutex_ctor s" "guards s t = Some g"
  shows "(m_isLocked g \<and> g_kind g = WriteScoped \<longrightarrow> (\<forall>u g'. guards s u = Some g' \<and> m_isLocked g' \<longrightarrow> u = t)) \<and>
     (\<exists>m. ScopedLock_dtor RWMutex_unlock t g (lck s) = Inr m) \<and>
     ((\<forall>u g'. guards s u = Some g' \<longrightarrow> \<not> m_isLocked g') \<longrightarrow> (\<forall>v k. k \<noteq> Scoped \<longrightarrow> rw_acquire k v (lck s) \<noteq> None))"
proof -
  note c = rw.guards_correct [OF assms(1)]
  have "u = t" if "m_isLocked g" "g_kind g = WriteScoped" "guards s u = Some g'" "m_isLocked g'" for u g'
    using c(1) [OF assms(2) that(1) _ that(3,4)] that(2) by (simp add: exclusive_def)
  moreover have "\<exists>m. ScopedLock_dtor RWMutex_unlock t g (lck s) = Inr m" by (rule c(2) [OF assms(2)])
  moreover have "rw_acquire k v RWMutex_ctor \<noteq> None" if "k \<noteq> Scoped" for k v
    using that by (cases k) (simp_all add: RWMutex_rdlock_def RWMutex_wrlock_def RWMutex_ctor_def)
  moreover have "lck s = RWMutex_ctor" if "\<forall>u g'. guards s u = Some g' \<longrightarrow> \<not> m_isLocked g'" by (rule c(3) [OF that])
  ultimately show ?thesis by simp
qed

theorem rw_guards_exclude_witness:
  "\<exists>s m. guard_runs rw_acquire RWMutex_unlock RWMutex_ctor s \<and>
     guards s = [7 \<mapsto> \<lparr>g_kind = WriteScoped, m_isLocked = True\<rparr>] \<and>
     ScopedLock_dtor RWMutex_unlock 7 \<lparr>g_kind = WriteScoped, m_isLocked = True\<rparr> (lck s) = Inr m"
proof -
  let ?g = "\<lparr>g_kind = WriteScoped, m_isLocked = True\<rparr>"
  let ?s0 = "\<lparr>lck = RWMutex_ctor, guards = Map.empty\<rparr>"
  let ?m = "\<lparr>rw_readers = [], rw_writer = Some 7\<rparr>"
  have "ScopedLock_ctor rw_acquire WriteScoped 7 (lck ?s0) = Some (?g, ?m)" "guards ?s0 7 = None"
    by (simp_all add: ScopedLock_ctor_def RWMutex_wrlock_def RWMutex_ctor_def)
  from guard_runs.construct [OF guard_runs.start this(2,1)]
  have r: "guard_runs rw_acquire RWMutex_unlock RWMutex_ctor \<lparr>lck = ?m, guards = [7 \<mapsto> ?g]\<rparr>" by simp
  have "\<exists>m. ScopedLock_dtor RWMutex_unlock 7 ?g ?m = Inr m" using rw_guards_exclude [OF r, of 7 ?g] by simp
  with r show ?thesis by (intro exI [of _ "\<lparr>lck = ?m, guards = [7 \<mapsto> ?g]\<rparr>"]) simp
qed

text \<open>The same for a mutex: two locked guards are one.\<close>

lemma mutex_guards_exclude:
  assumes "guard_runs mutex_acquire Mutex_unlock Mutex_ctor s" "guards s t = Some g" "m_isLocked g" "g_kind g = Scoped"
    and "guards s u = Some g'" "m_isLocked g'"
  shows "t = u"
  using mutex.guards_correct(1) [OF assms(1-3) _ assms(5,6)] assms(4) by (simp add: exclusive_def)

text \<open>The limit of the guards: a thread with two write guards of one lock. The second finds
  \<open>EDEADLK\<close>, which \<open>RWMutex\<close> ignores, and its destructor unlocks the lock of the first, so that another
  thread gets in.\<close>

lemma nested_write_guards_let_others_in:
  "let locked = \<lparr>g_kind = WriteScoped, m_isLocked = True\<rparr>; m = \<lparr>rw_readers = [], rw_writer = Some 1\<rparr> in
     ScopedLock_ctor rw_acquire WriteScoped 1 RWMutex_ctor = Some (locked, m) \<and>
     ScopedLock_ctor rw_acquire WriteScoped 1 m = Some (locked, m) \<and>
     ScopedLock_dtor RWMutex_unlock 1 locked m = Inr RWMutex_ctor \<and>
     ScopedLock_ctor rw_acquire WriteScoped 2 RWMutex_ctor = Some (locked, m\<lparr>rw_writer := Some 2\<rparr>)"
  by (simp add: ScopedLock_ctor_def ScopedLock_dtor_def ScopedLock_unlock_def RWMutex_wrlock_def RWMutex_unlock_def
      RWMutex_ctor_def)

subsection \<open>Threads\<close>

text \<open>An exception is its message. \<open>m_id\<close> is written by the new thread, not by the constructor; the
  two thread-local variables of a thread are \<open>locals\<close>.\<close>

record 'cb Thread =
  m_id :: "int option"
  m_thread :: bool
  m_cb :: "'cb option"
  m_name :: string

record locals =
  cur_thread :: bool
  cur_thread_name :: string

definition Thread_ctor :: "'cb \<Rightarrow> string \<Rightarrow> bool \<Rightarrow> string + 'cb Thread" where
  "Thread_ctor cb name created =
     (let t = \<lparr>m_id = None, m_thread = True, m_cb = Some cb, m_name = (if name = [] then ''UNKNOWN'' else name)\<rparr>
      in if \<not> created then Inl ''pthread_create'' else Inr t)"

definition Thread_run :: "int \<Rightarrow> 'cb Thread \<Rightarrow> 'cb option \<times> 'cb Thread \<times> locals" where
  "Thread_run tid t = (m_cb t, t\<lparr>m_id := Some tid, m_cb := None\<rparr>, \<lparr>cur_thread = True, cur_thread_name = m_name t\<rparr>)"

definition Thread_dtor :: "'cb Thread \<Rightarrow> bool" where
  "Thread_dtor t = m_thread t"

definition Thread_join :: "bool \<Rightarrow> 'cb Thread \<Rightarrow> string + 'cb Thread" where
  "Thread_join joined t =
     (if m_thread t then if \<not> joined then Inl ''pthread_join'' else Inr (t\<lparr>m_thread := False\<rparr>) else Inr t)"

definition Thread_SetName :: "string \<Rightarrow> 'cb Thread \<Rightarrow> locals \<Rightarrow> 'cb Thread \<times> locals" where
  "Thread_SetName name t l =
     (if name = [] then (t, l)
      else (if cur_thread l then t\<lparr>m_name := name\<rparr> else t, l\<lparr>cur_thread_name := name\<rparr>))"

text \<open>A thread object runs its callback once, knows its id only once its thread has run, and is either
  joined or detached.\<close>

lemma thread_life:
  assumes "Thread_ctor cb name True = Inr t"
  shows "m_id t = None" "fst (Thread_run tid t) = Some cb" "m_id (fst (snd (Thread_run tid t))) = Some tid"
    "fst (Thread_run tid (fst (snd (Thread_run tid t)))) = None"
    "Thread_dtor t" "Thread_join True t = Inr t' \<Longrightarrow> \<not> Thread_dtor t' \<and> Thread_join ok t' = Inr t'"
  using assms by (auto simp: Thread_ctor_def Thread_run_def Thread_dtor_def Thread_join_def Let_def)

end
