(* ===== verification/IORace.thy ===== *)
theory IORace
  imports IOManager
begin

text \<open>
  \<open>IOManager::addEvent\<close> (src/fiber/iomanager.cpp) looks at the size of the table under the read lock, gives
  the lock up and grows the table under the write lock, without looking again. Theory IOManager runs the
  operation as one step; here its two critical sections are steps of their own, so that another thread can
  come between them.
\<close>

definition growth_due :: "int \<Rightarrow> 'cb IOManager \<Rightarrow> bool" where
  "growth_due fd io \<longleftrightarrow> \<not> int (length (m_fdContexts io)) > fd"

definition grow_contexts :: "int \<Rightarrow> 'cb IOManager \<Rightarrow> 'cb IOManager" where
  "grow_contexts fd io = io\<lparr>m_fdContexts := contextResize (nat (fd * 3 div 2)) (m_fdContexts io)\<rparr>"

lemma length_contextResize [simp]: "length (contextResize n cs) = n"
  by (simp add: contextResize_def)

text \<open>The operation is the two sections in a row and the registration, which finds the descriptor in the table.\<close>

lemma addEvent_in_two_sections:
  assumes "2 \<le> fd"
  shows "addEvent fd event cb fiber running io =
    (if growth_due fd io then addEvent fd event cb fiber running (grow_contexts fd io)
     else addEvent fd event cb fiber running io)"
proof (cases "growth_due fd io")
  case True
  have "fd < int (nat (fd * 3 div 2))" using assms by linarith
  then have g: "int (length (m_fdContexts (grow_contexts fd io))) > fd" by (simp add: grow_contexts_def)
  from True have n: "\<not> int (length (m_fdContexts io)) > fd" by (simp add: growth_due_def)
  have f: "io_scheduler (grow_contexts fd io) = io_scheduler io" by (simp add: grow_contexts_def)
  show ?thesis
    unfolding if_P [OF True]
    by (simp only: addEvent_def if_P [OF g] if_not_P [OF n] f) (simp only: grow_contexts_def)
qed simp

text \<open>What a successful registration leaves.\<close>

lemma addEvent_registered:
  assumes "addEvent fd event cb fiber running io = Inr (0, io')" "growth_due fd io"
  shows "\<exists>c. m_fdContexts io' = (contextResize (nat (fd * 3 div 2)) (m_fdContexts io))[nat fd := c]"
    "m_pendingEventCount io' = m_pendingEventCount io + 1" "interest io' fd \<noteq> None"
    "refused io' = refused io" "tickle_fd io' = tickle_fd io"
  using assms
  by (auto simp: addEvent_def growth_due_def Let_def epoll_ctl_def put_ctx_def elim!: bindR_InrE
      split: if_splits prod.splits) (rule exI, rule refl)+

lemma events_newFdContext [simp]: "fc_events (newFdContext fd) = 0"
  by (simp add: newFdContext_def EV_NONE_def)

lemma contextResize_new: "length cs \<le> k \<Longrightarrow> k < n \<Longrightarrow> contextResize n cs ! k = newFdContext (int k)"
  by (simp add: contextResize_def nth_append)

text \<open>Growing, changing an entry above \<open>n\<close> and resizing to \<open>n\<close> is resizing to \<open>n\<close>.\<close>

lemma contextResize_cut:
  assumes "length cs \<le> n" "n \<le> k" "n \<le> i"
  shows "contextResize n ((contextResize k cs)[i := c]) = contextResize n cs"
proof -
  have u: "[length cs..<k] = [length cs..<n] @ [n..<k]" using assms(1,2)
    by (metis le_Suc_ex upt_add_eq_append)
  have t: "take n ((contextResize k cs)[i := c]) = contextResize n cs"
    using assms by (simp add: contextResize_def u)
  have "contextResize n xs = take n xs" if "n \<le> length xs" for xs
    using that by (simp add: contextResize_def)
  from this [of "(contextResize k cs)[i := c]"] assms(2) t show ?thesis by simp
qed

text \<open>C33. Two threads that register for new descriptors \<open>a\<close> and \<open>b\<close>: the first finds the table too small for
  \<open>a\<close>; before it takes the write lock the second registers its event for the larger \<open>b\<close>; then the first
  resizes the table for \<open>a\<close>, which cuts \<open>b\<close> off again. The second thread's waiter is gone from the table:
  neither \<open>delEvent\<close> nor \<open>cancelEvent\<close> nor \<open>cancelAll\<close> finds it, so that no timeout and no close wakes it,
  it stays counted as pending, and nobody can register for \<open>b\<close> any more.\<close>

theorem concurrent_growth_loses_waiter:
  assumes "io_ok io" "growth_due a io" "0 \<le> a" "a * 3 div 2 \<le> b" "b \<noteq> tickle_fd io"
    and other: "addEvent b event cb fiber running io = Inr (0, iob)"
    and first: "ioa = grow_contexts a iob"
  shows "waiters ioa = waiters io \<and> m_pendingEventCount ioa = word_of_nat (size (waiters io)) + 1 \<and>
    delEvent b e ioa = Inr (False, ioa) \<and> cancelEvent b e ioa = Inr (False, ioa) \<and> cancelAll b ioa = Inr (False, ioa) \<and>
    (e = EV_READ \<or> e = EV_WRITE \<longrightarrow> (\<exists>io3. addEvent b e cb' fiber' running' ioa = Inr (-1, io3)))"
proof -
  let ?cs = "m_fdContexts io" and ?na = "nat (a * 3 div 2)" and ?nb = "nat (b * 3 div 2)"
  have a: "32 \<le> length ?cs" "int (length ?cs) \<le> a" using io_okD(1) [OF assms(1)] assms(2) by (simp_all add: growth_due_def)
  then have n: "length ?cs \<le> ?na" "?na \<le> nat b" "?na \<le> ?nb" "0 \<le> b" "2 \<le> b" "nat b < ?nb" "int (nat b) = b"
    using assms(4) by linarith+
  have due: "growth_due b io" using a n by (simp add: growth_due_def)
  note r = addEvent_registered [OF other due]
  from r(1) obtain c where c: "m_fdContexts iob = (contextResize ?nb ?cs)[nat b := c]" by blast
  have t: "m_fdContexts ioa = contextResize ?na ?cs"
    unfolding first grow_contexts_def c contextResize_cut [OF n(1,3,2)] by simp
  have w: "waiters ioa = waiters io"
    using contextResize_ctx(2) [OF n(1)] t by (simp add: waiters_def)
  have p: "m_pendingEventCount ioa = word_of_nat (size (waiters io)) + 1"
    using r(2) io_okD(5) [OF assms(1)] by (simp add: first grow_contexts_def)
  have len: "int (length (m_fdContexts ioa)) \<le> b" using n assms(4) by (simp add: t)
  then have s: "delEvent b e ioa = Inr (False, ioa)" "cancelEvent b e ioa = Inr (False, ioa)" "cancelAll b ioa = Inr (False, ioa)"
    by (simp_all add: delEvent_def cancelEvent_def cancelAll_def)
  have "\<exists>io3. addEvent b e cb' fiber' running' ioa = Inr (-1, io3)"
  proof -
    have i: "interest ioa b \<noteq> None" using r(3) by (simp add: first grow_contexts_def)
    have new: "contextResize ?nb (m_fdContexts ioa) ! nat b = newFdContext b"
      using contextResize_new [of "m_fdContexts ioa" "nat b" ?nb] n(6,7) len by (metis nat_int nat_mono)
    have v: "vec_at (contextResize ?nb (m_fdContexts ioa)) b = Inr (newFdContext b)"
      using \<open>0 \<le> b\<close> n(6) by (simp add: vec_at_def new nat_less_iff)
    have nl: "\<not> int (length (m_fdContexts ioa)) > b" using len by simp
    show ?thesis using i
      unfolding addEvent_def if_not_P [OF nl] Let_def by (simp add: v epoll_ctl_def del: One_nat_def)
  qed
  with w p s show ?thesis by blast
qed

text \<open>The run on a new manager: descriptors 40 and 100.\<close>

definition race_io :: "unit IOManager" where
  "race_io = io_step io0 (addEvent 100 EV_READ None 7 True io0)"

theorem concurrent_growth_loses_waiter_witness:
  "waiters (grow_contexts 40 race_io) = {#} \<and> m_pendingEventCount (grow_contexts 40 race_io) = 1 \<and>
   cancelAll 100 (grow_contexts 40 race_io) = Inr (False, grow_contexts 40 race_io)"
proof -
  have io: "IOManager_ctor True 4 0 1000 = Inr io0" by (simp add: io0_def IOManager_ctor_def)
  from io_ok_ctor [OF this] have ok: "io_ok io0" "waiters io0 = {#}" by simp_all
  have g: "growth_due 40 io0" "tickle_fd io0 = 4" by code_simp+
  have "case addEvent 100 EV_READ None 7 True io0 of Inr (r, _) \<Rightarrow> r = 0 | Inl _ \<Rightarrow> False" by code_simp
  then have "addEvent 100 EV_READ None 7 True io0 = Inr (0, race_io)"
    by (auto simp: race_io_def io_step_def split: sum.splits)
  from concurrent_growth_loses_waiter [OF ok(1) g(1) _ _ _ this refl] g(2) ok(2) show ?thesis by simp
qed
end
