(* ===== verification/IOTickle.thy ===== *)
theory IOTickle
  imports Scheduler IORace
begin

text \<open>
  How an I/O manager wakes its threads (src/fiber/iomanager.cpp over src/fiber/scheduler.cpp). A thread
  without a task runs the idle fiber and blocks in \<open>epoll_wait\<close>; \<open>tickle\<close>, which the I/O manager
  overrides, writes a byte into a pipe that \<open>epoll_wait\<close> watches, if the scheduler counts an idle thread.
  The state is the scheduler of theory Scheduler and the number of bytes in the pipe; what the idle fiber
  does with the events is theory IOManager.
\<close>

subsection \<open>The pipe\<close>

type_synonym 'cb tickled = "'cb Scheduler \<times> nat"

definition isHasIdleThreads :: "'cb Scheduler \<Rightarrow> bool" where
  "isHasIdleThreads s \<longleftrightarrow> m_idleThreadCount s > 0"

definition io_tickle :: "'cb tickled \<Rightarrow> 'cb tickled" where
  "io_tickle w = (case w of (s, bytes) \<Rightarrow> if \<not> isHasIdleThreads s then (s, bytes) else (s, bytes + 1))"

definition OnTimerInsertedAtFront :: "'cb tickled \<Rightarrow> 'cb tickled" where
  "OnTimerInsertedAtFront w = io_tickle w"

text \<open>\<open>Scheduler::scheduler\<close> of an I/O manager, whose \<open>tickle\<close> is the one above.\<close>

definition io_schedule :: "'cb sched_task \<Rightarrow> 'cb tickled \<Rightarrow> 'cb tickled" where
  "io_schedule task w = (case w of (s, bytes) \<Rightarrow>
     (case scheduleNoLock task s of (isNeedTickle, s1) \<Rightarrow> if isNeedTickle then io_tickle (s1, bytes) else (s1, bytes)))"

text \<open>The event of the pipe: the idle fiber reads 256 bytes at a time until the pipe is empty.\<close>

fun read_pipe :: "nat \<Rightarrow> nat list" where
  "read_pipe bytes = (if bytes = 0 then [] else min 256 bytes # read_pipe (bytes - min 256 bytes))"

declare read_pipe.simps [simp del]

definition drain_pipe :: "'cb tickled \<Rightarrow> 'cb tickled" where
  "drain_pipe w = (case w of (s, bytes) \<Rightarrow> (s, bytes - sum_list (read_pipe bytes)))"

lemma drain_pipe_empty: "drain_pipe (s, bytes) = (s, 0)"
proof -
  have "sum_list (read_pipe n) = n" for n
    by (induction n rule: read_pipe.induct) (simp add: read_pipe.simps)
  then show ?thesis by (simp add: drain_pipe_def)
qed

subsection \<open>Blocking\<close>

text \<open>What \<open>epoll_wait\<close> comes back with: events, an interruption by a signal, or another error. The loop
  computes its argument anew each time, from the value it passed before; the list of results is all
  that has happened so far, so that \<open>None\<close> means the thread still blocks.\<close>

datatype epoll_outcome = Events "(int \<times> 32 word) list" | Interrupted | EpollError

fun idle_wait :: "64 word \<Rightarrow> epoll_outcome list \<Rightarrow> int list \<times> (int \<times> 32 word) list option" where
  "idle_wait next_timeout [] = ([wait_time next_timeout], None)"
| "idle_wait next_timeout (r # rs) =
     (case r of
        Interrupted \<Rightarrow> (case idle_wait (word_of_int (wait_time next_timeout)) rs of
                          (ts, evs) \<Rightarrow> (wait_time next_timeout # ts, evs))
      | Events evs \<Rightarrow> ([wait_time next_timeout], Some evs)
      | EpollError \<Rightarrow> ([wait_time next_timeout], Some []))"

lemma wait_time_max: "wait_time next_timeout \<le> 5000"
  by (simp add: wait_time_def)

lemma sint_ucast_small:
  assumes "uint x < 2147483648"
  shows "sint (ucast (x :: 64 word) :: 32 word) = uint x"
proof -
  have "uint (ucast x :: 32 word) = uint x"
    using assms by (simp add: unsigned_ucast_eq take_bit_int_eq_self)
  moreover have "- 2147483648 \<le> uint x" using uint_ge_0 [of x] by linarith
  ultimately show ?thesis using assms signed_take_bit_int_eq_self [of 31 "uint x"] by (simp add: sint_uint)
qed

lemma sint_ucast_large:
  assumes "2147483648 \<le> uint x" "uint x < 4294967296"
  shows "sint (ucast (x :: 64 word) :: 32 word) = uint x - 4294967296"
proof -
  have u: "uint (ucast x :: 32 word) = uint x"
    using assms by (simp add: unsigned_ucast_eq take_bit_int_eq_self)
  have "(uint x - 2147483648 + 4294967296) mod 4294967296 = uint x - 2147483648"
    unfolding mod_add_self2 using assms by (intro mod_pos_pos_trivial) simp_all
  then have "(uint x + 2147483648) mod 4294967296 = uint x - 2147483648" by (simp add: add.commute)
  then have "signed_take_bit 31 (uint x) = uint x - 4294967296"
    using assms by (simp add: signed_take_bit_eq_take_bit_shift take_bit_eq_mod)
  then show ?thesis by (simp add: sint_uint u)
qed

text \<open>How long an idle thread blocks. Every wait is at most 5 seconds, and none is without a limit while
  the next timer is less than \<open>2^31\<close> milliseconds away or there is none. A timer further away, up to
  \<open>2^32\<close>, makes the cast to \<open>int\<close> negative: the first wait has no limit at all, and only a signal or an
  event ends it.\<close>

theorem idle_wait_bounds:
  "(\<forall>t \<in> set (fst (idle_wait next_timeout rs)). t \<le> 5000) \<and>
   (next_timeout = -1 \<or> uint next_timeout < 2147483648 \<longrightarrow> (\<forall>t \<in> set (fst (idle_wait next_timeout rs)). 0 \<le> t)) \<and>
   (2147483648 \<le> uint next_timeout \<and> uint next_timeout < 4294967296 \<longrightarrow> hd (fst (idle_wait next_timeout rs)) < 0)"
proof -
  have max: "\<forall>t \<in> set (fst (idle_wait n rs)). t \<le> 5000" for n
    by (induction n rs rule: idle_wait.induct) (auto simp: wait_time_max split: epoll_outcome.splits prod.splits)
  have small: "0 \<le> wait_time n \<and> uint (word_of_int (wait_time n) :: 64 word) = wait_time n"
    if n: "n = -1 \<or> uint n < 2147483648" for n :: "64 word"
  proof -
    have "0 \<le> wait_time n" using n sint_ucast_small [of n] by (auto simp: wait_time_def)
    then show ?thesis using wait_time_max [of n] by (simp add: uint_word_of_int_eq take_bit_int_eq_self)
  qed
  have nonneg: "\<forall>t \<in> set (fst (idle_wait n rs)). 0 \<le> t" if "n = -1 \<or> uint n < 2147483648" for n
    using that
  proof (induction n rs rule: idle_wait.induct)
    case (1 n)
    then show ?case using small by simp
  next
    case (2 n r rs)
    have "uint (word_of_int (wait_time n) :: 64 word) < 2147483648" using small [OF 2(2)] wait_time_max [of n] by simp
    then show ?case using 2 small [OF 2(2)] by (auto split: epoll_outcome.splits prod.splits)
  qed
  have "hd (fst (idle_wait next_timeout rs)) = wait_time next_timeout"
    by (cases rs) (auto split: epoll_outcome.splits prod.splits)
  moreover have "wait_time next_timeout < 0" if "2147483648 \<le> uint next_timeout" "uint next_timeout < 4294967296"
  proof -
    have "uint (-1 :: 64 word) = 18446744073709551615" by (simp add: unsigned_minus_1_eq_mask mask_eq_exp_minus_1)
    then have "next_timeout \<noteq> -1" using that(2) by auto
    then show ?thesis using sint_ucast_large [OF that] that by (simp add: wait_time_def)
  qed
  ultimately show ?thesis using max nonneg by simp
qed

theorem idle_wait_bounds_witness:
  "fst (idle_wait 3600000 [Interrupted, Interrupted]) = [5000, 5000, 5000] \<and>
   (\<forall>t \<in> set (fst (idle_wait 3600000 [Interrupted, Interrupted])). 0 \<le> t) \<and>
   fst (idle_wait 3000000000 []) = [-1294967296] \<and> hd (fst (idle_wait 3000000000 [])) < 0"
proof -
  have "uint (3600000 :: 64 word) < 2147483648" "2147483648 \<le> uint (3000000000 :: 64 word)"
    "uint (3000000000 :: 64 word) < 4294967296" by simp_all
  moreover have "fst (idle_wait 3600000 [Interrupted, Interrupted]) = [5000, 5000, 5000]"
    "fst (idle_wait 3000000000 []) = [-1294967296]" by code_simp+
  ultimately show ?thesis
    using idle_wait_bounds [of 3600000 "[Interrupted, Interrupted]"] idle_wait_bounds [of 3000000000 "[]"] by blast
qed


subsection \<open>The count of idle threads\<close>

definition idlers :: "'cb Scheduler \<Rightarrow> int set" where
  "idlers s = {t. pc (threads s t) = InIdle}"

definition idle_counted :: "'cb Scheduler \<Rightarrow> bool" where
  "idle_counted s \<longleftrightarrow> finite (idlers s) \<and> m_idleThreadCount s = word_of_nat (card (idlers s))"

lemma idle_counted_same:
  assumes "idle_counted s" "\<And>u. pc (threads s' u) = InIdle \<longleftrightarrow> pc (threads s u) = InIdle" "m_idleThreadCount s' = m_idleThreadCount s"
  shows "idle_counted s'"
proof -
  have "idlers s' = idlers s" using assms(2) by (simp add: idlers_def)
  then show ?thesis using assms(1,3) by (simp add: idle_counted_def)
qed

text \<open>A step of the thread \<open>t\<close>.\<close>

lemma idle_counted_step:
  assumes "idle_counted s" "\<forall>u. u \<noteq> t \<longrightarrow> threads s' u = threads s u"
    "m_idleThreadCount s' = m_idleThreadCount s - (if t \<in> idlers s then 1 else 0) + (if t \<in> idlers s' then 1 else 0)"
  shows "idle_counted s'"
proof -
  obtain A where A: "idlers s - {t} = A" by blast
  have "u \<in> idlers s' - {t} \<longleftrightarrow> u \<in> idlers s - {t}" for u using assms(2) by (cases "u = t") (auto simp: idlers_def)
  then have A': "idlers s' - {t} = A" using A by blast
  have e: "idlers s = (if t \<in> idlers s then insert t A else A)" "idlers s' = (if t \<in> idlers s' then insert t A else A)" "t \<notin> A"
    using A A' by auto
  then have "finite A" using assms(1) by (auto simp: idle_counted_def split: if_splits)
  then show ?thesis using assms(1,3) e unfolding idle_counted_def by (auto split: if_splits)
qed

lemma Fiber_resume_frame:
  assumes "Fiber_resume t f s = Inr s'"
  shows "m_idleThreadCount s' = m_idleThreadCount s" "pc (threads s' u) = pc (threads s u)" "u \<noteq> t \<Longrightarrow> threads s' u = threads s u"
  using assms by (auto simp: Fiber_resume_def SetThis_def put_fiber_def put_thread_def res_simps split: option.splits if_splits)

lemma Fiber_ctor_frame:
  assumes "Fiber_ctor cb b s = (f, s')"
  shows "m_idleThreadCount s' = m_idleThreadCount s" "threads s' = threads s"
  using assms by (auto simp: Fiber_ctor_def put_fiber_def Let_def)

lemma leave_frame:
  assumes "leave t done f s = Inr s'"
  shows "m_idleThreadCount s' = m_idleThreadCount s" "pc (threads s' u) = pc (threads s u)" "u \<noteq> t \<Longrightarrow> threads s' u = threads s u"
  using assms
  by (auto simp: leave_def Fiber_finish_def Fiber_yield_def SetThis_def put_fiber_def put_thread_def Let_def res_simps
      split: option.splits if_splits)

lemma drop_ref_frame:
  assumes "drop_ref t f s = Inr s'"
  shows "m_idleThreadCount s' = m_idleThreadCount s" "pc (threads s' u) = pc (threads s u)" "u \<noteq> t \<Longrightarrow> threads s' u = threads s u"
  using assms
  by (auto simp: drop_ref_def Fiber_dtor_def SetThis_def put_thread_def Let_def res_simps split: option.splits if_splits)

lemma set_pc_frame:
  "m_idleThreadCount (set_pc t p s) = m_idleThreadCount s" "pc (threads (set_pc t p s) t) = p"
  "u \<noteq> t \<Longrightarrow> threads (set_pc t p s) u = threads s u"
  by (simp_all add: set_pc_def put_thread_def)

lemma tickle_frame: "m_idleThreadCount (tickle s) = m_idleThreadCount s" "threads (tickle s) = threads s"
  by (simp_all add: tickle_def)


lemmas switch_frames = Fiber_resume_frame Fiber_ctor_frame leave_frame drop_ref_frame set_pc_frame tickle_frame

lemma take_task_frame:
  assumes "run_take t s = Inr s'" "find_task t (fibers s) (m_tasks s) = Inr (tk, r, rest)"
  shows "(\<forall>u. u \<noteq> t \<longrightarrow> threads s' u = threads s u) \<and> m_idleThreadCount s' = m_idleThreadCount s + (if pc (threads s' t) = InIdle then 1 else 0)"
proof -
  let ?s1 = "if r \<noteq> None then s\<lparr>m_tasks := rest, m_activeThreadCount := m_activeThreadCount s + 1\<rparr> else s"
  obtain s2 where s2: "(if tk then tickle ?s1 else ?s1) = s2" by blast
  have f: "threads s2 = threads s" "m_idleThreadCount s2 = m_idleThreadCount s"
    unfolding s2 [symmetric] by (simp_all add: tickle_frame)
  have take: "run_take t s = (case r of
            Some x \<Rightarrow>
              (case t_fiber x of
                 Some f \<Rightarrow> bindR (Fiber_resume t f s2) (\<lambda>s3. Inr (set_pc t (InFiber f) s3))
               | None \<Rightarrow> (case Fiber_ctor (t_cb x) True s2 of (f, s3) \<Rightarrow>
                   bindR (Fiber_resume t f s3) (\<lambda>s4. Inr (set_pc t (InCb f) s4))))
          | None \<Rightarrow>
              (case idle_fiber (threads s2 t) of None \<Rightarrow> Inl NullDeref
               | Some i \<Rightarrow> (case fibers s2 i of None \<Rightarrow> Inl NullDeref
                 | Some y \<Rightarrow>
                     if f_state y = TERM_state then Inr (set_pc t Exited s2)
                     else bindR (Fiber_resume t i (s2\<lparr>m_idleThreadCount := m_idleThreadCount s2 + 1\<rparr>))
                            (\<lambda>s3. Inr (set_pc t InIdle s3)))))"
    unfolding run_take_def assms(2) Let_def s2 [symmetric] by simp
  show ?thesis
  proof (cases r)
    case None
    then show ?thesis using assms(1) f unfolding take
      by (auto simp: res_simps switch_frames split: option.splits if_splits)
  next
    case (Some x)
    then show ?thesis using assms(1) f unfolding take
      by (cases "t_fiber x") (auto simp: res_simps switch_frames split: prod.splits)
  qed
qed

lemma run_take_counted:
  assumes "idle_counted s" "pc (threads s t) = Loop" "run_take t s = Inr s'"
  shows "idle_counted s'"
proof -
  obtain tk r rest where "find_task t (fibers s) (m_tasks s) = Inr (tk, r, rest)"
    using assms(3) by (auto simp: run_take_def res_simps)
  from take_task_frame [OF assms(3) this] have f: "\<forall>u. u \<noteq> t \<longrightarrow> threads s' u = threads s u"
    "m_idleThreadCount s' = m_idleThreadCount s + (if pc (threads s' t) = InIdle then 1 else 0)" by simp_all
  show ?thesis by (rule idle_counted_step [OF assms(1) f(1)]) (simp add: f(2) idlers_def assms(2))
qed

lemma task_back_frame:
  assumes "leave t done f s = Inr s1" "drop_ref t f (s1\<lparr>m_activeThreadCount := n\<rparr>) = Inr s2"
  shows "m_idleThreadCount s2 = m_idleThreadCount s" "u \<noteq> t \<Longrightarrow> threads s2 u = threads s u"
  using leave_frame [OF assms(1)] drop_ref_frame [OF assms(2)] by simp_all

lemma run_back_counted:
  assumes "idle_counted s" "run_back t done s = Inr s'"
  shows "idle_counted s'"
proof -
  have f: "\<forall>u. u \<noteq> t \<longrightarrow> threads s' u = threads s u" "pc (threads s' t) = Loop"
    "m_idleThreadCount s' = m_idleThreadCount s - (if pc (threads s t) = InIdle then 1 else 0)"
    using assms(2)
    by (cases "pc (threads s t)";
        auto simp: run_back_def res_simps set_pc_frame task_back_frame leave_frame split: option.splits)+
  show ?thesis by (rule idle_counted_step [OF assms(1) f(1)]) (simp add: f(2,3) idlers_def)
qed


lemma external_counted:
  assumes "idle_counted s" "threads s' = threads s" "m_idleThreadCount s' = m_idleThreadCount s"
  shows "idle_counted s'"
  using assms(2,3) by (intro idle_counted_same [OF assms(1)]) simp_all

lemma schedule_frame:
  "threads (schedule task s) = threads s" "m_idleThreadCount (schedule task s) = m_idleThreadCount s"
  by (simp_all add: schedule_def scheduleNoLock_def tickle_def)

lemma GetThis_frame:
  assumes "Fiber_GetThis t s = (f, s')"
  shows "m_idleThreadCount s' = m_idleThreadCount s" "pc (threads s' u) = pc (threads s u)" "u \<noteq> t \<Longrightarrow> threads s' u = threads s u"
  using assms
  by (auto simp: Fiber_GetThis_def Fiber_main_def SetThis_def put_fiber_def put_thread_def Let_def split: option.splits)

lemma idle_counted_ctor:
  assumes "Scheduler_ctor run t n uc empty_sched = Inr s"
  shows "idle_counted s"
proof -
  have "m_idleThreadCount s = 0" using assms
    by (auto simp: Scheduler_ctor_def empty_sched_def Fiber_GetThis_def Fiber_main_def Fiber_ctor_def SetThis_def put_thread_def
        put_fiber_def no_thread_def Let_def res_simps split: if_splits)
  moreover have "idlers s = {}" using sched_ok_ctor [OF assms] by (simp add: idlers_def)
  ultimately show ?thesis by (simp add: idle_counted_def)
qed

lemma run_begin_counted:
  assumes "idle_counted s" "pc (threads s t) = Spawned"
  shows "idle_counted (run_begin idle t s)"
proof (rule idle_counted_step [OF assms(1), of t])
  have "m_idleThreadCount (run_begin idle t s) = m_idleThreadCount s"
    by (auto simp: run_begin_def Fiber_ctor_def put_fiber_def put_thread_def Let_def GetThis_frame(1) split: prod.splits)
  then show "m_idleThreadCount (run_begin idle t s) =
      m_idleThreadCount s - (if t \<in> idlers s then 1 else 0) + (if t \<in> idlers (run_begin idle t s) then 1 else 0)"
    using assms(2) by (simp add: idlers_def run_begin_frame)
qed (simp add: run_begin_frame)

lemma start_counted:
  assumes "idle_counted s" "\<forall>u \<in> set tids. pc (threads s u) = Outside" "sched_start tids s = Inr s'"
  shows "idle_counted s'"
proof -
  have f: "m_idleThreadCount (fold (\<lambda>t. set_pc t Spawned) ts x) = m_idleThreadCount x" for ts and x :: "'a Scheduler"
    by (induction ts arbitrary: x) (simp_all add: set_pc_frame)
  show ?thesis using assms(2,3)
    by (intro idle_counted_same [OF assms(1)]) (auto simp: sched_start_def set_pc_fold f res_simps split: if_splits)
qed

lemma stop_counted:
  assumes "idle_counted s" "pc (threads s t) = Outside" "sched_stop t s = Inr (b, s')"
  shows "idle_counted s'"
proof -
  have p: "m_idleThreadCount ((tickle ^^ n) x) = m_idleThreadCount x" for n and x :: "'a Scheduler"
    by (induction n) (simp_all add: tickle_frame)
  obtain S where S: "stop_tickles (s\<lparr>m_isStopped := True\<rparr>) = S" by blast
  have f: "threads S = threads s" "m_idleThreadCount S = m_idleThreadCount s"
    unfolding S [symmetric] by (simp_all add: stop_tickles_def Let_def tickle_frame p)
  have "(\<forall>u. u \<noteq> t \<longrightarrow> threads s' u = threads s u) \<and> m_idleThreadCount s' = m_idleThreadCount s \<and> pc (threads s' t) \<noteq> InIdle"
    using assms(2,3) f unfolding sched_stop_def Let_def S
    by (auto simp: resume_root_def res_simps set_pc_frame Fiber_resume_frame split: if_splits option.splits)
  then show ?thesis by (intro idle_counted_step [OF assms(1), of t]) (simp_all add: idlers_def assms(2))
qed

text \<open>The count is right in every run.\<close>

lemma sched_runs_counted: "sched_runs P T s \<Longrightarrow> idle_counted s"
proof (induction rule: sched_runs.induct)
  case (take P T s t tk r rest s')
  show ?case by (rule run_take_counted [OF take.IH take.hyps(2,4)])
next
  case (create P T s cb f s')
  show ?case using Fiber_ctor_frame [OF create.hyps(2)] by (intro external_counted [OF create.IH]) simp_all
next
  case (hold P T s t f)
  show ?case by (rule external_counted [OF hold.IH]) simp_all
next
  case (wake P T s f x task v h)
  show ?case by (rule external_counted [OF wake.IH]) (simp_all add: schedule_frame)
next
  case (post P T s task cb v)
  show ?case by (rule external_counted [OF post.IH]) (simp_all add: schedule_frame)
qed (blast intro: idle_counted_ctor start_counted stop_counted run_begin_counted run_back_counted)+


subsection \<open>The end of a manager\<close>

text \<open>\<open>Scheduler::stop\<close> of an I/O manager, with its own \<open>stopping\<close> and \<open>tickle\<close>, up to the switch to the root fiber;
  the flag says whether it went on.\<close>

definition io_stop_tickles :: "'cb tickled \<Rightarrow> 'cb tickled" where
  "io_stop_tickles w =
     (let w2 = (io_tickle ^^ m_threadCount (fst w)) w in if m_rootFiber (fst w2) \<noteq> None then io_tickle w2 else w2)"

definition io_stop :: "int \<Rightarrow> 64 word \<Rightarrow> 'cb tickled \<Rightarrow> 'ev IOManager \<Rightarrow> (bool \<times> 'cb tickled \<times> 'ev IOManager) res" where
  "io_stop t now_ms w io =
     (case w of (s, bytes) \<Rightarrow>
      case io_stopping (sched_stopping s) now_ms io of (stopped, _, mgr) \<Rightarrow>
      if stopped then Inr (False, w, mgr)
      else let s1 = s\<lparr>m_isStopped := True\<rparr> in
        bindR (guardR AssertFailed (if m_useCaller s1 then cur_scheduler (threads s1 t) else \<not> cur_scheduler (threads s1 t)))
          (\<lambda>_. case io_stop_tickles (s1, bytes) of (s2, bytes2) \<Rightarrow>
             bindR (resume_root t s2) (\<lambda>(b, s3). Inr (b, (s3, bytes2), mgr))))"

text \<open>The destructor: it stops the scheduler, closes the descriptors of \<open>epoll\<close> and of the pipe, and deletes the
  contexts. \<open>fds\<close> are the open descriptors.\<close>

definition IOManager_dtor ::
  "int \<Rightarrow> 64 word \<Rightarrow> int \<Rightarrow> int \<times> int \<Rightarrow> int list \<Rightarrow> 'cb tickled \<Rightarrow> 'ev IOManager \<Rightarrow> (int list \<times> 'cb tickled \<times> 'ev IOManager) res" where
  "IOManager_dtor t now_ms m_epfd m_tickleFds fds w io =
     bindR (io_stop t now_ms w io) (\<lambda>(_, w1, mgr).
       Inr (fold removeAll [m_epfd, fst m_tickleFds, snd m_tickleFds] fds, w1, mgr\<lparr>m_fdContexts := []\<rparr>))"

text \<open>A stopping manager writes a byte for every thread and one for the root fiber, if a thread is idle, and
  none if nobody is.\<close>

lemma io_tickle_pow: "(io_tickle ^^ k) (s, p) = (s, if isHasIdleThreads s then p + k else p)"
  by (induction k) (simp_all add: io_tickle_def)

lemma io_stop_tickles_bytes:
  "io_stop_tickles (s, p) =
     (s, if isHasIdleThreads s then p + m_threadCount s + (if m_rootFiber s \<noteq> None then 1 else 0) else p)"
  by (simp add: io_stop_tickles_def io_tickle_pow) (simp add: io_tickle_def)

subsection \<open>Who is woken\<close>

text \<open>The last part of a turn of \<open>run\<close>, when the search, a section of its own under the scheduler's lock, found
  no task; between the two parts other threads run.\<close>

definition go_idle :: "int \<Rightarrow> 'cb Scheduler \<Rightarrow> 'cb Scheduler res" where
  "go_idle t s =
     (case idle_fiber (threads s t) of None \<Rightarrow> Inl NullDeref
      | Some i \<Rightarrow> (case fibers s i of None \<Rightarrow> Inl NullDeref
        | Some y \<Rightarrow>
            if f_state y = TERM_state then Inr (set_pc t Exited s)
            else bindR (Fiber_resume t i (s\<lparr>m_idleThreadCount := m_idleThreadCount s + 1\<rparr>))
                   (\<lambda>s3. Inr (set_pc t InIdle s3))))"

lemma run_take_go_idle:
  assumes "find_task t (fibers s) (m_tasks s) = Inr (tk, None, rest)"
  shows "run_take t s = go_idle t (if tk then tickle s else s)"
  using assms by (cases tk) (simp_all add: run_take_def go_idle_def Let_def)

lemma go_idle_tasks:
  assumes "go_idle t s = Inr s'"
  shows "go_idle t (s\<lparr>m_tasks := xs\<rparr>) = Inr (s'\<lparr>m_tasks := xs\<rparr>)" "m_tasks s' = m_tasks s"
  using assms
  by (auto simp: go_idle_def Fiber_resume_def other_context_def SetThis_def set_pc_def put_fiber_def put_thread_def res_simps
      split: option.splits if_splits)

lemma io_schedule_result:
  assumes "idle_counted s" "card (idlers s) < 2 ^ 64" "t_fiber task \<noteq> None \<or> t_cb task \<noteq> None"
  shows "io_schedule task (s, p) =
    (s\<lparr>m_tasks := m_tasks s @ [task]\<rparr>, if m_tasks s = [] \<and> idlers s \<noteq> {} then p + 1 else p)"
proof -
  have "m_idleThreadCount s = 0 \<longleftrightarrow> idlers s = {}"
    using assms(1,2) by (auto simp: idle_counted_def word_of_nat_eq_0_iff dest: nat_dvd_not_less)
  then show ?thesis using assms(3)
    by (auto simp: io_schedule_def scheduleNoLock_def io_tickle_def isHasIdleThreads_def word_gt_0)
qed


subsection \<open>A sample run\<close>

lemma sd2_runs: "sched_runs {#} {#} sd2" "idlers sd2 = {}"
proof -
  have 0: "sched_runs {#} {#} sd0" by (rule sched_runs.init [OF sd0_facts(1)])
  have 1: "sched_runs {#} {#} sd1" by (rule sched_runs.start [OF 0 _ sd0_facts(3)]) (simp add: sd0_facts(2))
  have p: "pc (threads sd1 10) = Spawned" "m_rootThread sd1 = -1" "pc (threads (run_begin ''idle'' 10 sd1) 11) = Spawned"
    "m_rootThread (run_begin ''idle'' 10 sd1) = -1" "pc (threads sd2 10) = Loop" "pc (threads sd2 11) = Loop" by code_simp+
  have "sched_runs {#} {#} (run_begin ''idle'' 10 sd1)" by (rule sched_runs.begin_run [OF 1 p(1)]) (use p(2) in simp)
  then show "sched_runs {#} {#} sd2" unfolding sd2_def by (rule sched_runs.begin_run [OF _ p(3)]) (use p(4) in simp)
  have "pc (threads sd2 t) \<noteq> InIdle" for t
  proof (cases "t = 10 \<or> t = 11")
    case False
    then have "threads sd2 t = threads sd1 t" by (simp add: sd2_def run_begin_frame)
    then show ?thesis using start_outside [OF sd0_facts(3), of t] False sd0_facts(2) by simp
  qed (use p(5,6) in auto)
  then show "idlers sd2 = {}" by (simp add: idlers_def)
qed


end
