(* ===== verification/Network.thy ===== *)
theory Network
  imports Safety
begin

text \<open>
  All the messages of a cluster. Where theory Election keeps the books of elections, here every call and
  every answer of the three RPCs of raft.cpp is a message in a set: delivered in any order, any number of
  times, or never. A node runs any of its handlers and operations at any time, and may be started again.
  The section ends with the typing of the cluster: what every node and every message in transit satisfies.
\<close>

subsection \<open>Nodes and messages\<close>

datatype packet =
    VoteCallTo nat int RequestVoteArgs
  | VoteAnswer nat RequestVoteReply
  | AppendCall nat int AppendEntriesArgs
  | AppendAnswer nat int AppendEntriesArgs AppendEntriesReply
  | SnapCall nat int InstallSnapshotRequest
  | SnapAnswer nat int InstallSnapshotRequest InstallSnapShotResponse

record Network =
  members :: "nat \<Rightarrow> Raft"
  soup :: "packet set"

definition net_init :: "nat \<Rightarrow> Network" where
  "net_init n = \<lparr>members = (\<lambda>i. node0 n (int i)), soup = {}\<rparr>"

definition goes :: "nat \<Rightarrow> Raft \<Rightarrow> packet set \<Rightarrow> Network \<Rightarrow> Network" where
  "goes i s ps w = w\<lparr>members := (members w)(i := s), soup := soup w \<union> ps\<rparr>"

inductive net_act :: "raft_codec \<Rightarrow> nat \<Rightarrow> Network \<Rightarrow> Network \<Rightarrow> bool" for C n where
  elect: "i < n \<Longrightarrow> doElection C now (members w i) = (cs, t) \<Longrightarrow>
    net_act C n w (goes i t {VoteCallTo i k a |k a. (k, a) \<in> set cs} w)"
| vote: "VoteCallTo i k a \<in> soup w \<Longrightarrow> 0 \<le> k \<Longrightarrow> k < int n \<Longrightarrow>
    RequestVote C now a newRequestVoteReply (members w (nat k)) = Inr (r, t) \<Longrightarrow>
    net_act C n w (goes (nat k) t {VoteAnswer i r} w)"
| voted: "VoteAnswer i r \<in> soup w \<Longrightarrow> i < n \<Longrightarrow>
    sendRequestVote_reply C True r votes (members w i) = Inr (v, hb, t) \<Longrightarrow> net_act C n w (goes i t {} w)"
| heartbeat: "i < n \<Longrightarrow> doHeartBeat now (members w i) = Inr (cs, t) \<Longrightarrow>
    net_act C n w (goes i t {AppendCall i k a |k a. CallAppendEntries k a \<in> set cs} w)"
| append: "AppendCall i k a \<in> soup w \<Longrightarrow> 0 \<le> k \<Longrightarrow> k < int n \<Longrightarrow>
    AppendEntries1 C now a newAppendEntriesReply (members w (nat k)) = Inr (r, t) \<Longrightarrow>
    net_act C n w (goes (nat k) t {AppendAnswer i k a r} w)"
| appended: "AppendAnswer i k a r \<in> soup w \<Longrightarrow> i < n \<Longrightarrow>
    sendAppendEntries_reply True k a r num (members w i) = Inr (num', t) \<Longrightarrow> net_act C n w (goes i t {} w)"
| send_snapshot: "i < n \<Longrightarrow> leaderSendSnapShot_args (members w i) = (a, t) \<Longrightarrow>
    net_act C n w (goes i t {SnapCall i k a} w)"
| install: "SnapCall i k a \<in> soup w \<Longrightarrow> 0 \<le> k \<Longrightarrow> k < int n \<Longrightarrow>
    InstallSnapshot C now a newInstallSnapShotResponse (members w (nat k)) = Inr (r, t) \<Longrightarrow>
    net_act C n w (goes (nat k) t {SnapAnswer i k a r} w)"
| installed: "SnapAnswer i k a r \<in> soup w \<Longrightarrow> i < n \<Longrightarrow>
    leaderSendSnapShot_reply C now True k a r (members w i) = Inr t \<Longrightarrow> net_act C n w (goes i t {} w)"
| apply_logs: "i < n \<Longrightarrow> applierTicker_round (members w i) = Inr t \<Longrightarrow> net_act C n w (goes i t {} w)"

text \<open>What a node does by itself, and what is done to it: its server starts a command or takes a snapshot, or the
  process is started again.\<close>

inductive net_step :: "raft_codec \<Rightarrow> nat \<Rightarrow> Network \<Rightarrow> Network \<Rightarrow> bool" for C n where
  act: "net_act C n w w' \<Longrightarrow> net_step C n w w'"
| command: "i < n \<Longrightarrow> Start C cmd (members w i) = (index, tm, leader, t) \<Longrightarrow> net_step C n w (goes i t {} w)"
| snapshot: "i < n \<Longrightarrow> Snapshot C index data (members w i) = Inr t \<Longrightarrow> net_step C n w (goes i t {} w)"
| restart: "i < n \<Longrightarrow> raft_init C n (int i) (Persister_ctor rf sf) newLockQueue now = Inr t \<Longrightarrow>
    net_step C n w (goes i t {} w)"

lemmas net_elect = net_step.act [OF net_act.elect]
lemmas net_vote = net_step.act [OF net_act.vote]
lemmas net_voted = net_step.act [OF net_act.voted]
lemmas net_heartbeat = net_step.act [OF net_act.heartbeat]
lemmas net_append = net_step.act [OF net_act.append]
lemmas net_appended = net_step.act [OF net_act.appended]
lemmas net_apply_logs = net_step.act [OF net_act.apply_logs]

definition net_reach :: "raft_codec \<Rightarrow> nat \<Rightarrow> Network \<Rightarrow> bool" where
  "net_reach C n = reached (\<lambda>w. w = net_init n) (net_step C n)"

lemma net_reach_init: "net_reach C n (net_init n)"
  by (simp add: net_reach_def reached.first)

lemma net_reach_step: "net_reach C n w \<Longrightarrow> net_step C n w w' \<Longrightarrow> net_reach C n w'"
  unfolding net_reach_def by (rule reached.onward)

subsection \<open>The typing\<close>

text \<open>A node is well-formed, knows its number and the size of the cluster; the entries of an append call
  continue its previous index.\<close>

definition node_typed :: "nat \<Rightarrow> nat \<Rightarrow> Raft \<Rightarrow> bool" where
  "node_typed n i s \<longleftrightarrow> raft_wf s \<and> m_me s = int i \<and> m_peers_size s = n"

fun packet_typed :: "packet \<Rightarrow> bool" where
  "packet_typed (AppendCall i k a) = entries_wf (aea_prevlogindex a) (aea_entries a)"
| "packet_typed (AppendAnswer i k a r) = entries_wf (aea_prevlogindex a) (aea_entries a)"
| "packet_typed p = True"

definition net_typed :: "nat \<Rightarrow> Network \<Rightarrow> bool" where
  "net_typed n w \<longleftrightarrow> (\<forall>i < n. node_typed n i (members w i)) \<and> (\<forall>p \<in> soup w. packet_typed p)"

text \<open>The entries of a heartbeat, whatever the next index of the peer is.\<close>

lemma hb_peer_entries:
  assumes "log_wf s" "hb_peer s i = Inr (CallAppendEntries k a)"
  shows "entries_wf (aea_prevlogindex a) (aea_entries a)"
proof -
  let ?S = "m_lastSnapshotIncludeIndex s"
  from assms(2) obtain nx prev tm es where r: "vec_at (m_nextIndex s) i = Inr nx" "\<not> nx \<le> ?S"
    "getPrevLogInfo s i = Inr (prev, tm)"
    "(if prev \<noteq> ?S then bindR (getSlicesIndexFromLogIndex s prev) (\<lambda>j. Inr (drop (nat (j + 1)) (m_logs s)))
      else Inr (m_logs s)) = Inr es" "aea_prevlogindex a = prev" "aea_entries a = es"
    by (auto simp: hb_peer_def elim!: bindR_InrE split: if_split_asm)
  show ?thesis
  proof (cases "prev = ?S")
    case True
    with r(4) have "es = m_logs s" by simp
    with assms(1) True show ?thesis by (simp add: r(5,6) entries_wf_def log_wf_def)
  next
    case False
    with r(4) have p: "?S < prev" "prev \<le> getLastLogIndex s" "es = drop (nat (prev - ?S)) (m_logs s)"
      by (auto simp: res_simps)
    from log_wf_suffix(1) [OF assms(1) _ p(2)] p(1) show ?thesis by (simp add: r(5,6) p(3))
  qed
qed

lemma doHeartBeat_entries:
  assumes "raft_wf s" "doHeartBeat now s = Inr (cs, t)" "CallAppendEntries k a \<in> set cs"
  shows "entries_wf (aea_prevlogindex a) (aea_entries a)"
proof -
  have "log_wf s" using assms(1) by (simp add: raft_wf_def)
  moreover from assms(2,3) obtain i where "hb_peer s i = Inr (CallAppendEntries k a)"
    by (auto simp: doHeartBeat_def mapR_Inr_iff list_all2_conv_all_nth in_set_conv_nth elim!: bindR_InrE split: if_split_asm)
      metis
  ultimately show ?thesis by (rule hb_peer_entries)
qed

lemma raft_wf_doHeartBeat: "raft_wf s \<Longrightarrow> doHeartBeat now s = Inr (cs, t) \<Longrightarrow> raft_wf t"
  by (auto simp: doHeartBeat_def raft_wf_def log_wf_def getLastLogIndex_def getLastLogIndexAndTerm_def
      elim!: bindR_InrE split: if_split_asm)

lemma net_typed_goes:
  assumes "net_typed n w" "i < n \<Longrightarrow> node_typed n i t" "\<forall>p \<in> ps. packet_typed p"
  shows "net_typed n (goes i t ps w)"
  using assms by (auto simp: net_typed_def goes_def)

text \<open>A step that keeps who a node is, and its invariant, keeps its type.\<close>

definition same_node :: "Raft \<Rightarrow> Raft \<Rightarrow> bool" where
  "same_node s t \<longleftrightarrow> m_me t = m_me s \<and> m_peers_size t = m_peers_size s"

lemma node_typed_step: "node_typed n i s \<Longrightarrow> same_node s t \<Longrightarrow> (raft_wf s \<Longrightarrow> raft_wf t) \<Longrightarrow> node_typed n i t"
  by (simp add: node_typed_def same_node_def)

lemma same_node_role_keeps: "role_keeps s t \<Longrightarrow> same_node s t"
  by (simp add: role_keeps_def same_node_def)

lemmas same_node_step = same_node_role_keeps [OF node_step_role_keeps]

lemma same_node_doElection: "doElection C now s = (cs, t) \<Longrightarrow> same_node s t"
  by (auto simp: doElection_def Let_def same_node_def split: if_split_asm)

lemma same_node_voted: "sendRequestVote_reply C ok r v s = Inr (v', hb, t) \<Longrightarrow> same_node s t"
  by (erule sendRequestVote_reply_cases) (auto simp: same_node_def becomeLeader_fields)

lemma same_node_appended: "sendAppendEntries_reply ok k a r num s = Inr (num', t) \<Longrightarrow> same_node s t"
  by (erule sendAppendEntries_reply_cases) (auto simp: same_node_def split: if_splits)

lemma net_typed_member: "net_typed n w \<Longrightarrow> i < n \<Longrightarrow> node_typed n i (members w i)"
  by (simp add: net_typed_def)

lemma net_typed_packet: "net_typed n w \<Longrightarrow> p \<in> soup w \<Longrightarrow> packet_typed p"
  by (simp add: net_typed_def)

text \<open>One rule for the steps of a node: the node after the step, and what it sends.\<close>

lemma net_typed_node:
  assumes "net_typed n w" "i < n" "same_node (members w i) t" "raft_wf (members w i) \<Longrightarrow> raft_wf t"
    and "\<forall>p \<in> ps. packet_typed p"
  shows "net_typed n (goes i t ps w)"
  using assms node_typed_step [OF net_typed_member [OF assms(1,2)] assms(3,4)] by (intro net_typed_goes) simp_all

lemma net_typed_act: "net_act C n w w' \<Longrightarrow> net_typed n w \<Longrightarrow> net_typed n w'"
proof (induction rule: net_act.induct)
  case (elect i now w cs t)
  then show ?case by (intro net_typed_node) (auto intro: same_node_doElection raft_wf_doElection)
next
  case (vote i k a w now r t)
  then show ?case
    by (intro net_typed_node) (auto intro: same_node_role_keeps [OF role_keeps_RequestVote] raft_wf_RequestVote)
next
  case (voted i r w votes v hb t)
  then show ?case by (intro net_typed_node) (auto intro: same_node_voted raft_wf_sendRequestVote_reply)
next
  case (heartbeat i now w cs t)
  from net_typed_member [OF heartbeat.prems heartbeat.hyps(1)] have wf: "raft_wf (members w i)" by (simp add: node_typed_def)
  from heartbeat show ?case
    by (intro net_typed_node)
      (auto intro: same_node_step [OF node_step.heartbeat] raft_wf_doHeartBeat doHeartBeat_entries [OF wf])
next
  case (append i k a w now r t)
  from net_typed_packet [OF append.prems append.hyps(1)] append show ?case
    by (intro net_typed_node) (auto intro: same_node_step [OF node_step.append] raft_wf_AppendEntries1)
next
  case (appended i k a r w num num' t)
  then show ?case by (intro net_typed_node) (auto intro: same_node_appended raft_wf_sendAppendEntries_reply)
next
  case (send_snapshot i w a t k)
  have "raft_wf (members w i) \<Longrightarrow> raft_wf t" using raft_wf_leaderSendSnapShot_args [of "members w i"] send_snapshot.hyps(2) by simp
  with send_snapshot show ?case by (intro net_typed_node) (auto intro: same_node_step [OF node_step.snap_call])
next
  case (install i k a w now r t)
  then show ?case
    by (intro net_typed_node) (auto intro: same_node_step [OF node_step.install] raft_wf_InstallSnapshot)
next
  case (installed i k a r w now t)
  then show ?case
    by (intro net_typed_node) (auto intro: same_node_step [OF node_step.snap_reply] raft_wf_leaderSendSnapShot_reply)
next
  case (apply_logs i w t)
  then show ?case
    by (intro net_typed_node) (auto intro: same_node_step [OF node_step.apply_round] raft_wf_applierTicker_round)
qed

lemma net_typed_step: "net_step C n w w' \<Longrightarrow> net_typed n w \<Longrightarrow> net_typed n w'"
proof (induction rule: net_step.induct)
  case (act w w')
  then show ?case by (rule net_typed_act)
next
  case (command i cmd w index tm leader t)
  then show ?case by (intro net_typed_node) (auto intro: same_node_step [OF node_step.start] raft_wf_Start)
next
  case (snapshot i index data w t)
  then show ?case by (intro net_typed_node) (auto intro: same_node_step [OF node_step.snapshot] raft_wf_Snapshot)
next
  case (restart i rf sf now t w)
  have "0 \<le> int i" "int i < int n" using restart.hyps(1) by simp_all
  from raft_wf_init [OF restart.hyps(2) this] restart.hyps(2) have "node_typed n i t"
    by (auto simp: node_typed_def raft_init_fresh)
  with restart.prems show ?case by (intro net_typed_goes) simp_all
qed

interpretation net: step_invariant "\<lambda>w. w = net_init n" "net_step C n" "net_typed n" for C n
proof unfold_locales
  show "net_typed n w" if "w = net_init n" for w
    unfolding that by (auto simp: net_typed_def node_typed_def net_init_def raft_wf_node0) (simp_all add: node0_def)
qed (rule net_typed_step)

text \<open>C7. The typing of the cluster is kept by every step: in every run, with every message delivered late,
  twice, out of order or not at all and with nodes started again, each node's log is consecutive, its
  commit index inside the log, its bookkeeping of the peers complete; and the entries of every append
  call in transit continue the index they claim to follow.\<close>

theorem cluster_stays_typed:
  assumes "net_reach C n w"
  shows "(\<forall>i < n. raft_wf (members w i) \<and> m_me (members w i) = int i \<and> m_peers_size (members w i) = n) \<and>
    (\<forall>p \<in> soup w. packet_typed p)"
  using net.always [OF assms [unfolded net_reach_def]] by (simp add: net_typed_def node_typed_def)

subsection \<open>A run\<close>

text \<open>Node 0 of three is elected with the vote of node 1, takes a command and sends it.\<close>

definition run_vote :: RequestVoteArgs where
  "run_vote = \<lparr>rva_term = 1, rva_candidateid = 0, rva_lastlogindex = 0, rva_lastlogterm = 0\<rparr>"

definition run_candidate :: Raft where
  "run_candidate = snd (doElection codec0 0 (node0 3 0))"

definition run_voter :: "RequestVoteReply \<times> Raft" where
  "run_voter = projr (RequestVote codec0 0 run_vote newRequestVoteReply (node0 3 1))"

definition run_leader :: Raft where
  "run_leader = snd (snd (projr (sendRequestVote_reply codec0 True (fst run_voter) 1 run_candidate)))"

definition run_busy :: Raft where
  "run_busy = (case Start codec0 (\<lparr>operation = ''Put'', key = ''k'', opvalue = ''v'', clientId = ''c'', requestId = 1\<rparr>) run_leader
     of (_, _, _, t) \<Rightarrow> t)"

lemma run_facts:
  "(1, run_vote) \<in> set (fst (doElection codec0 0 (node0 3 0)))"
  "RequestVote codec0 0 run_vote newRequestVoteReply (node0 3 1) = Inr run_voter"
  "sendRequestVote_reply codec0 True (fst run_voter) 1 run_candidate = Inr (0, True, run_leader)"
  "Start codec0 (\<lparr>operation = ''Put'', key = ''k'', opvalue = ''v'', clientId = ''c'', requestId = 1\<rparr>) run_leader =
     (1, 1, True, run_busy)"
  "case doHeartBeat 0 run_busy of Inr (cs, t) \<Rightarrow>
      cs \<noteq> [] \<and> (case hd cs of CallAppendEntries k a \<Rightarrow> k = 1 \<and> length (aea_entries a) = 1 | _ \<Rightarrow> False) | Inl _ \<Rightarrow> False"
  by code_simp+


lemma run_reaches_call:
  "\<exists>w a. net_reach codec0 3 w \<and> AppendCall 0 1 a \<in> soup w \<and> length (aea_entries a) = 1"
proof -
  let ?w0 = "net_init 3"
  obtain cs where e: "doElection codec0 0 (node0 3 0) = (cs, run_candidate)" "(1, run_vote) \<in> set cs"
    using run_facts(1) by (cases "doElection codec0 0 (node0 3 0)") (simp add: run_candidate_def)
  let ?w1 = "goes 0 run_candidate {VoteCallTo 0 k a |k a. (k, a) \<in> set cs} ?w0"
  have "net_step codec0 3 ?w0 ?w1" by (rule net_elect [of _ _ _ 0]) (simp_all add: net_init_def e(1))
  from net_reach_step [OF net_reach_init this] have w1: "net_reach codec0 3 ?w1" .
  obtain r t where v: "run_voter = (r, t)" by (cases run_voter)
  let ?w2 = "goes 1 t {VoteAnswer 0 r} ?w1"
  have m1: "members ?w1 (nat 1) = node0 3 1" "VoteCallTo 0 1 run_vote \<in> soup ?w1"
    using e(2) by (simp_all add: goes_def net_init_def)
  have "net_step codec0 3 ?w1 (goes (nat 1) t {VoteAnswer 0 r} ?w1)"
    using run_facts(2) by (intro net_vote [OF m1(2)]) (simp_all add: m1(1) [simplified] v)
  from net_reach_step [OF w1 this] have w2: "net_reach codec0 3 ?w2" by simp
  let ?w3 = "goes 0 run_leader {} ?w2"
  have "net_step codec0 3 ?w2 ?w3"
    using run_facts(3) by (intro net_voted [where i = 0 and r = r]) (simp_all add: goes_def v)
  from net_reach_step [OF w2 this] have w3: "net_reach codec0 3 ?w3" .
  let ?w4 = "goes 0 run_busy {} ?w3"
  have "net_step codec0 3 ?w3 ?w4"
    using run_facts(4) by (intro net_step.command [where i = 0]) (simp_all add: goes_def)
  from net_reach_step [OF w3 this] have w4: "net_reach codec0 3 ?w4" .
  obtain a cs t where h: "doHeartBeat 0 run_busy = Inr (CallAppendEntries 1 a # cs, t)" "length (aea_entries a) = 1"
    using run_facts(5) by (auto split: sum.splits HeartBeatCall.splits list.splits simp: neq_Nil_conv)
  let ?w5 = "goes 0 t {AppendCall 0 k b |k b. CallAppendEntries k b \<in> set (CallAppendEntries 1 a # cs)} ?w4"
  have "net_step codec0 3 ?w4 ?w5"
    by (rule net_heartbeat [of _ _ 0]) (simp_all add: goes_def h(1))
  from net_reach_step [OF w4 this] have "net_reach codec0 3 ?w5" .
  moreover have "AppendCall 0 1 a \<in> soup ?w5" by (simp add: goes_def)
  ultimately show ?thesis using h(2) by blast
qed

theorem cluster_stays_typed_witness:
  "\<exists>w a. net_reach codec0 3 w \<and> AppendCall 0 1 a \<in> soup w \<and> length (aea_entries a) = 1 \<and>
     entries_wf (aea_prevlogindex a) (aea_entries a) \<and> raft_wf (members w 2)"
proof -
  from run_reaches_call obtain w a where w: "net_reach codec0 3 w" "AppendCall 0 1 a \<in> soup w" "length (aea_entries a) = 1"
    by blast
  from cluster_stays_typed [OF w(1)] have "raft_wf (members w 2)" "packet_typed (AppendCall 0 1 a)" using w(2) by auto
  with w show ?thesis by auto
qed


subsection \<open>A refused call\<close>

lemma peers_but_me_iff: "k \<in> set (peers_but_me s) \<longleftrightarrow> 0 \<le> k \<and> k < int (m_peers_size s) \<and> k \<noteq> m_me s"
  by (auto simp: peers_but_me_def image_iff intro!: bexI [of _ "nat k"])

text \<open>A heartbeat does not return while the next index of some peer lies beyond the log's end.\<close>

lemma heartbeat_beyond_end:
  assumes "raft_wf s" "m_status s = Leader" "k \<in> set (peers_but_me s)" "m_nextIndex s ! nat k > getLastLogIndex s + 1"
  shows "\<exists>e. doHeartBeat now s = Inl e"
proof -
  from assms(1) have "log_wf s" "0 \<le> m_lastSnapshotIncludeIndex s" "length (m_nextIndex s) = m_peers_size s"
    by (simp_all add: raft_wf_def)
  moreover from this have "m_lastSnapshotIncludeIndex s \<le> getLastLogIndex s" by (simp add: getLastLogIndex_wf)
  moreover from assms(3) have "0 \<le> k" "k < int (m_peers_size s)" by (simp_all add: peers_but_me_iff)
  ultimately have "hb_peer s k = Inl AssertFailed" using assms(4)
    by (simp add: hb_peer_def getPrevLogInfo_def getSlicesIndexFromLogIndex_def vec_at_def)
  then have "mapR (hb_peer s) (peers_but_me s) \<noteq> Inr ys" for ys
    using assms(3) by (auto simp: mapR_Inr_iff list_all2_conv_all_nth in_set_conv_nth)
  then show ?thesis using assms(2) by (cases "mapR (hb_peer s) (peers_but_me s)") (auto simp: doHeartBeat_def)
qed

text \<open>C8. A refused append call can end the leader. A follower whose log is shorter than the leader expects
  answers with its last \<^emph>\<open>term\<close> plus one as the next index to send; the leader stores it unchecked, and if
  the term is larger than the leader's last index, the next heartbeat runs into an assertion.\<close>

theorem refused_append_aborts_leader:
  assumes "raft_wf l" "m_status l = Leader" "doHeartBeat now l = Inr (cs, l1)" "CallAppendEntries k a \<in> set cs"
    and "m_currentTerm f \<le> m_currentTerm l" "getLastLogIndex f < aea_prevlogindex a"
    and "getLastLogIndex l < getLastLogTerm f"
  shows "\<exists>r f' l2 e. AppendEntries1 C now' a newAppendEntriesReply f = Inr (r, f') \<and>
    sendAppendEntries_reply True k a r num l1 = Inr (num, l2) \<and> doHeartBeat later l2 = Inl e"
proof -
  from assms(2,3) have l1: "l1 = l\<lparr>m_lastResetHeartBeatTime := now\<rparr>"
    "list_all2 (\<lambda>i c. hb_peer l i = Inr c) (peers_but_me l) cs"
    by (auto simp: doHeartBeat_def mapR_Inr_iff elim!: bindR_InrE)
  from l1(2) assms(4) obtain i where i: "i \<in> set (peers_but_me l)" "hb_peer l i = Inr (CallAppendEntries k a)"
    by (auto simp: list_all2_conv_all_nth in_set_conv_nth) metis
  from i(2) have a: "i = k" "aea_term a = m_currentTerm l" by (auto simp: hb_peer_def elim!: bindR_InrE split: if_split_asm)
  let ?r = "newAppendEntriesReply\<lparr>aer_appstate := AppNormal, aer_success := False, aer_term := m_currentTerm l,
      aer_updatenextindex := getLastLogTerm f + 1\<rparr>"
  have f: "\<exists>f'. AppendEntries1 C now' a newAppendEntriesReply f = Inr (?r, f')"
    using assms(5,6) by (auto simp: AppendEntries1_def ae_log_def Let_def a(2) getLastLogIndex_def getLastLogTerm_def
        getLastLogIndexAndTerm_def newAppendEntriesReply_def)
  have len: "length (m_nextIndex l) = m_peers_size l" "0 \<le> getLastLogIndex l" using assms(1)
    by (simp_all add: raft_wf_def getLastLogIndex_wf)
  have k: "0 \<le> k" "k < int (m_peers_size l)" using i(1) a(1) by (simp_all add: peers_but_me_iff)
  let ?l2 = "l1\<lparr>m_nextIndex := (m_nextIndex l)[nat k := getLastLogTerm f + 1]\<rparr>"
  have s: "sendAppendEntries_reply True k a ?r num l1 = Inr (num, ?l2)"
    using assms(2,7) len k by (simp add: sendAppendEntries_reply_def l1(1) newAppendEntriesReply_def vec_put_def
        AppNormal_def Disconnected_def)
  have "raft_wf l1" by (rule raft_wf_doHeartBeat [OF assms(1,3)])
  from raft_wf_sendAppendEntries_reply [OF this s] have "raft_wf ?l2" .
  moreover have "m_status ?l2 = Leader" "k \<in> set (peers_but_me ?l2)" using assms(2) i(1) a(1)
    by (simp_all add: l1(1) peers_but_me_iff)
  moreover have "getLastLogIndex ?l2 = getLastLogIndex l"
    by (simp add: l1(1) getLastLogIndex_def getLastLogIndexAndTerm_def)
  then have "m_nextIndex ?l2 ! nat k > getLastLogIndex ?l2 + 1" using assms(7) len(1) k
    by (simp add: nat_less_iff)
  ultimately obtain e where "doHeartBeat later ?l2 = Inl e" using heartbeat_beyond_end by blast
  with f s show ?thesis by blast
qed


definition late_follower :: Raft where
  "late_follower = (node0 3 2)\<lparr>m_currentTerm := 5, m_logs := [\<lparr>command = ''a'', logterm = 5, logindex = 1\<rparr>]\<rparr>"

definition later_leader :: Raft where
  "later_leader = sample_leader\<lparr>m_currentTerm := 6\<rparr>"

theorem refused_append_aborts_leader_witness:
  "\<exists>a r f' l2 e. AppendEntries1 codec0 0 a newAppendEntriesReply late_follower = Inr (r, f') \<and>
     sendAppendEntries_reply True 2 a r 1 (later_leader\<lparr>m_lastResetHeartBeatTime := 0\<rparr>) = Inr (1, l2) \<and>
     doHeartBeat 0 l2 = Inl e"
proof -
  have "getLastLogIndex later_leader = getLastLogIndex sample_leader"
    by (simp add: later_leader_def getLastLogIndex_def getLastLogIndexAndTerm_def)
  with sample_leader_wf(1) have wf: "raft_wf later_leader" by (simp add: raft_wf_def log_wf_def) (simp add: later_leader_def)
  have b: "m_status later_leader = Leader" "m_currentTerm late_follower \<le> m_currentTerm later_leader"
    "getLastLogIndex later_leader < getLastLogTerm late_follower" by code_simp+
  have "case doHeartBeat 0 later_leader of Inr (cs, t) \<Rightarrow> t = later_leader\<lparr>m_lastResetHeartBeatTime := 0\<rparr> \<and>
      (case cs ! 1 of CallAppendEntries k a \<Rightarrow> k = 2 \<and> getLastLogIndex late_follower < aea_prevlogindex a | _ \<Rightarrow> False) \<and> 1 < length cs | Inl _ \<Rightarrow> False"
    by code_simp
  then obtain cs a where h: "doHeartBeat 0 later_leader = Inr (cs, later_leader\<lparr>m_lastResetHeartBeatTime := 0\<rparr>)"
    "cs ! 1 = CallAppendEntries 2 a" "1 < length cs" "getLastLogIndex late_follower < aea_prevlogindex a"
    by (auto split: sum.splits HeartBeatCall.splits)
  have "CallAppendEntries 2 a \<in> set cs" using h(2,3) by (metis nth_mem)
  from refused_append_aborts_leader [OF wf b(1) h(1) this b(2) h(4) b(3), of codec0 0 1 0] show ?thesis by blast
qed

end
