(* ===== verification/Handover.thy ===== *)
theory Handover
  imports Network
begin

text \<open>
  What the nodes of a cluster hand to their servers. In every run of the network each node pushes the
  commands of its log in the order of their indices, none twice, and keeps them, whatever
  calls, answers and snapshots come in between (src/raftCore/raft.cpp).
\<close>

definition handed :: "Raft \<Rightarrow> (int \<times> string) list" where
  "handed s = map (\<lambda>x. (CommandIndex x, Command x)) (filter CommandValid (m_queue (applyChan s)))"

text \<open>The order of what was handed over, where the node stands, and that a command handed over stays in the
  log until a snapshot covers it. The server takes messages out of the channel; what it has taken is the
  history \<open>h\<close>, which comes before what is still in the channel.\<close>

type_synonym history = "(int \<times> string) list"

definition handed_kept :: "history \<Rightarrow> Raft \<Rightarrow> bool" where
  "handed_kept h s \<longleftrightarrow>
     (\<forall>p \<in> set (h @ handed s). m_lastSnapshotIncludeIndex s < fst p \<longrightarrow> command (entry_at s (fst p)) = snd p)"

definition hands_ok :: "history \<Rightarrow> Raft \<Rightarrow> bool" where
  "hands_ok h s \<longleftrightarrow> sorted_wrt (<) (map fst (h @ handed s)) \<and> (\<forall>p \<in> set (h @ handed s). fst p \<le> m_lastApplied s) \<and>
     m_lastApplied s \<le> max (m_commitIndex s) (m_lastSnapshotIncludeIndex s) \<and> handed_kept h s"

text \<open>Most operations hand over nothing and keep the commands of the log.\<close>

definition commands_kept :: "Raft \<Rightarrow> Raft \<Rightarrow> bool" where
  "commands_kept s t \<longleftrightarrow> (\<exists>suffix. map command (m_logs t) = map command (m_logs s) @ suffix)"

definition hands_nothing :: "Raft \<Rightarrow> Raft \<Rightarrow> bool" where
  "hands_nothing s t \<longleftrightarrow> applyChan t = applyChan s \<and> m_lastApplied t = m_lastApplied s \<and>
     m_lastSnapshotIncludeIndex t = m_lastSnapshotIncludeIndex s \<and> m_commitIndex s \<le> m_commitIndex t \<and> commands_kept s t"

lemma commands_kept_same [simp]: "m_logs t = m_logs s \<Longrightarrow> commands_kept s t"
  by (simp add: commands_kept_def)

lemma commands_kept_append: "m_logs t = m_logs s @ es \<Longrightarrow> commands_kept s t"
  by (simp add: commands_kept_def)

lemma commands_kept_trans: "commands_kept s t \<Longrightarrow> commands_kept t u \<Longrightarrow> commands_kept s u"
  by (auto simp: commands_kept_def)

lemma commands_kept_entry:
  assumes "commands_kept s t" "m_lastSnapshotIncludeIndex t = m_lastSnapshotIncludeIndex s" "log_wf s"
    "m_lastSnapshotIncludeIndex s < k" "k \<le> getLastLogIndex s"
  shows "command (entry_at t k) = command (entry_at s k)"
proof -
  let ?j = "nat (k - m_lastSnapshotIncludeIndex s - 1)"
  from assms(1) obtain suffix where c: "map command (m_logs t) = map command (m_logs s) @ suffix" by (auto simp: commands_kept_def)
  have j: "?j < length (m_logs s)" using assms(3-5) by (simp add: getLastLogIndex_wf)
  have l: "length (m_logs s) \<le> length (m_logs t)" using arg_cong [OF c, of length] by simp
  have "map command (m_logs t) ! ?j = map command (m_logs s) ! ?j" using j by (simp add: c nth_append)
  then show ?thesis using j l assms(2) by (simp add: entry_at_def)
qed

text \<open>What was handed over is counted as applied, and lies in the log.\<close>

lemma hands_ok_applied: "hands_ok h s \<Longrightarrow> m_lastApplied s \<le> k \<Longrightarrow> \<forall>p \<in> set (h @ handed s). fst p \<le> k"
  unfolding hands_ok_def by (meson order_trans)

lemma handed_inside:
  assumes "raft_wf s" "hands_ok h s" "p \<in> set (h @ handed s)" "m_lastSnapshotIncludeIndex s < fst p"
  shows "fst p \<le> m_commitIndex s" "fst p \<le> getLastLogIndex s"
proof -
  have "fst p \<le> m_lastApplied s" using hands_ok_applied [OF assms(2) order_refl] assms(3) by blast
  moreover have "m_lastApplied s \<le> max (m_commitIndex s) (m_lastSnapshotIncludeIndex s)" using assms(2) by (simp add: hands_ok_def)
  ultimately show "fst p \<le> m_commitIndex s" using assms(4) by linarith
  with assms(1) show "fst p \<le> getLastLogIndex s" by (simp add: raft_wf_def)
qed

lemma hands_ok_nothing:
  assumes "raft_wf s" "hands_ok h s" "hands_nothing s t"
  shows "hands_ok h t"
proof -
  have ht: "handed t = handed s" using assms(3) by (simp add: hands_nothing_def handed_def)
  have "handed_kept h t" unfolding handed_kept_def
  proof (intro ballI impI)
    fix p assume p: "p \<in> set (h @ handed t)" "m_lastSnapshotIncludeIndex t < fst p"
    then have q: "p \<in> set (h @ handed s)" "m_lastSnapshotIncludeIndex s < fst p" using assms(3) ht by (simp_all add: hands_nothing_def)
    have "command (entry_at t (fst p)) = command (entry_at s (fst p))"
      using assms(1,3) q(2) handed_inside(2) [OF assms(1,2) q] by (intro commands_kept_entry) (simp_all add: hands_nothing_def raft_wf_def)
    then show "command (entry_at t (fst p)) = snd p" using assms(2) q by (simp add: hands_ok_def handed_kept_def)
  qed
  then show ?thesis using assms(2,3) unfolding hands_ok_def hands_nothing_def ht by auto
qed

lemma hands_nothing_refl [simp]: "hands_nothing s s"
  by (simp add: hands_nothing_def)

lemma hands_nothing_doElection: "doElection C now s = (cs, t) \<Longrightarrow> hands_nothing s t"
  by (auto simp: doElection_def Let_def hands_nothing_def split: if_split_asm)

lemma hands_nothing_RequestVote: "RequestVote C now a r0 s = Inr (r, t) \<Longrightarrow> hands_nothing s t"
  by (auto simp: RequestVote_def Let_def hands_nothing_def res_simps split: if_split_asm)

lemma hands_nothing_voted: "sendRequestVote_reply C ok r v s = Inr (v', hb, t) \<Longrightarrow> hands_nothing s t"
proof (erule sendRequestVote_reply_cases)
  assume "becomeLeader C s = Inr t"
  then show ?thesis by (auto simp: becomeLeader_def Let_def hands_nothing_def split: if_splits)
qed (auto simp: hands_nothing_def)

lemma hands_nothing_doHeartBeat: "doHeartBeat now s = Inr (cs, t) \<Longrightarrow> hands_nothing s t"
  by (auto simp: doHeartBeat_def hands_nothing_def elim!: bindR_InrE split: if_split_asm)

lemma hands_nothing_appended: "sendAppendEntries_reply ok k a r num s = Inr (num', t) \<Longrightarrow> hands_nothing s t"
  by (erule sendAppendEntries_reply_cases) (auto simp: hands_nothing_def split: if_splits)

lemma hands_nothing_snap_args: "leaderSendSnapShot_args s = (a, t) \<Longrightarrow> hands_nothing s t"
  by (auto simp: leaderSendSnapShot_args_def hands_nothing_def split: prod.splits)

lemma hands_nothing_installed: "leaderSendSnapShot_reply C now ok k a r s = Inr t \<Longrightarrow> hands_nothing s t"
  by (erule leaderSendSnapShot_reply_cases) (auto simp: hands_nothing_def)

lemma hands_nothing_Start: "Start C cmd s = (index, tm, leader, t) \<Longrightarrow> hands_nothing s t"
  by (auto simp: Start_def Let_def hands_nothing_def split: if_split_asm intro: commands_kept_append)

text \<open>An append call never shortens the log, so the commit index does not go back.\<close>

lemma ae_entry_last:
  assumes "ae_entry e s = Inr t"
  shows "getLastLogIndex s \<le> getLastLogIndex t \<and> (\<exists>ls. t = s\<lparr>m_logs := ls\<rparr>)"
  using assms
proof (cases rule: ae_entry_cases)
  case append
  then show ?thesis by (auto simp: getLastLogIndex_def getLastLogIndexAndTerm_def Let_def)
next
  case keep
  then show ?thesis by (intro conjI exI [of _ "m_logs s"]) simp_all
next
  case (retag j)
  then have "getLastLogIndex t = getLastLogIndex s"
    by (auto simp: getLastLogIndex_def getLastLogIndexAndTerm_def Let_def nth_list_update)
  with retag show ?thesis by auto
qed

lemma ae_entries_last: "foldR ae_entry es s = Inr t \<Longrightarrow> getLastLogIndex s \<le> getLastLogIndex t \<and> (\<exists>ls. t = s\<lparr>m_logs := ls\<rparr>)"
proof (induction es arbitrary: s)
  case Nil
  then show ?case by (intro conjI exI [of _ "m_logs s"]) simp_all
next
  case (Cons e es)
  then obtain u where u: "ae_entry e s = Inr u" "foldR ae_entry es u = Inr t" by (auto simp: res_simps)
  from ae_entry_last [OF u(1)] Cons.IH [OF u(2)] show ?case by auto
qed

lemma hands_nothing_AppendEntries1:
  assumes "raft_wf s" "AppendEntries1 C now args r0 s = Inr (r, t)"
  shows "hands_nothing s t"
  using assms(2)
proof (cases rule: AppendEntries1_cases)
  case (current s2 t2)
  have wf: "m_commitIndex s \<le> getLastLogIndex s" using assms(1) by (simp add: raft_wf_def)
  have s2: "hands_nothing s s2" "getLastLogIndex s2 = getLastLogIndex s" "m_commitIndex s2 = m_commitIndex s"
    using current(2) by (auto simp: hands_nothing_def getLastLogIndex_def getLastLogIndexAndTerm_def Let_def)
  from current(3) have "hands_nothing s2 t2"
  proof (cases rule: ae_log_cases)
    case (accept s1)
    from ae_entries_last [OF accept(4)] obtain ls where l: "getLastLogIndex s2 \<le> getLastLogIndex s1" "s1 = s2\<lparr>m_logs := ls\<rparr>"
      by blast
    from ae_entries_frame [OF accept(4)] have "commands_kept s2 s1" by (auto simp: commands_kept_def)
    with accept(6) wf s2 l show ?thesis by (auto simp: hands_nothing_def ae_commit_def commands_kept_def)
  qed simp_all
  with s2(1) current(4) show ?thesis by (auto simp: hands_nothing_def commands_kept_def)
qed simp

lemma entry_at_drop:
  assumes "m_logs t = drop (nat (m_lastSnapshotIncludeIndex t - m_lastSnapshotIncludeIndex s)) (m_logs s)"
    "m_lastSnapshotIncludeIndex s < m_lastSnapshotIncludeIndex t" "m_lastSnapshotIncludeIndex t < k" "log_wf s" "k \<le> getLastLogIndex s"
  shows "entry_at t k = entry_at s k"
proof -
  let ?a = "nat (m_lastSnapshotIncludeIndex t - m_lastSnapshotIncludeIndex s)" and ?b = "nat (k - m_lastSnapshotIncludeIndex t - 1)"
  have "nat (k - m_lastSnapshotIncludeIndex s - 1) = ?a + ?b" using assms(2,3) by linarith
  moreover have "?a + ?b < length (m_logs s)" using assms(2-5) by (simp add: getLastLogIndex_wf)
  ultimately show ?thesis unfolding entry_at_def assms(1) by simp
qed

lemma hands_ok_InstallSnapshot:
  assumes "raft_wf s" "hands_ok h s" "InstallSnapshot C now a r0 s = Inr (r, t)"
  shows "hands_ok h t"
proof -
  have "log_wf s" using assms(1) by (simp add: raft_wf_def)
  from assms(3) this show ?thesis
  proof (cases rule: InstallSnapshot_cases)
    case (old s2)
    then have "hands_nothing s t" by (simp add: hands_nothing_def)
    with assms(1,2) show ?thesis by (rule hands_ok_nothing)
  next
    case (install s2 s3)
    have "m_queue (applyChan t) = m_queue (applyChan s) @ [newApplyMsg\<lparr>SnapShotValid := True, Snapshot_data := isr_data a,
        SnapshotTerm := isr_lastsnapshotincludeterm a, SnapshotIndex := isr_lastsnapshotincludeindex a\<rparr>]"
      using install(4,5) by (simp add: lq.contents_push)
    then have ht: "handed t = handed s" by (simp add: handed_def newApplyMsg_def)
    have f: "m_lastApplied t = max (m_lastApplied s) (isr_lastsnapshotincludeindex a)"
      "m_lastSnapshotIncludeIndex t = isr_lastsnapshotincludeindex a" "m_commitIndex s \<le> m_commitIndex t"
      "m_lastSnapshotIncludeIndex s < m_lastSnapshotIncludeIndex t"
      using install(2,4,5) by simp_all
    have "handed_kept h t" unfolding handed_kept_def ht
    proof (intro ballI impI)
      fix p assume p: "p \<in> set (h @ handed s)" "m_lastSnapshotIncludeIndex t < fst p"
      then have q: "m_lastSnapshotIncludeIndex s < fst p" using f(4) by simp
      have e: "fst p \<le> getLastLogIndex s" by (rule handed_inside(2) [OF assms(1,2) p(1) q])
      then have l: "m_logs t = drop (nat (m_lastSnapshotIncludeIndex t - m_lastSnapshotIncludeIndex s)) (m_logs s)"
        using install(4,5) p(2) f(2) by simp
      have "entry_at t (fst p) = entry_at s (fst p)"
        using entry_at_drop [OF l f(4) p(2) \<open>log_wf s\<close> e] .
      then show "command (entry_at t (fst p)) = snd p" using assms(2) p(1) q by (simp add: hands_ok_def handed_kept_def)
    qed
    moreover have "\<forall>p \<in> set (h @ handed s). fst p \<le> m_lastApplied t" by (rule hands_ok_applied [OF assms(2)]) (simp add: f(1))
    moreover have "m_lastApplied t \<le> max (m_commitIndex t) (m_lastSnapshotIncludeIndex t)"
    proof -
      have "m_lastApplied s \<le> max (m_commitIndex s) (m_lastSnapshotIncludeIndex s)" using assms(2) by (simp add: hands_ok_def)
      with f show ?thesis by linarith
    qed
    ultimately show ?thesis using assms(2) unfolding hands_ok_def ht by blast
  qed (use assms(2) in simp)
qed

lemma hands_ok_Snapshot:
  assumes "raft_wf s" "hands_ok h s" "Snapshot C index data s = Inr t"
  shows "hands_ok h t"
proof (cases "m_lastSnapshotIncludeIndex s < index \<and> index \<le> m_commitIndex s")
  case True
  then have t: "t = snapshot_state C index data s" using Snapshot_accepts [OF assms(1)] assms(3) by auto
  have f: "applyChan t = applyChan s" "m_lastApplied t = m_commitIndex s" "m_commitIndex t = m_commitIndex s"
    by (simp_all add: t snapshot_state_def Let_def)
  then have ht: "handed t = handed s" by (simp add: handed_def)
  have "m_lastApplied s \<le> m_commitIndex s" using assms(2) True by (auto simp: hands_ok_def)
  moreover have "handed_kept h t" unfolding handed_kept_def ht
  proof (intro ballI impI)
    fix p assume p: "p \<in> set (h @ handed s)" "m_lastSnapshotIncludeIndex t < fst p"
    have i: "m_lastSnapshotIncludeIndex t = index" by (simp add: t snapshot_state_def Let_def)
    have q: "m_lastSnapshotIncludeIndex s < fst p" using p(2) True i by simp
    have "entry_at t (fst p) = entry_at s (fst p)"
      using snapshot_state_log(3) [OF assms(1), of index "fst p"] True p(2) handed_inside(2) [OF assms(1,2) p(1) q] i t by simp
    then show "command (entry_at t (fst p)) = snd p" using assms(2) p(1) q by (simp add: hands_ok_def handed_kept_def)
  qed
  moreover have "\<forall>p \<in> set (h @ handed s). fst p \<le> m_commitIndex s"
    by (rule hands_ok_applied [OF assms(2) \<open>m_lastApplied s \<le> m_commitIndex s\<close>])
  ultimately show ?thesis using assms(2) f unfolding hands_ok_def ht by simp
next
  case False
  then have "t = s" using Snapshot_rejects [of index s C data] assms(3) by auto
  with assms(2) show ?thesis by simp
qed

lemma hands_ok_round:
  assumes "raft_wf s" "hands_ok h s" "applierTicker_round s = Inr t"
  shows "hands_ok h t"
proof -
  have t: "t = s\<lparr>m_lastApplied := max (m_lastApplied s) (m_commitIndex s),
     applyChan := fold Push (map (apply_msg s) [m_lastApplied s + 1..m_commitIndex s]) (applyChan s)\<rparr>"
    using applierTicker_round_result [OF assms(1)] assms(3) by simp
  have ht: "handed t = handed s @ map (\<lambda>i. (i, command (entry_at s i))) [m_lastApplied s + 1..m_commitIndex s]"
    by (simp add: t handed_def lq.contents_pushes apply_msg_def filter_map o_def)
  have "entry_at t = entry_at s" "m_lastSnapshotIncludeIndex t = m_lastSnapshotIncludeIndex s"
    by (simp_all add: t fun_eq_iff entry_at_def)
  then have k: "handed_kept h t" using assms(2) by (auto simp: hands_ok_def handed_kept_def ht)
  from ht have m: "map fst (h @ handed t) = map fst (h @ handed s) @ [m_lastApplied s + 1..m_commitIndex s]"
    by (simp add: o_def)
  have s: "\<forall>k \<in> set (map fst (h @ handed s)). k \<le> m_lastApplied s" using assms(2) unfolding hands_ok_def by auto
  have "sorted_wrt (<) (map fst (h @ handed t))"
    unfolding m sorted_wrt_append [of _ "map fst (h @ handed s)"] using assms(2) s by (fastforce simp: hands_ok_def)
  moreover have "\<forall>p \<in> set (h @ handed t). fst p \<le> m_lastApplied t"
  proof -
    have "m_lastApplied t = max (m_lastApplied s) (m_commitIndex s)" by (simp add: t)
    then show ?thesis using hands_ok_applied [OF assms(2), of "m_lastApplied t"] unfolding ht by fastforce
  qed
  ultimately show ?thesis using assms(2) k by (auto simp: hands_ok_def t)
qed

lemma hands_ok_init: "raft_init C n me (Persister_ctor rf sf) newLockQueue now = Inr t \<Longrightarrow> hands_ok [] t"
  by (auto simp: raft_init_fresh hands_ok_def handed_kept_def handed_def newLockQueue_def)

text \<open>The histories of all nodes: \<open>hs i\<close> is what the server of node \<open>i\<close> has taken.\<close>

definition all_hand_ok :: "(nat \<Rightarrow> history) \<Rightarrow> nat \<Rightarrow> Network \<Rightarrow> bool" where
  "all_hand_ok hs n w \<longleftrightarrow> net_typed n w \<and> (\<forall>i < n. hands_ok (hs i) (members w i))"

lemma all_hand_ok_goes:
  assumes "all_hand_ok hs n w" "hands_ok (hs i) (members w i) \<and> raft_wf (members w i) \<and> i < n \<Longrightarrow> hands_ok (hs i) t" "i < n"
  shows "\<forall>j < n. hands_ok (hs j) (members (goes i t ps w) j)"
  using assms by (auto simp: all_hand_ok_def goes_def net_typed_def node_typed_def)

lemmas hands_ok_acts = hands_ok_nothing hands_nothing_doElection hands_nothing_RequestVote hands_nothing_voted hands_nothing_doHeartBeat
  hands_nothing_AppendEntries1 hands_nothing_appended hands_nothing_snap_args hands_nothing_installed hands_nothing_Start
  hands_ok_InstallSnapshot hands_ok_Snapshot hands_ok_round

lemma all_hand_ok_act: "net_act C n w w' \<Longrightarrow> all_hand_ok hs n w \<Longrightarrow> all_hand_ok hs n w'"
proof -
  assume st: "net_act C n w w'" and ok: "all_hand_ok hs n w"
  from st ok have "\<forall>j < n. hands_ok (hs j) (members w' j)"
  by (induction rule: net_act.induct) (intro all_hand_ok_goes, assumption, (auto intro: hands_ok_acts) [2])+
  with net_typed_act [OF st] ok show ?thesis by (simp add: all_hand_ok_def)
qed

text \<open>Where nothing is taken, a restart changes nothing in this.\<close>

lemma all_hand_ok_step: "net_step C n w w' \<Longrightarrow> all_hand_ok (\<lambda>i. []) n w \<Longrightarrow> all_hand_ok (\<lambda>i. []) n w'"
proof -
  assume st: "net_step C n w w'" and ok: "all_hand_ok (\<lambda>i. []) n w"
  from st ok have "\<forall>j < n. hands_ok [] (members w' j)"
  proof (induction rule: net_step.induct)
    case (act w w')
    then show ?case using all_hand_ok_act by (fastforce simp: all_hand_ok_def)
  next
    case (command i cmd w index tm leader t)
    then show ?case using all_hand_ok_goes [OF command.prems _ command.hyps(1), of t "{}"] by (auto intro: hands_ok_acts)
  next
    case (snapshot i index data w t)
    then show ?case using all_hand_ok_goes [OF snapshot.prems _ snapshot.hyps(1), of t "{}"] by (auto intro: hands_ok_acts)
  next
    case (restart i rf sf now t w)
    then show ?case using all_hand_ok_goes [OF restart.prems _ restart.hyps(1), of t "{}"] by (auto intro: hands_ok_init)
  qed
  with net_typed_step [OF st] ok show ?thesis by (simp add: all_hand_ok_def)
qed

lemma all_hand_ok_init: "all_hand_ok (\<lambda>i. []) n (net_init n)"
proof -
  have "hands_ok [] (node0 n (int i))" for i by (simp add: hands_ok_def handed_kept_def handed_def node0_def newLockQueue_def)
  then show ?thesis by (auto simp: all_hand_ok_def net_typed_def node_typed_def net_init_def raft_wf_node0) (simp_all add: node0_def)
qed

interpretation hand: step_invariant "\<lambda>w. w = net_init n" "net_step C n" "all_hand_ok (\<lambda>i. []) n" for C n
  by unfold_locales (auto intro: all_hand_ok_step simp: all_hand_ok_init)

lemma all_hand_ok_reach: "net_reach C n w \<Longrightarrow> all_hand_ok (\<lambda>i. []) n w"
  unfolding net_reach_def by (rule hand.always)

end
