(* ===== verification/Divergence.thy ===== *)
theory Divergence
  imports Handover
begin

text \<open>
  Runs of a cluster that can be computed. A schedule is a list of what happens next: a node starts an
  election, sends its heartbeats, takes a command, applies what is committed, or a packet is delivered;
  \<open>play\<close> runs the handlers of raft.cpp accordingly, and every state it computes is reachable in the sense
  of theory Network. The schedule at the end shows that two nodes apply different commands at one index.
\<close>

subsection \<open>Schedules\<close>

datatype happening =
    Elects nat
  | Beats nat
  | Takes nat Op
  | Applies nat
  | Arrives nat int

type_synonym table = "Raft list \<times> packet list"

definition beat_packets :: "nat \<Rightarrow> HeartBeatCall list \<Rightarrow> packet list" where
  "beat_packets i cs = concat (map (\<lambda>c. case c of CallAppendEntries k a \<Rightarrow> [AppendCall i k a] | _ \<Rightarrow> []) cs)"

text \<open>The arrival of a packet; the number is the count of votes, or of acknowledgements, its caller shares
  with the other answers of the round.\<close>

fun arrive :: "packet \<Rightarrow> int \<Rightarrow> Raft list \<Rightarrow> table res" where
  "arrive (VoteCallTo i k a) _ xs =
     bindR (guardR AssertFailed (0 \<le> k \<and> nat k < length xs)) (\<lambda>_.
     bindR (RequestVote codec0 0 a newRequestVoteReply (xs ! nat k)) (\<lambda>(r, t). Inr (xs[nat k := t], [VoteAnswer i r])))"
| "arrive (VoteAnswer i r) votes xs =
     bindR (guardR AssertFailed (i < length xs)) (\<lambda>_.
     bindR (sendRequestVote_reply codec0 True r votes (xs ! i)) (\<lambda>(_, _, t). Inr (xs[i := t], [])))"
| "arrive (AppendCall i k a) _ xs =
     bindR (guardR AssertFailed (0 \<le> k \<and> nat k < length xs)) (\<lambda>_.
     bindR (AppendEntries1 codec0 0 a newAppendEntriesReply (xs ! nat k)) (\<lambda>(r, t). Inr (xs[nat k := t], [AppendAnswer i k a r])))"
| "arrive (AppendAnswer i k a r) num xs =
     bindR (guardR AssertFailed (i < length xs)) (\<lambda>_.
     bindR (sendAppendEntries_reply True k a r num (xs ! i)) (\<lambda>(_, t). Inr (xs[i := t], [])))"
| "arrive _ _ xs = Inr (xs, [])"

definition at_node :: "nat \<Rightarrow> Raft list \<Rightarrow> (Raft \<Rightarrow> (packet list \<times> Raft) res) \<Rightarrow> table res" where
  "at_node i xs f = bindR (guardR AssertFailed (i < length xs)) (\<lambda>_. bindR (f (xs ! i)) (\<lambda>(ps, t). Inr (xs[i := t], ps)))"

fun happen :: "happening \<Rightarrow> table \<Rightarrow> table res" where
  "happen (Elects i) (xs, ps) =
     at_node i xs (\<lambda>s. case doElection codec0 0 s of (cs, t) \<Rightarrow> Inr (map (\<lambda>(k, a). VoteCallTo i k a) cs, t))"
| "happen (Beats i) (xs, ps) = at_node i xs (\<lambda>s. bindR (doHeartBeat 0 s) (\<lambda>(cs, t). Inr (beat_packets i cs, t)))"
| "happen (Takes i cmd) (xs, ps) = at_node i xs (\<lambda>s. case Start codec0 cmd s of (_, _, _, t) \<Rightarrow> Inr ([], t))"
| "happen (Applies i) (xs, ps) = at_node i xs (\<lambda>s. bindR (applierTicker_round s) (\<lambda>t. Inr ([], t)))"
| "happen (Arrives j num) (xs, ps) = bindR (guardR AssertFailed (j < length ps)) (\<lambda>_. arrive (ps ! j) num xs)"

fun play :: "happening list \<Rightarrow> table \<Rightarrow> table res" where
  "play [] w = Inr w"
| "play (h # hs) w = bindR (happen h w) (\<lambda>(xs, ps). play hs (xs, snd w @ ps))"

text \<open>A calm run: no node is started again, no snapshot is taken.\<close>

inductive net_calm :: "raft_codec \<Rightarrow> nat \<Rightarrow> Network \<Rightarrow> Network \<Rightarrow> bool" for C n v where
  init: "net_calm C n v v"
| act: "net_calm C n v w \<Longrightarrow> net_act C n w w' \<Longrightarrow> net_calm C n v w'"
| command: "net_calm C n v w \<Longrightarrow> i < n \<Longrightarrow> Start C cmd (members w i) = (index, tm, leader, t) \<Longrightarrow> net_calm C n v (goes i t {} w)"

lemma net_calm_reach: "net_calm C n v w \<Longrightarrow> net_reach C n v \<Longrightarrow> net_reach C n w"
  by (induction rule: net_calm.induct) (blast intro: net_reach_step net_step.intros)+

text \<open>What the table holds is part of a state a calm run reaches from \<open>v\<close>.\<close>

definition on_table :: "nat \<Rightarrow> Network \<Rightarrow> table \<Rightarrow> bool" where
  "on_table n v T \<longleftrightarrow> (\<exists>w. net_calm codec0 n v w \<and> length (fst T) = n \<and> (\<forall>i < n. members w i = fst T ! i) \<and> set (snd T) \<subseteq> soup w)"

lemma on_table_init: "on_table n (net_init n) (map (\<lambda>i. node0 n (int i)) [0..<n], [])"
  unfolding on_table_def using net_calm.init by (intro exI [of _ "net_init n"]) (auto simp: net_init_def)

lemma on_table_start: "length xs = n \<Longrightarrow> (\<And>i. i < n \<Longrightarrow> members v i = xs ! i) \<Longrightarrow> set ps \<subseteq> soup v \<Longrightarrow> on_table n v (xs, ps)"
  unfolding on_table_def using net_calm.init [of codec0 n v] by (intro exI [of _ v]) simp

lemma on_table_goes:
  assumes "on_table n v (xs, ps)" "i < n" "set qs \<subseteq> rs"
    and "\<And>w. net_calm codec0 n v w \<Longrightarrow> members w i = xs ! i \<Longrightarrow> set ps \<subseteq> soup w \<Longrightarrow> net_calm codec0 n v (goes i t rs w)"
  shows "on_table n v (xs[i := t], ps @ qs)"
proof -
  from assms(1) obtain w where w: "net_calm codec0 n v w" "length xs = n" "\<forall>i < n. members w i = xs ! i" "set ps \<subseteq> soup w"
    by (auto simp: on_table_def)
  have "net_calm codec0 n v (goes i t rs w)" using assms(4) [OF w(1)] w(3,4) assms(2) by blast
  then show ?thesis unfolding on_table_def using w(2-4) assms(2,3)
    by (intro exI [of _ "goes i t rs w"]) (auto simp: goes_def nth_list_update)
qed

text \<open>Each happening is a step of the network.\<close>

lemma on_table_length: "on_table n v (xs, ps) \<Longrightarrow> length xs = n"
  by (auto simp: on_table_def)

lemma at_node_result:
  assumes "at_node i xs f = Inr (ys, qs)"
  obtains t where "i < length xs" "f (xs ! i) = Inr (qs, t)" "ys = xs[i := t]"
  using assms by (auto simp: at_node_def res_simps)

lemma on_table_arrive:
  assumes "on_table n v (xs, ps)" "p \<in> set ps" "arrive p num xs = Inr (ys, qs)"
  shows "on_table n v (ys, ps @ qs)"
proof (cases p)
  case (VoteCallTo i k a)
  with assms(3) obtain r t where r: "0 \<le> k" "nat k < length xs" "RequestVote codec0 0 a newRequestVoteReply (xs ! nat k) = Inr (r, t)"
    "ys = xs[nat k := t]" "qs = [VoteAnswer i r]" by (auto simp: res_simps)
  show ?thesis unfolding r(4,5)
    by (rule on_table_goes [OF assms(1)]) (use r assms(1,2) VoteCallTo in \<open>auto dest: on_table_length intro!: net_calm.act [OF _ net_act.vote]\<close>)
next
  case (VoteAnswer i r)
  with assms(3) obtain v hb t where r: "i < length xs" "sendRequestVote_reply codec0 True r num (xs ! i) = Inr (v, hb, t)"
    "ys = xs[i := t]" "qs = []" by (auto simp: res_simps)
  show ?thesis unfolding r(3,4)
    by (rule on_table_goes [OF assms(1)]) (use r assms(1,2) VoteAnswer in \<open>auto dest: on_table_length intro!: net_calm.act [OF _ net_act.voted]\<close>)
next
  case (AppendCall i k a)
  with assms(3) obtain r t where r: "0 \<le> k" "nat k < length xs" "AppendEntries1 codec0 0 a newAppendEntriesReply (xs ! nat k) = Inr (r, t)"
    "ys = xs[nat k := t]" "qs = [AppendAnswer i k a r]" by (auto simp: res_simps)
  show ?thesis unfolding r(4,5)
    by (rule on_table_goes [OF assms(1)]) (use r assms(1,2) AppendCall in \<open>auto dest: on_table_length intro!: net_calm.act [OF _ net_act.append]\<close>)
next
  case (AppendAnswer i k a r)
  with assms(3) obtain m t where r: "i < length xs" "sendAppendEntries_reply True k a r num (xs ! i) = Inr (m, t)"
    "ys = xs[i := t]" "qs = []" by (auto simp: res_simps)
  show ?thesis unfolding r(3,4)
    by (rule on_table_goes [OF assms(1)]) (use r assms(1,2) AppendAnswer in \<open>auto dest: on_table_length intro!: net_calm.act [OF _ net_act.appended]\<close>)
qed (use assms in auto)

lemma set_beat_packets: "set (beat_packets i cs) = {AppendCall i k a |k a. CallAppendEntries k a \<in> set cs}"
  by (force simp: beat_packets_def split: HeartBeatCall.splits)

lemma on_table_happen:
  assumes "on_table n v (xs, ps)" "happen h (xs, ps) = Inr (ys, qs)"
  shows "on_table n v (ys, ps @ qs)"
proof (cases h)
  case (Elects i)
  with assms(2) obtain cs t where r: "i < length xs" "doElection codec0 0 (xs ! i) = (cs, t)" "ys = xs[i := t]"
    "qs = map (\<lambda>(k, a). VoteCallTo i k a) cs" by (auto elim!: at_node_result split: prod.splits)
  have n: "i < n" using r(1) on_table_length [OF assms(1)] by simp
  show ?thesis unfolding r(3,4)
    by (rule on_table_goes [OF assms(1) n _ net_calm.act [OF _ net_act.elect [OF n]]]) (use r(2) in auto)
next
  case (Beats i)
  with assms(2) obtain cs t where r: "i < length xs" "doHeartBeat 0 (xs ! i) = Inr (cs, t)" "ys = xs[i := t]" "qs = beat_packets i cs"
    by (auto elim!: at_node_result simp: res_simps)
  have n: "i < n" using r(1) on_table_length [OF assms(1)] by simp
  show ?thesis unfolding r(3,4)
    by (rule on_table_goes [OF assms(1) n _ net_calm.act [OF _ net_act.heartbeat [OF n]]]) (use r(2) in \<open>auto simp: set_beat_packets\<close>)
next
  case (Takes i cmd)
  with assms(2) obtain index tm leader t where r: "i < length xs" "Start codec0 cmd (xs ! i) = (index, tm, leader, t)"
    "ys = xs[i := t]" "qs = []" by (auto elim!: at_node_result split: prod.splits)
  have n: "i < n" using r(1) on_table_length [OF assms(1)] by simp
  show ?thesis unfolding r(3,4)
    by (rule on_table_goes [OF assms(1) n _ net_calm.command [OF _ n]]) (use r(2) in auto)
next
  case (Applies i)
  with assms(2) obtain t where r: "i < length xs" "applierTicker_round (xs ! i) = Inr t" "ys = xs[i := t]" "qs = []"
    by (auto elim!: at_node_result simp: res_simps)
  have n: "i < n" using r(1) on_table_length [OF assms(1)] by simp
  show ?thesis unfolding r(3,4)
    by (rule on_table_goes [OF assms(1) n _ net_calm.act [OF _ net_act.apply_logs [OF n]]]) (use r(2) in auto)
next
  case (Arrives j num)
  with assms show ?thesis by (auto simp: res_simps intro: on_table_arrive [where p = "ps ! j"])
qed

lemma on_table_play: "on_table n v (xs, ps) \<Longrightarrow> play hs (xs, ps) = Inr (ys, qs) \<Longrightarrow> on_table n v (ys, qs)"
proof (induction hs arbitrary: xs ps)
  case (Cons h hs)
  from Cons.prems(2) obtain zs rs where z: "happen h (xs, ps) = Inr (zs, rs)" "play hs (zs, ps @ rs) = Inr (ys, qs)"
    by (auto simp: res_simps)
  show ?case by (rule Cons.IH [OF on_table_happen [OF Cons.prems(1) z(1)] z(2)])
qed simp


subsection \<open>What a node hands over\<close>

definition cmd_of :: "string \<Rightarrow> Op" where
  "cmd_of k = \<lparr>operation = ''Put'', key = k, opvalue = ''v'', clientId = ''c'', requestId = 1\<rparr>"

definition start_table :: table where
  "start_table = (map (\<lambda>i. node0 3 (int i)) [0..<3], [])"

lemma table_plays:
  assumes "play hs (xs, ps) = Inr (ys, qs)" "on_table n v (xs, ps)"
  obtains w where "net_calm codec0 n v w" "length ys = n" "\<forall>i < n. members w i = ys ! i" "set qs \<subseteq> soup w"
proof -
  have "on_table n v (ys, qs)" by (rule on_table_play [OF assms(2,1)])
  then show ?thesis by (auto simp: on_table_def intro: that)
qed

lemma start_table_plays:
  assumes "play hs start_table = Inr (xs, ps)"
  obtains w where "net_calm codec0 3 (net_init 3) w" "length xs = 3" "\<forall>i < 3. members w i = xs ! i" "set ps \<subseteq> soup w"
  using table_plays [OF assms [unfolded start_table_def] on_table_init] by blast

text \<open>In every run of a cluster, with messages delayed, lost, doubled and reordered, with snapshots taken
  and installed and nodes started again, each node hands the commands of its log to its server in strictly
  increasing order of their indices, so none twice, and none beyond what it counts as applied; and a
  command it has handed over stays in its log at that index until a snapshot covers it.\<close>

theorem nodes_hand_over_in_order:
  assumes "net_reach C n w" "i < n"
  shows "sorted_wrt (<) (map fst (handed (members w i))) \<and>
    (\<forall>p \<in> set (handed (members w i)). fst p \<le> m_lastApplied (members w i) \<and>
       (m_lastSnapshotIncludeIndex (members w i) < fst p \<longrightarrow>
          fst p \<le> getLastLogIndex (members w i) \<and> command (entry_at (members w i) (fst p)) = snd p))"
proof -
  from all_hand_ok_reach [OF assms(1)] assms(2) have ok: "hands_ok [] (members w i)" "raft_wf (members w i)"
    by (simp_all add: all_hand_ok_def net_typed_def node_typed_def)
  with handed_inside(2) [OF ok(2,1)] show ?thesis by (simp add: hands_ok_def handed_kept_def)
qed

definition plain_schedule :: "happening list" where
  "plain_schedule = [Elects 0, Arrives 0 1, Arrives 2 1, Takes 0 (cmd_of ''a''), Takes 0 (cmd_of ''b''), Beats 0, Arrives 3 1,
     Arrives 5 1, Applies 0]"

theorem nodes_hand_over_in_order_witness:
  "\<exists>w. net_reach codec0 3 w \<and> handed (members w 0) = [(1, ''a''), (2, ''b'')] \<and>
     sorted_wrt (<) (map fst (handed (members w 0))) \<and> m_lastApplied (members w 0) \<ge> 2"
proof -
  have "case play plain_schedule start_table of Inl _ \<Rightarrow> False | Inr (xs, ps) \<Rightarrow> map handed xs = [[(1, ''a''), (2, ''b'')], [], []]"
    by code_simp
  then obtain xs ps where p: "play plain_schedule start_table = Inr (xs, ps)" "map handed xs = [[(1, ''a''), (2, ''b'')], [], []]"
    by (auto split: sum.splits)
  obtain w where w: "net_reach codec0 3 w" "length xs = 3" "members w 0 = xs ! 0"
    using start_table_plays [OF p(1)] net_calm_reach [OF _ net_reach_init] by (metis zero_less_numeral)
  have "map handed xs ! 0 = [(1, ''a''), (2, ''b'')]" unfolding p(2) by simp
  with w have h: "handed (members w 0) = [(1, ''a''), (2, ''b'')]" by simp
  from nodes_hand_over_in_order [OF w(1), of 0] w(1) h show ?thesis by auto
qed

subsection \<open>Two nodes that apply different commands\<close>

definition split_schedule :: "happening list" where
  "split_schedule =
     [Elects 0, Arrives 0 1, Arrives 2 1, Takes 0 (cmd_of ''a''), Takes 0 (cmd_of ''a2''),
      Elects 1, Arrives 4 1, Arrives 5 1, Takes 1 (cmd_of ''b''), Beats 1, Arrives 7 1, Arrives 8 1,
      Beats 1, Arrives 9 1, Applies 0, Applies 1]"

text \<open>State machine safety, the promise of Raft: what two nodes hand to their servers at one index is the
  same command.\<close>

definition state_machine_safe :: "nat \<Rightarrow> Network \<Rightarrow> bool" where
  "state_machine_safe n w \<longleftrightarrow>
     (\<forall>i < n. \<forall>j < n. \<forall>k c d. (k, c) \<in> set (handed (members w i)) \<longrightarrow> (k, d) \<in> set (handed (members w j)) \<longrightarrow> c = d)"

lemma split_run:
  obtains w where "net_calm codec0 3 (net_init 3) w"
    "m_queue (applyChan (members w 0)) = [cmd_msg ''a'' 1]" "m_queue (applyChan (members w 1)) = [cmd_msg ''b'' 1]"
proof -
  have "case play split_schedule start_table of Inl _ \<Rightarrow> False
      | Inr (xs, ps) \<Rightarrow> map (\<lambda>s. m_queue (applyChan s)) xs = [[cmd_msg ''a'' 1], [cmd_msg ''b'' 1], []]"
    by code_simp
  then obtain xs ps where p: "play split_schedule start_table = Inr (xs, ps)"
    "map (\<lambda>s. m_queue (applyChan s)) xs = [[cmd_msg ''a'' 1], [cmd_msg ''b'' 1], []]"
    by (auto split: sum.splits)
  show ?thesis
  proof (rule start_table_plays [OF p(1)])
    fix w assume w: "net_calm codec0 3 (net_init 3) w" "length xs = 3" "\<forall>i < 3. members w i = xs ! i"
    have "map (\<lambda>s. m_queue (applyChan s)) xs ! 0 = [cmd_msg ''a'' 1]"
      "map (\<lambda>s. m_queue (applyChan s)) xs ! 1 = [cmd_msg ''b'' 1]" unfolding p(2) by simp_all
    with w show ?thesis by (intro that [of w]) simp_all
  qed
qed

text \<open>State machine safety fails. In a cluster of three, without any node stopping and with no message
  lost in a way Raft does not tolerate, the leader of term 1 stores two commands it cannot replicate; the
  leader of term 2 stores its own command at index 1, commits it with the third node and sends it to the
  old leader, which keeps its command, changes the term of another entry, answers with success and follows
  the commit index: both nodes hand a command with index 1 to their servers, and the commands differ.\<close>

theorem applied_commands_diverge:
  "\<exists>w. net_reach codec0 3 w \<and> handed (members w 0) = [(1, ''a'')] \<and> handed (members w 1) = [(1, ''b'')] \<and>
     \<not> state_machine_safe 3 w"
proof -
  obtain w where w: "net_calm codec0 3 (net_init 3) w"
    "m_queue (applyChan (members w 0)) = [cmd_msg ''a'' 1]" "m_queue (applyChan (members w 1)) = [cmd_msg ''b'' 1]"
    by (rule split_run)
  then have h: "handed (members w 0) = [(1, ''a'')]" "handed (members w 1) = [(1, ''b'')]"
    by (simp_all add: handed_def)
  moreover have "\<not> state_machine_safe 3 w"
  proof
    assume "state_machine_safe 3 w"
    then have "(1, c) \<in> set (handed (members w 0)) \<longrightarrow> (1, d) \<in> set (handed (members w 1)) \<longrightarrow> c = d" for c d
      unfolding state_machine_safe_def by (metis zero_less_numeral one_less_numeral_iff semiring_norm(77))
    from this [of "''a''" "''b''"] show False by (simp add: h del: One_nat_def)
  qed
  ultimately show ?thesis using net_calm_reach [OF w(1) net_reach_init] by blast
qed

end
