(* ===== verification/Node.thy ===== *)
theory Node
  imports KvServer RpcChannel
begin

text \<open>
  The start of a node: the constructor of the server (src/raftCore/KvServer.cpp), from the persisted files
  and the configuration file to the loop that applies commands. It composes the reading of the
  configuration (theory Config), the connections to the other nodes (RpcChannel), the initialisation of
  the raft node (RaftState) and of the skip list. The thread that runs the provider is theory RpcProvider,
  the loop at the end, which never returns, is \<open>apply_turns\<close> of theory KvServer. The result of
  \<open>rand()\<close>, the clock and the operating system are arguments; \<open>started\<close> keeps the seconds the
  constructor slept.
\<close>

record 'w started =
  st_server :: KvServer
  st_peers :: "MprpcChannel option list"
  st_sleeps :: "nat list"
  st_host :: "'w host"

fun connect_nodes ::
  "'w net \<Rightarrow> int \<Rightarrow> int \<Rightarrow> (string \<times> int) list \<Rightarrow> 'w host \<Rightarrow> MprpcChannel option list \<times> 'w host" where
  "connect_nodes N me i [] h = ([], h)"
| "connect_nodes N me i ((ip, port) # rest) h =
     (if i = me then (case connect_nodes N me (i + 1) rest h of (servers, h') \<Rightarrow> (None # servers, h'))
      else case RaftRpcUtil_ctor N ip port h of (rpc, h1) \<Rightarrow>
           (case connect_nodes N me (i + 1) rest h1 of (servers, h') \<Rightarrow> (Some rpc # servers, h')))"

text \<open>The argument of the second \<open>sleep\<close> is an unsigned difference: a node whose number is above the
  number of nodes in the file sleeps for more than a century.\<close>

definition start_wait :: "nat \<Rightarrow> int \<Rightarrow> nat" where
  "start_wait n me = unat (word_of_int (int n - me) :: 32 word)"

definition KvServer_ctor ::
  "'w net \<Rightarrow> raft_codec \<Rightarrow> kv_codec \<Rightarrow> (nat \<Rightarrow> nat) \<Rightarrow> int \<Rightarrow> int \<Rightarrow> string option \<Rightarrow> string option \<Rightarrow> string option \<Rightarrow>
   int \<Rightarrow> 'w host \<Rightarrow> 'w started res" where
  "KvServer_ctor N C K rnd me maxraftstate nodeInfoFile raftStateFile snapshotFile now h =
     (let persister = Persister_ctor raftStateFile snapshotFile in
      bindR (LoadConfigFile nodeInfoFile Map.empty) (\<lambda>cfg.
      let ipPortVt = node_loop cfg 0;
          (servers, h1) = connect_nodes N me 0 ipPortVt h in
      bindR (raft_init C (length servers) me persister newLockQueue now) (\<lambda>r.
      let (snapshot, persister') = ReadSnapshot (m_persister r);
          s = \<lparr>kv_me = me, m_raftNode = r\<lparr>m_persister := persister'\<rparr>, m_maxRaftState = maxraftstate,
               m_serializedKVData = [], m_skipList = SkipList_ctor 6 [] [] rnd, waitApplyCh = Map.empty,
               channels = Map.empty, next_channel = 0, m_lastRequestId = Map.empty,
               m_lastSnapshotRaftLogIndex = 0\<rparr> in
      bindR (if snapshot \<noteq> [] then ReadSnapShotToInstall K snapshot s else Inr s) (\<lambda>s1.
      Inr \<lparr>st_server = s1, st_peers = servers, st_sleeps = [6, start_wait (length ipPortVt) me],
           st_host = h1\<rparr>))))"

lemma connect_nodes_length: "length (fst (connect_nodes N me i ns h)) = length ns"
  by (induction N me i ns h rule: connect_nodes.induct) (auto split: prod.splits)

lemma newConnect_address: "m_ip (fst (snd (newConnect N ip port s))) = m_ip (fst s)"
    "m_port (fst (snd (newConnect N ip port s))) = m_port (fst s)"
  by (simp_all add: newConnect_def Let_def split: prod.splits)

lemma connect_tries_address: "m_ip (fst (connect_tries N ip port k p)) = m_ip (fst (snd p)) \<and>
    m_port (fst (connect_tries N ip port k p)) = m_port (fst (snd p))"
proof (induction k arbitrary: p rule: less_induct)
  case (less k)
  obtain rt s where p: "p = (rt, s)" by (cases p)
  show ?case
  proof (cases "rt = None \<or> k \<le> 1")
    case True
    then show ?thesis by (simp add: p connect_tries.simps [of N ip port k])
  next
    case False
    then have "k - 1 < k" by simp
    from less.IH [OF this, of "newConnect N ip port s"] False show ?thesis
      by (simp add: p connect_tries.simps [of N ip port k] newConnect_address)
  qed
qed

lemma RaftRpcUtil_ctor_address:
  "RaftRpcUtil_ctor N ip port h = (c, h') \<Longrightarrow> m_ip c = ip \<and> m_port c = word_of_int port"
  using connect_tries_address [of N ip "word_of_int port" 3
      "newConnect N ip (word_of_int port) (\<lparr>m_clientFd = -1, m_ip = ip, m_port = word_of_int port\<rparr>, h)"]
  by (simp add: RaftRpcUtil_ctor_def MprpcChannel_ctor_def Let_def newConnect_address)

lemma connect_nodes_nth:
  "k < length ns \<Longrightarrow> (if i + int k = me then fst (connect_nodes N me i ns h) ! k = None
     else \<exists>c. fst (connect_nodes N me i ns h) ! k = Some c \<and> m_ip c = fst (ns ! k) \<and> m_port c = word_of_int (snd (ns ! k)))"
proof (induction N me i ns h arbitrary: k rule: connect_nodes.induct)
  case (2 N me i ip port rest h)
  obtain c h1 where c: "RaftRpcUtil_ctor N ip port h = (c, h1)" by (cases "RaftRpcUtil_ctor N ip port h")
  show ?case
  proof (cases k)
    case 0
    then show ?thesis using RaftRpcUtil_ctor_address [OF c] c by (auto split: prod.split)
  next
    case (Suc j)
    with 2(3) have j: "j < length rest" "i + 1 + int j = i + int k" by simp_all
    show ?thesis
    proof (cases "i = me")
      case True
      with 2(1) [OF True j(1)] j Suc show ?thesis by (auto split: prod.split)
    next
      case False
      with 2(2) [OF False c [symmetric] j(1)] j Suc c show ?thesis by (auto split: prod.split)
    qed
  qed
qed simp

subsection \<open>What a started node is\<close>

lemma KvServer_ctor_result:
  assumes "LoadConfigFile nodeInfoFile Map.empty = Inr cfg" "node_loop cfg 0 = nodes"
    and "fair rnd" "0 \<le> me" "me < int (length nodes)"
  shows "\<exists>r. KvServer_ctor N C K rnd me maxraftstate nodeInfoFile oldRaft oldSnap now h = Inr r \<and>
     kv_ok (st_server r) \<and> kv_abs (st_server r) = (Map.empty, Map.empty) \<and>
     m_currentTerm (m_raftNode (st_server r)) = 0 \<and> m_votedFor (m_raftNode (st_server r)) = -1 \<and>
     m_logs (m_raftNode (st_server r)) = [] \<and> m_status (m_raftNode (st_server r)) = Follower \<and>
     m_peers_size (m_raftNode (st_server r)) = length nodes \<and>
     st_peers r = fst (connect_nodes N me 0 nodes h) \<and>
     st_sleeps r = [6, start_wait (length nodes) me]"
proof -
  obtain servers h1 where c: "connect_nodes N me 0 nodes h = (servers, h1)"
    by (cases "connect_nodes N me 0 nodes h")
  have len: "length servers = length nodes" using connect_nodes_length [of N me 0 nodes h] c by simp
  let ?p = "Persister_ctor oldRaft oldSnap"
  obtain r where r: "raft_init C (length nodes) me ?p newLockQueue now = Inr r" "m_persister r = ?p"
    "m_currentTerm r = 0" "m_votedFor r = -1" "m_logs r = []" "m_status r = Follower" "m_peers_size r = length nodes"
    by (simp add: raft_init_fresh)
  have wf: "raft_wf r" by (rule raft_wf_init [OF r(1) assms(4,5)])
  obtain p' where p': "ReadSnapshot ?p = ([], p')" "persister_wf p'"
    using content_ReadSnapshot(1) [OF persister_wf_ctor, of oldRaft oldSnap]
      persister_wf_ReadSnapshot [OF persister_wf_ctor, of oldRaft oldSnap]
    by (cases "ReadSnapshot ?p") simp
  have wf': "raft_wf (r\<lparr>m_persister := p'\<rparr>)" using wf p'(2) r(5)
    by (simp add: raft_wf_def log_wf_def getLastLogIndex_def getLastLogIndexAndTerm_def)
  show ?thesis
    using assms(1,2) c len r p'(1) wf' sl_ok_ctor [OF assms(3), of 6 "[] :: string" "[] :: string"]
      sl_abs_ctor [OF assms(3), of 6 "[] :: string" "[] :: string"]
    by (simp add: KvServer_ctor_def Let_def kv_ok_def kv_abs_def wait_ok_def)
qed

lemma node_starts_peers:
  assumes "\<forall>g \<in> set rs. reg_ok g" "{0..<n} \<subseteq> fst ` set rs" "n \<notin> fst ` set rs" "n < INT_MAX"
    and "0 \<le> me" "me < n" "fair rnd"
  shows "\<exists>r. KvServer_ctor N C K rnd me maxraftstate (Some (registrations rs)) oldRaft oldSnap now h = Inr r \<and>
     int (length (st_peers r)) = n"
proof -
  have n: "0 \<le> n" using assms(5,6) by simp
  from registrations_first_wins [OF assms(1-3) n assms(4)] obtain cfg where
    cfg: "LoadConfigFile (Some (registrations rs)) Map.empty = Inr cfg" and
    nodes: "node_loop cfg 0 = map (\<lambda>i. the (map_of rs i)) [0..n - 1]" by blast
  have "me < int (length (map (\<lambda>i. the (map_of rs i)) [0..n - 1]))" using n assms(6) by simp
  from KvServer_ctor_result [OF cfg nodes assms(7,5) this, of N C K maxraftstate oldRaft oldSnap now h] obtain r where
    "KvServer_ctor N C K rnd me maxraftstate (Some (registrations rs)) oldRaft oldSnap now h = Inr r"
    "st_peers r = fst (connect_nodes N me 0 (map (\<lambda>i. the (map_of rs i)) [0..n - 1]) h)" by blast
  with n show ?thesis by (simp add: connect_nodes_length)
qed



end
