(* ===== verification/Cluster.thy ===== *)
theory Cluster
  imports Divergence Node "HOL-Library.Multiset" "HOL-Library.Sublist"
begin

text \<open>
  The whole service: a cluster of servers (KvServer.cpp), each with its raft node (raft.cpp), the requests
  its handler threads work on, and the messages between the nodes. The raft nodes act as in theory Network; a
  server takes messages out of the channel its node fills, one turn of its loop at a time; a handler runs in
  the sections its locks make: it hands its command to the raft node, gets the channel it will wait on,
  waits, and answers. A node may stop and start again, with all its threads and requests gone.

  Beside the state of the code a server carries what it took out of the channel, what changed its
  contents, and what it answered. The invariant of a server and its node, \<open>seat_ok\<close>, says that the contents are
  those deeds, in their order, and nothing else, and that every answer is justified by them; every step keeps it.
\<close>

subsection \<open>What changes the contents of a server\<close>

text \<open>A command is run, a snapshot is loaded, or a \<open>Get\<close> records its request number.\<close>

datatype deed = Ran Op | Loaded string | Noted Op

definition kv_install :: "kv_codec \<Rightarrow> string \<Rightarrow> kv_state \<Rightarrow> kv_state" where
  "kv_install K snap st = (if snap = [] then st
     else case kv_in K snap of None \<Rightarrow> st | Some (d, requests) \<Rightarrow> (loaded (kv_dump K) d (fst st), requests))"

fun deed_effect :: "kv_codec \<Rightarrow> deed \<Rightarrow> kv_state \<Rightarrow> kv_state" where
  "deed_effect K (Ran op) st = kv_apply op st"
| "deed_effect K (Loaded snap) st = kv_install K snap st"
| "deed_effect K (Noted op) st = (fst st, (snd st)(clientId op \<mapsto> requestId op))"

definition contents :: "kv_codec \<Rightarrow> deed list \<Rightarrow> kv_state" where
  "contents K ds = fold (deed_effect K) ds (Map.empty, Map.empty)"

lemma contents_simps [simp]: "contents K [] = (Map.empty, Map.empty)"
  "contents K (ds @ es) = fold (deed_effect K) es (contents K ds)"
  by (simp_all add: contents_def)

fun ran_of :: "deed \<Rightarrow> Op list" where
  "ran_of (Ran op) = [op]"
| "ran_of d = []"

definition runs :: "deed list \<Rightarrow> Op list" where
  "runs ds = concat (map ran_of ds)"

lemma runs_simps [simp]: "runs [] = []" "runs (d # ds) = ran_of d @ runs ds" "runs (ds @ es) = runs ds @ runs es"
  by (simp_all add: runs_def)

lemma set_runs: "op \<in> set (runs ds) \<longleftrightarrow> Ran op \<in> set ds"
proof (induction ds)
  case (Cons d ds)
  then show ?case by (cases d) auto
qed simp

subsection \<open>A turn of the loop\<close>

text \<open>The commands that wait in the channels of the requests.\<close>

definition queued :: "KvServer \<Rightarrow> Op set" where
  "queued s = {op. \<exists>a q. channels s a = Some q \<and> op \<in> set (m_queue q)}"

lemma queued_same: "channels t = channels s \<Longrightarrow> queued t = queued s"
  by (simp add: queued_def)

lemma queued_push: "channels s a = Some q \<Longrightarrow> queued (s\<lparr>channels := (channels s)(a \<mapsto> Push op q)\<rparr>) \<subseteq> insert op (queued s)"
  by (auto simp: queued_def Push_def split: if_splits)

definition taken_now :: "ApplyMsg \<Rightarrow> history" where
  "taken_now m = (if CommandValid m then [(CommandIndex m, Command m)] else [])"

definition deeds_now :: "raft_codec \<Rightarrow> ApplyMsg \<Rightarrow> KvServer \<Rightarrow> deed list" where
  "deeds_now C m s =
     (if CommandValid m \<and> m_lastSnapshotRaftLogIndex s < CommandIndex m then [Ran (the (iaOp C (Command m)))] else []) @
     (if SnapShotValid m then [Loaded (Snapshot_data m)] else [])"

text \<open>What any step of the loop leaves: the raft node either as it is, or with a snapshot taken.\<close>

definition turned :: "raft_codec \<Rightarrow> kv_codec \<Rightarrow> int \<Rightarrow> deed list \<Rightarrow> KvServer \<Rightarrow> KvServer \<Rightarrow> bool" where
  "turned C K i ds s t \<longleftrightarrow> data_ok t \<and> kv_abs t = fold (deed_effect K) ds (kv_abs s) \<and>
     queued t \<subseteq> set (runs ds) \<union> queued s \<and> may_snapshot C i s t"

lemma turned_refl: "data_ok s \<Longrightarrow> turned C K i [] s s"
  by (simp add: turned_def may_snapshot_def)

lemma turned_trans:
  "turned C K i ds s u \<Longrightarrow> turned C K i es u t \<Longrightarrow> m_raftNode t = m_raftNode u \<Longrightarrow> turned C K i (ds @ es) s t"
  by (auto simp: turned_def may_snapshot_def)

lemma GetCommandFromRaft_turned:
  assumes "data_ok s" "GetCommandFromRaft C K msg s = Inr t"
  shows "turned C K (CommandIndex msg)
    (if m_lastSnapshotRaftLogIndex s < CommandIndex msg then [Ran (the (iaOp C (Command msg)))] else []) s t"
proof -
  from assms(2) obtain op where op: "iaOp C (Command msg) = Some op" by (auto simp: GetCommandFromRaft_def split: option.splits)
  show ?thesis
  proof (cases "m_lastSnapshotRaftLogIndex s < CommandIndex msg")
    case False
    with assms op show ?thesis by (auto simp: GetCommandFromRaft_def turned_refl)
  next
    case True
    from GetCommandFromRaft_run [OF assms(1) op True, of K] obtain u where u:
      "GetCommandFromRaft C K msg s = bindR (SendMessageToWaitChan op (CommandIndex msg) u) (\<lambda>(sent, t). Inr t)"
      "data_ok u" "kv_abs u = kv_apply op (kv_abs s)" "channels u = channels s" "may_snapshot C (CommandIndex msg) s u" by blast
    from assms(2) obtain sent where st: "SendMessageToWaitChan op (CommandIndex msg) u = Inr (sent, t)"
      unfolding u(1) by (auto simp: res_simps)
    from st have "queued t \<subseteq> insert op (queued u) \<and> data_ok t \<and> kv_abs t = kv_abs u \<and> m_raftNode t = m_raftNode u"
    proof (cases rule: SendMessageToWaitChan_cases)
      case 1
      with u(2) show ?thesis by auto
    next
      case (2 a q)
      with queued_push [of u a q op] u(2) show ?thesis by (simp add: data_ok_def kv_abs_def)
    qed
    with u(3-5) queued_same [OF u(4)] True op show ?thesis by (auto simp: turned_def may_snapshot_def)
  qed
qed

lemma GetSnapShotFromRaft_turned:
  assumes "data_ok s" "GetSnapShotFromRaft K msg s = Inr t"
  shows "turned C K i [Loaded (Snapshot_data msg)] s t \<and> m_raftNode t = m_raftNode s"
proof (cases "Snapshot_data msg = []")
  case True
  with assms have "t = s\<lparr>m_lastSnapshotRaftLogIndex := SnapshotIndex msg\<rparr>"
    by (simp add: GetSnapShotFromRaft_def CondInstallSnapshot_def ReadSnapShotToInstall_def)
  then show ?thesis using True assms(1) queued_same [of t s]
    by (simp add: turned_def may_snapshot_def kv_install_def data_ok_def kv_abs_def)
next
  case False
  with assms(2) obtain d requests l where k: "kv_in K (Snapshot_data msg) = Some (d, requests)"
    "load_file (kv_dump K) d (m_skipList s) = Some l"
    "t = s\<lparr>m_skipList := l, m_lastRequestId := requests, m_serializedKVData := [], m_lastSnapshotRaftLogIndex := SnapshotIndex msg\<rparr>"
    by (auto simp: GetSnapShotFromRaft_def CondInstallSnapshot_def ReadSnapShotToInstall_def ParseFromString_def list_res_def
        res_simps split: option.splits)
  have "sl_ok (m_skipList s)" using assms(1) by (simp add: data_ok_def)
  from load_file_loaded [OF this k(2)] k(1,3) False assms(1) queued_same [of t s] show ?thesis
    by (simp add: turned_def may_snapshot_def kv_install_def data_ok_def kv_abs_def)
qed

lemma apply_turn_turned:
  assumes "data_ok s" "apply_turn C K s = Some (Inr t)"
  shows "\<exists>m ms. apply_queue s = m # ms \<and> turned C K (CommandIndex m) (deeds_now C m s) (set_queue ms s) t"
proof -
  from assms(2) obtain m ms where q: "apply_queue s = m # ms"
    by (auto simp: apply_turn_def pop_def apply_queue_def split: option.splits list.splits)
  let ?s = "set_queue ms s"
  have p: "pop (applyChan (m_raftNode s)) = Some (m, (applyChan (m_raftNode s))\<lparr>m_queue := ms\<rparr>)"
    using q by (simp add: pop_def apply_queue_def)
  from assms(2) have "bindR (if CommandValid m then GetCommandFromRaft C K m ?s else Inr ?s)
      (\<lambda>s1. if SnapShotValid m then GetSnapShotFromRaft K m s1 else Inr s1) = Inr t"
    by (simp only: apply_turn_def p Let_def set_queue_def option.case prod.case option.inject)
  then obtain u where u: "(if CommandValid m then GetCommandFromRaft C K m ?s else Inr ?s) = Inr u"
    "(if SnapShotValid m then GetSnapShotFromRaft K m u else Inr u) = Inr t" by (rule bindR_InrE)
  have "data_ok ?s" using assms(1) by (simp add: data_ok_def set_queue_def raft_wf_def)
  then have 1: "turned C K (CommandIndex m) (if CommandValid m \<and> m_lastSnapshotRaftLogIndex s < CommandIndex m
      then [Ran (the (iaOp C (Command m)))] else []) ?s u"
    using GetCommandFromRaft_turned [of ?s C K m u] u(1) turned_refl [of ?s C K] by (auto split: if_splits)
  then have "data_ok u" by (simp add: turned_def)
  with u(2) have "turned C K (CommandIndex m) (if SnapShotValid m then [Loaded (Snapshot_data m)] else []) u t \<and>
      m_raftNode t = m_raftNode u"
    using GetSnapShotFromRaft_turned [of u K m t C] turned_refl [of u C K] by (auto split: if_splits)
  with turned_trans [OF 1] have "turned C K (CommandIndex m) (deeds_now C m s) ?s t" by (simp add: deeds_now_def)
  with q show ?thesis by blast
qed


subsection \<open>A server and its requests\<close>

text \<open>What a handler thread is about: its command handed to the raft node at an index, waiting on a channel,
  or done with waiting.\<close>

datatype task =
    PutStarted Op int | PutWaits Op int "addr option" | PutWoken Op int "Op option"
  | GetStarted Op int | GetWaits Op int "addr option" | GetWoken Op int "Op option"

datatype answer = PutAnswer Op PutAppendReply | GetAnswer Op GetReply

record Seat =
  server :: KvServer
  tasks :: "task multiset"
  took :: history
  deeds :: "deed list"
  answers :: "answer list"

definition new_seat :: "KvServer \<Rightarrow> Seat" where
  "new_seat s = \<lparr>server = s, tasks = {#}, took = [], deeds = [], answers = []\<rparr>"

text \<open>One step of the loop or of a handler. \<open>PutAppend_begin\<close> of a leader is \<open>put_start\<close> and
  \<open>put_register\<close>; between them, and between the other sections, anything else may happen.\<close>

inductive seat_step :: "raft_codec \<Rightarrow> kv_codec \<Rightarrow> Seat \<Rightarrow> Seat \<Rightarrow> bool" for C K where
  put_refuse: "PutAppend_begin C args \<lparr>pr_err = []\<rparr> (server s) = (Replied r, t) \<Longrightarrow>
    seat_step C K s (s\<lparr>server := t, answers := answers s @ [PutAnswer (put_op args) r]\<rparr>)"
| put_start: "submit C (put_op args) (server s) = (i, True, t) \<Longrightarrow>
    seat_step C K s (s\<lparr>server := t, tasks := add_mset (PutStarted (put_op args) i) (tasks s)\<rparr>)"
| put_register: "tasks s = add_mset (PutStarted op i) ts \<Longrightarrow> put_channel i (server s) = (ch, t) \<Longrightarrow>
    seat_step C K s (s\<lparr>server := t, tasks := add_mset (PutWaits op i ch) ts\<rparr>)"
| put_wait: "tasks s = add_mset (PutWaits op i ch) ts \<Longrightarrow> wait_channel ch timedout (server s) = Inr (Some popped, t) \<Longrightarrow>
    seat_step C K s (s\<lparr>server := t, tasks := add_mset (PutWoken op i popped) ts\<rparr>)"
| put_answer: "tasks s = add_mset (PutWoken op i popped) ts \<Longrightarrow> PutAppend_end op i popped \<lparr>pr_err = []\<rparr> (server s) = (r, t) \<Longrightarrow>
    seat_step C K s (s\<lparr>server := t, tasks := ts, answers := answers s @ [PutAnswer op r]\<rparr>)"
| get_refuse: "Get_begin C args' \<lparr>gr_err = [], gr_value = []\<rparr> (server s) = (Replied r', t) \<Longrightarrow>
    seat_step C K s (s\<lparr>server := t, answers := answers s @ [GetAnswer (get_op args') r']\<rparr>)"
| get_start: "submit C (get_op args') (server s) = (i, True, t) \<Longrightarrow>
    seat_step C K s (s\<lparr>server := t, tasks := add_mset (GetStarted (get_op args') i) (tasks s)\<rparr>)"
| get_register: "tasks s = add_mset (GetStarted op i) ts \<Longrightarrow> get_channel i (server s) = (ch, t) \<Longrightarrow>
    seat_step C K s (s\<lparr>server := t, tasks := add_mset (GetWaits op i ch) ts\<rparr>)"
| get_wait: "tasks s = add_mset (GetWaits op i ch) ts \<Longrightarrow> wait_channel ch timedout (server s) = Inr (Some popped, t) \<Longrightarrow>
    seat_step C K s (s\<lparr>server := t, tasks := add_mset (GetWoken op i popped) ts\<rparr>)"
| get_answer: "tasks s = add_mset (GetWoken op i popped) ts \<Longrightarrow>
    Get_end op i popped \<lparr>gr_err = [], gr_value = []\<rparr> (server s) = Inr (r', t) \<Longrightarrow>
    seat_step C K s (s\<lparr>server := t, tasks := ts, answers := answers s @ [GetAnswer op r'],
      deeds := deeds s @ (if gr_err r' = ErrWrongLeader then [] else [Noted op])\<rparr>)"
| turn: "apply_queue (server s) = m # ms \<Longrightarrow> apply_turn C K (server s) = Some (Inr t) \<Longrightarrow>
    seat_step C K s (s\<lparr>server := t, took := took s @ taken_now m, deeds := deeds s @ deeds_now C m (server s)\<rparr>)"

text \<open>What the answers and the commands on their way to a request stand for.\<close>

fun task_ok :: "deed list \<Rightarrow> task \<Rightarrow> bool" where
  "task_ok ds (PutWoken op i (Some c)) = (Ran c \<in> set ds)"
| "task_ok ds (GetWoken op i (Some c)) = (Ran c \<in> set ds)"
| "task_ok ds _ = True"

definition same_request :: "Op \<Rightarrow> Op \<Rightarrow> bool" where
  "same_request c op \<longleftrightarrow> clientId c = clientId op \<and> requestId c = requestId op"

text \<open>At some moment so far the contents were such.\<close>

definition seen :: "kv_codec \<Rightarrow> deed list \<Rightarrow> (kv_state \<Rightarrow> bool) \<Rightarrow> bool" where
  "seen K ds P \<longleftrightarrow> (\<exists>k \<le> length ds. P (contents K (take k ds)))"

fun justified :: "kv_codec \<Rightarrow> deed list \<Rightarrow> answer \<Rightarrow> bool" where
  "justified K ds (PutAnswer op r) \<longleftrightarrow> pr_err r = OK \<longrightarrow>
     (\<exists>c. Ran c \<in> set ds \<and> same_request c op) \<or> seen K ds (duplicate op)"
| "justified K ds (GetAnswer op r) \<longleftrightarrow>
     (gr_err r = OK \<longrightarrow> seen K ds (\<lambda>st. fst st (key op) = Some (gr_value r))) \<and>
     (gr_err r = ErrNoKey \<longrightarrow> seen K ds (\<lambda>st. fst st (key op) = None))"

lemma seen_append: "seen K ds P \<Longrightarrow> seen K (ds @ es) P"
proof -
  assume "seen K ds P"
  then obtain k where k: "k \<le> length ds" "P (contents K (take k ds))" by (auto simp: seen_def)
  then have "k \<le> length (ds @ es)" "take k (ds @ es) = take k ds" by simp_all
  with k(2) show ?thesis unfolding seen_def by metis
qed

lemma seen_now: "P (contents K ds) \<Longrightarrow> seen K ds P"
  unfolding seen_def by (intro exI [of _ "length ds"]) simp

lemma task_ok_append: "task_ok ds t \<Longrightarrow> task_ok (ds @ es) t"
  by (cases "(ds, t)" rule: task_ok.cases) simp_all

lemma justified_append: "justified K ds a \<Longrightarrow> justified K (ds @ es) a"
  using seen_append by (cases a) (auto simp del: contents_simps)

text \<open>The invariant of a seat.\<close>

definition seat_ok :: "raft_codec \<Rightarrow> kv_codec \<Rightarrow> nat \<Rightarrow> nat \<Rightarrow> Seat \<Rightarrow> bool" where
  "seat_ok C K n i s \<longleftrightarrow> data_ok (server s) \<and> node_typed n i (m_raftNode (server s)) \<and>
     hands_ok (took s) (m_raftNode (server s)) \<and> kv_abs (server s) = contents K (deeds s) \<and>
     queued (server s) \<subseteq> set (runs (deeds s)) \<and> (\<forall>t \<in># tasks s. task_ok (deeds s) t) \<and>
     (\<forall>a \<in> set (answers s). justified K (deeds s) a) \<and>
     subseq (runs (deeds s)) (map (\<lambda>p. the (iaOp C (snd p))) (took s))"


text \<open>What a step does to the raft node keeps who the node is and what it handed over.\<close>

definition raft_keeps :: "Raft \<Rightarrow> Raft \<Rightarrow> bool" where
  "raft_keeps r r' \<longleftrightarrow> (\<forall>n i h. node_typed n i r \<longrightarrow> hands_ok h r \<longrightarrow> node_typed n i r' \<and> hands_ok h r')"

lemma raft_keeps_refl [simp]: "raft_keeps r r"
  by (simp add: raft_keeps_def)

lemma node_typed_wf: "node_typed n i r \<Longrightarrow> raft_wf r"
  by (simp add: node_typed_def)

lemma raft_keeps_step:
  assumes "same_node r r'" "raft_wf r \<Longrightarrow> raft_wf r'" "\<And>h. raft_wf r \<Longrightarrow> hands_ok h r \<Longrightarrow> hands_ok h r'"
  shows "raft_keeps r r'"
  using assms node_typed_step node_typed_wf unfolding raft_keeps_def by blast

lemma raft_keeps_Start: "Start C op r = (i, tm, l, r') \<Longrightarrow> raft_keeps r r'"
  by (rule raft_keeps_step) (auto intro: same_node_step [OF node_step.start] raft_wf_Start hands_ok_nothing hands_nothing_Start)

lemma raft_keeps_Snapshot: "Snapshot C i data r = Inr r' \<Longrightarrow> raft_keeps r r'"
  by (rule raft_keeps_step) (auto intro: same_node_step [OF node_step.snapshot] raft_wf_Snapshot hands_ok_Snapshot)

lemma raft_keeps_may_snapshot: "may_snapshot C i s t \<Longrightarrow> raft_keeps (m_raftNode s) (m_raftNode t)"
  by (auto simp: may_snapshot_def intro: raft_keeps_Snapshot)

text \<open>The sections of the handlers that change nothing of the contents.\<close>

definition quiet :: "KvServer \<Rightarrow> KvServer \<Rightarrow> bool" where
  "quiet s t \<longleftrightarrow> m_skipList t = m_skipList s \<and> m_lastRequestId t = m_lastRequestId s \<and>
     queued t \<subseteq> queued s \<and> raft_keeps (m_raftNode s) (m_raftNode t) \<and> (raft_wf (m_raftNode s) \<longrightarrow> raft_wf (m_raftNode t))"

lemma queued_less: "(\<And>a q. channels t a = Some q \<Longrightarrow> m_queue q = [] \<or> channels s a = Some q) \<Longrightarrow> queued t \<subseteq> queued s"
  unfolding queued_def by fastforce

lemma quiet_same: "m_skipList t = m_skipList s \<Longrightarrow> m_lastRequestId t = m_lastRequestId s \<Longrightarrow> m_raftNode t = m_raftNode s \<Longrightarrow>
    (\<And>a q. channels t a = Some q \<Longrightarrow> m_queue q = [] \<or> channels s a = Some q) \<Longrightarrow> quiet s t"
  using queued_less [of t s] by (simp add: quiet_def)

lemma quiet_submit:
  assumes "submit C op s = (i, l, t)"
  shows "quiet s t"
proof -
  from assms obtain tm r where r: "Start C op (m_raftNode s) = (i, tm, l, r)" "t = s\<lparr>m_raftNode := r\<rparr>"
    by (auto simp: submit_def split: prod.splits)
  have "queued t = queued s" by (rule queued_same) (simp add: r(2))
  with r raft_keeps_Start [OF r(1)] raft_wf_Start [OF _ r(1)] show ?thesis by (simp add: quiet_def)
qed

lemma quiet_put_channel: "put_channel i s = (ch, t) \<Longrightarrow> quiet s t"
  by (rule quiet_same) (auto simp: put_channel_def subscript_def new_channel_def emplace_def Let_def newLockQueue_def
      split: option.splits if_splits)

lemma quiet_get_channel: "get_channel i s = (ch, t) \<Longrightarrow> quiet s t"
  by (rule quiet_same) (auto simp: get_channel_def subscript_def new_channel_def emplace_def Let_def newLockQueue_def
      split: option.splits if_splits)

lemma quiet_drop: "quiet s (drop_channel i s)"
  by (rule quiet_same) (auto simp: drop_channel_def subscript_def Let_def split: option.splits if_splits)

lemma wait_channel_result:
  assumes "wait_channel ch timedout s = Inr (Some popped, t)"
  shows "quiet s t" "popped = Some c \<Longrightarrow> c \<in> queued s"
proof -
  from assms obtain a q q' where w: "ch = Some a" "channels s a = Some q" "timeoutPop q [([], timedout)] = Some (popped, q')"
    "t = s\<lparr>channels := (channels s)(a \<mapsto> q')\<rparr>"
    by (auto simp: wait_channel_def split: option.splits)
  from w(3) have q: "set (m_queue q') \<subseteq> set (m_queue q)" "popped = Some c \<Longrightarrow> c \<in> set (m_queue q)"
    by (auto simp: timeoutPop.simps Let_def split: list.splits if_splits)
  have "queued t \<subseteq> queued s" using w(2,4) q(1) by (fastforce simp: queued_def split: if_splits)
  then show "quiet s t" using w(4) by (simp add: quiet_def)
  show "popped = Some c \<Longrightarrow> c \<in> queued s" using w(2) q(2) by (auto simp: queued_def)
qed

lemma quiet_refused: "PutAppend_begin C args reply s = (Replied r, t) \<Longrightarrow> quiet s t \<and> pr_err r = ErrWrongLeader"
  by (auto simp: PutAppend_begin_def Let_def intro: quiet_submit split: prod.splits if_splits)

lemma quiet_get_refused: "Get_begin C args reply s = (Replied r, t) \<Longrightarrow> quiet s t \<and> gr_err r = ErrWrongLeader"
  by (auto simp: Get_begin_def Let_def intro: quiet_submit split: prod.splits if_splits)


text \<open>The handlers' answers.\<close>

lemma errs_differ: "OK \<noteq> ErrWrongLeader" "ErrWrongLeader \<noteq> OK" "ErrNoKey \<noteq> ErrWrongLeader" "ErrWrongLeader \<noteq> ErrNoKey"
    "OK \<noteq> ErrNoKey"
  by (simp_all add: OK_def ErrWrongLeader_def ErrNoKey_def)

lemma PutAppend_end_answer:
  assumes "PutAppend_end op i popped reply s = (r, t)"
  shows "quiet s t"
    and "pr_err r = OK \<Longrightarrow> (\<exists>c. popped = Some c \<and> same_request c op) \<or> duplicate op (kv_abs s)"
proof -
  from assms have "t = drop_channel i s" by (simp add: PutAppend_end_def Let_def)
  then show "quiet s t" using quiet_drop by simp
  from assms show "pr_err r = OK \<Longrightarrow> (\<exists>c. popped = Some c \<and> same_request c op) \<or> duplicate op (kv_abs s)"
    by (auto simp: PutAppend_end_def Let_def duplicate_iff same_request_def OK_def ErrWrongLeader_def split: option.splits if_splits)
qed

lemma Get_end_answer:
  assumes "data_ok s" "Get_end op i popped reply s = Inr (r, t)"
  shows "data_ok t \<and> kv_abs t = fold (deed_effect K) (if gr_err r = ErrWrongLeader then [] else [Noted op]) (kv_abs s) \<and>
    queued t \<subseteq> queued s \<and> m_raftNode t = m_raftNode s \<and>
    (gr_err r = OK \<longrightarrow> fst (kv_abs s) (key op) = Some (gr_value r)) \<and>
    (gr_err r = ErrNoKey \<longrightarrow> fst (kv_abs s) (key op) = None)"
proof -
  note e = errs_differ
  have sl: "sl_ok (m_skipList s)" using assms(1) by (simp add: data_ok_def)
  let ?u = "s\<lparr>m_lastRequestId := (m_lastRequestId s)(clientId op \<mapsto> requestId op)\<rparr>"
  obtain v where v: "get_reply op reply s = Inr (v, ?u)" "if fst (kv_abs s) (key op) = None then gr_err v = ErrNoKey
      else gr_err v = OK \<and> fst (kv_abs s) (key op) = Some (gr_value v)"
    using execute_get_total [OF sl, of op] by (fastforce simp: get_reply_def kv_abs_def split: option.splits)
  from assms(2) consider "r = v" "t = drop_channel i ?u" | "gr_err r = ErrWrongLeader" "t = drop_channel i s"
    by (auto simp: Get_end_def res_simps v(1) split: option.splits if_splits)
  then show ?thesis
  proof cases
    case 1
    have "queued ?u = queued s" by (rule queued_same) simp
    with quiet_drop [of ?u i] 1(2) have t: "queued t \<subseteq> queued s" "m_skipList t = m_skipList s"
      "m_lastRequestId t = (m_lastRequestId s)(clientId op \<mapsto> requestId op)" by (simp_all add: quiet_def)
    have "m_raftNode t = m_raftNode s" using 1(2) by (auto simp: drop_channel_def subscript_def Let_def split: option.splits)
    with t 1(1) v(2) e assms(1) show ?thesis by (auto simp: data_ok_def kv_abs_def split: if_splits)
  next
    case 2
    have "m_raftNode t = m_raftNode s" using 2(2) by (auto simp: drop_channel_def subscript_def Let_def split: option.splits)
    with quiet_drop [of s i] 2 e assms(1) show ?thesis by (auto simp: data_ok_def kv_abs_def quiet_def)
  qed
qed

subsection \<open>The invariant of a seat is kept\<close>

lemma seat_ok_step:
  assumes "seat_ok C K n i s" "took s' = took s @ hs" "deeds s' = deeds s @ ds" "answers s' = answers s @ as"
    and "data_ok (server s')" "node_typed n i (m_raftNode (server s'))" "hands_ok (took s') (m_raftNode (server s'))"
    and "kv_abs (server s') = fold (deed_effect K) ds (kv_abs (server s))" "queued (server s') \<subseteq> set (runs ds) \<union> queued (server s)"
    and "\<forall>t \<in># tasks s'. t \<in># tasks s \<or> task_ok (deeds s') t" "\<forall>a \<in> set as. justified K (deeds s') a"
    and "subseq (runs ds) (map (\<lambda>p. the (iaOp C (snd p))) hs)"
  shows "seat_ok C K n i s'"
proof -
  have "\<forall>t \<in># tasks s'. task_ok (deeds s') t" using assms(1,10) task_ok_append by (auto simp: seat_ok_def assms(3))
  moreover have "\<forall>a \<in> set (answers s'). justified K (deeds s') a"
    using assms(1,11) justified_append by (auto simp: seat_ok_def assms(3,4))
  moreover have "subseq (runs (deeds s')) (map (\<lambda>p. the (iaOp C (snd p))) (took s'))"
    using assms(1,12) by (simp add: seat_ok_def assms(2,3) list_emb_append_mono)
  ultimately show ?thesis using assms(1,3,5-9) by (auto simp: seat_ok_def)
qed

text \<open>A quiet section, with what it does to the requests.\<close>

lemma seat_ok_quiet:
  assumes "seat_ok C K n i s" "quiet (server s) (server s')" "took s' = took s" "deeds s' = deeds s" "answers s' = answers s @ as"
    and "\<forall>t \<in># tasks s'. t \<in># tasks s \<or> task_ok (deeds s) t" "\<forall>a \<in> set as. justified K (deeds s) a"
  shows "seat_ok C K n i s'"
proof (rule seat_ok_step [OF assms(1), where hs = "[]" and ds = "[]" and as = as])
  from assms(1) have t: "node_typed n i (m_raftNode (server s))" "hands_ok (took s) (m_raftNode (server s))" by (simp_all add: seat_ok_def)
  from assms(2) have "raft_keeps (m_raftNode (server s)) (m_raftNode (server s'))" by (simp add: quiet_def)
  with t show "node_typed n i (m_raftNode (server s'))" "hands_ok (took s') (m_raftNode (server s'))"
    unfolding raft_keeps_def assms(3) by blast+
qed (use assms in \<open>auto simp: seat_ok_def quiet_def data_ok_def kv_abs_def\<close>)


text \<open>What the server takes out of the channel goes to its history.\<close>

lemma taken_pop:
  assumes "apply_queue s = m # ms" "node_typed n i (m_raftNode s)" "hands_ok h (m_raftNode s)"
  shows "node_typed n i (m_raftNode (set_queue ms s))" "hands_ok (h @ taken_now m) (m_raftNode (set_queue ms s))"
proof -
  let ?r = "m_raftNode (set_queue ms s)"
  have f: "?r = (m_raftNode s)\<lparr>applyChan := (applyChan (m_raftNode s))\<lparr>m_queue := ms\<rparr>\<rparr>" by (simp add: set_queue_def)
  have "h @ handed (m_raftNode s) = (h @ taken_now m) @ handed ?r"
    using assms(1) by (simp add: f handed_def taken_now_def apply_queue_def)
  moreover have "entry_at ?r = entry_at (m_raftNode s)" by (simp add: f fun_eq_iff entry_at_def)
  ultimately show "hands_ok (h @ taken_now m) ?r" using assms(3) unfolding hands_ok_def handed_kept_def by (simp add: f)
  show "node_typed n i ?r" using assms(2) unfolding node_typed_def by (simp add: f raft_wf_def)
qed

lemma seat_ok_turn:
  assumes "seat_ok C K n i s" "apply_queue (server s) = m # ms" "apply_turn C K (server s) = Some (Inr t)"
  shows "seat_ok C K n i (s\<lparr>server := t, took := took s @ taken_now m, deeds := deeds s @ deeds_now C m (server s)\<rparr>)"
proof -
  from assms(1) have ok: "data_ok (server s)" "node_typed n i (m_raftNode (server s))" "hands_ok (took s) (m_raftNode (server s))"
    by (simp_all add: seat_ok_def)
  from apply_turn_turned [OF ok(1) assms(3)] assms(2) have
    u: "turned C K (CommandIndex m) (deeds_now C m (server s)) (set_queue ms (server s)) t" by auto
  have "raft_keeps (m_raftNode (set_queue ms (server s))) (m_raftNode t)"
    using u by (auto simp: turned_def intro: raft_keeps_may_snapshot)
  with taken_pop [OF assms(2) ok(2,3)] have r: "node_typed n i (m_raftNode t)" "hands_ok (took s @ taken_now m) (m_raftNode t)"
    unfolding raft_keeps_def by blast+
  have "queued (set_queue ms (server s)) = queued (server s)" by (rule queued_same) simp
  with u have "data_ok t" "kv_abs t = fold (deed_effect K) (deeds_now C m (server s)) (kv_abs (server s))"
    "queued t \<subseteq> set (runs (deeds_now C m (server s))) \<union> queued (server s)" by (simp_all add: turned_def)
  with r show ?thesis
    by - (rule seat_ok_step [OF assms(1), where hs = "taken_now m" and ds = "deeds_now C m (server s)" and as = "[]"]; auto simp: taken_now_def deeds_now_def)
qed

lemma seat_ok_seat_step: "seat_step C K s s' \<Longrightarrow> seat_ok C K n i s \<Longrightarrow> seat_ok C K n i s'"
proof (induction rule: seat_step.induct)
  case (put_refuse args s r t)
  from quiet_refused [OF put_refuse.hyps] put_refuse.prems show ?case
    by - (rule seat_ok_quiet [OF put_refuse.prems, where as = "[PutAnswer (put_op args) r]"]; auto simp: errs_differ)
next
  case (put_start args s i t)
  from quiet_submit [OF put_start.hyps] put_start.prems show ?case by - (rule seat_ok_quiet [OF put_start.prems, where as = "[]"]; auto)
next
  case (put_register s op i ts ch t)
  from quiet_put_channel [OF put_register.hyps(2)] put_register show ?case by - (rule seat_ok_quiet [OF put_register.prems, where as = "[]"]; auto)
next
  case (put_wait s op i ch ts timedout popped t)
  from wait_channel_result [OF put_wait.hyps(2)] put_wait show ?case
    by - (rule seat_ok_quiet [OF put_wait.prems, where as = "[]"]; cases popped; auto simp: seat_ok_def set_runs)
next
  case (put_answer s op i popped ts r t)
  note e = PutAppend_end_answer [OF put_answer.hyps(2)]
  have "task_ok (deeds s) (PutWoken op i popped)" "kv_abs (server s) = contents K (deeds s)"
    using put_answer.prems put_answer.hyps(1) by (simp_all add: seat_ok_def)
  then have "justified K (deeds s) (PutAnswer op r)" using e(2) seen_now [of "duplicate op" K "deeds s"] by (auto; blast)
  with e(1) put_answer show ?case by - (rule seat_ok_quiet [OF put_answer.prems, where as = "[PutAnswer op r]"]; auto)
next
  case (get_refuse args' s r' t)
  from quiet_get_refused [OF get_refuse.hyps] get_refuse.prems show ?case
    by - (rule seat_ok_quiet [OF get_refuse.prems, where as = "[GetAnswer (get_op args') r']"]; auto simp: errs_differ)
next
  case (get_start args' s i t)
  from quiet_submit [OF get_start.hyps] get_start.prems show ?case by - (rule seat_ok_quiet [OF get_start.prems, where as = "[]"]; auto)
next
  case (get_register s op i ts ch t)
  from quiet_get_channel [OF get_register.hyps(2)] get_register show ?case by - (rule seat_ok_quiet [OF get_register.prems, where as = "[]"]; auto)
next
  case (get_wait s op i ch ts timedout popped t)
  from wait_channel_result [OF get_wait.hyps(2)] get_wait show ?case
    by - (rule seat_ok_quiet [OF get_wait.prems, where as = "[]"]; cases popped; auto simp: seat_ok_def set_runs)
next
  case (get_answer s op i popped ts r' t)
  let ?ds = "if gr_err r' = ErrWrongLeader then [] else [Noted op]"
  have d: "data_ok (server s)" and a: "kv_abs (server s) = contents K (deeds s)" using get_answer.prems by (simp_all add: seat_ok_def)
  note e = Get_end_answer [OF d get_answer.hyps(2), of K]
  have "justified K (deeds s) (GetAnswer op r')" using e seen_now [of _ K "deeds s"] by (simp add: a)
  then have "justified K (deeds s @ ?ds) (GetAnswer op r')" by (rule justified_append)
  with e get_answer show ?case
    by - (rule seat_ok_step [OF get_answer.prems, where hs = "[]" and ds = ?ds and as = "[GetAnswer op r']"]; auto simp: seat_ok_def)
next
  case (turn s m ms t)
  then show ?case by - (rule seat_ok_turn)
qed


subsection \<open>The cluster\<close>

record Cluster =
  seats :: "nat \<Rightarrow> Seat"
  air :: "packet set"

definition raft_view :: "Cluster \<Rightarrow> Network" where
  "raft_view c = \<lparr>members = (\<lambda>i. m_raftNode (server (seats c i))), soup = air c\<rparr>"

definition put_view :: "Network \<Rightarrow> Cluster \<Rightarrow> Cluster" where
  "put_view w c = c\<lparr>seats := (\<lambda>i. (seats c i)\<lparr>server := (server (seats c i))\<lparr>m_raftNode := members w i\<rparr>\<rparr>), air := soup w\<rparr>"

text \<open>A node that has just been started, with some configuration file that lists as many nodes as there are.\<close>

definition started_seat :: "'w net \<Rightarrow> raft_codec \<Rightarrow> kv_codec \<Rightarrow> nat \<Rightarrow> nat \<Rightarrow> Seat \<Rightarrow> bool" where
  "started_seat N C K n i s \<longleftrightarrow> (\<exists>rnd maxraftstate nodeInfoFile raftFile snapFile now h st. fair rnd \<and>
     KvServer_ctor N C K rnd (int i) maxraftstate nodeInfoFile raftFile snapFile now h = Inr st \<and>
     length (st_peers st) = n \<and> s = new_seat (st_server st))"

inductive cluster_step :: "'w net \<Rightarrow> raft_codec \<Rightarrow> kv_codec \<Rightarrow> nat \<Rightarrow> Cluster \<Rightarrow> Cluster \<Rightarrow> bool" for N C K n where
  raft: "net_act C n (raft_view c) w \<Longrightarrow> cluster_step N C K n c (put_view w c)"
| serve: "i < n \<Longrightarrow> seat_step C K (seats c i) s \<Longrightarrow> cluster_step N C K n c (c\<lparr>seats := (seats c)(i := s)\<rparr>)"
| again: "i < n \<Longrightarrow> started_seat N C K n i s \<Longrightarrow> cluster_step N C K n c (c\<lparr>seats := (seats c)(i := s)\<rparr>)"

definition cluster_start :: "'w net \<Rightarrow> raft_codec \<Rightarrow> kv_codec \<Rightarrow> nat \<Rightarrow> Cluster \<Rightarrow> bool" where
  "cluster_start N C K n c \<longleftrightarrow> (\<forall>i < n. started_seat N C K n i (seats c i)) \<and> air c = {}"

definition cluster_reach :: "'w net \<Rightarrow> raft_codec \<Rightarrow> kv_codec \<Rightarrow> nat \<Rightarrow> Cluster \<Rightarrow> bool" where
  "cluster_reach N C K n = reached (cluster_start N C K n) (cluster_step N C K n)"

lemma cluster_reach_start: "cluster_start N C K n c \<Longrightarrow> cluster_reach N C K n c"
  by (simp add: cluster_reach_def reached.first)

lemma cluster_reach_step: "cluster_reach N C K n c \<Longrightarrow> cluster_step N C K n c c' \<Longrightarrow> cluster_reach N C K n c'"
  unfolding cluster_reach_def by (rule reached.onward)

text \<open>What a start leaves: nothing of the files of an earlier run.\<close>

lemma ReadSnapshot_fresh: "ReadSnapshot (Persister_ctor rf sf) = ([], Persister_ctor rf sf)"
  by (simp add: ReadSnapshot_def Persister_ctor_def stream_defs Let_def)

lemma KvServer_ctor_server:
  assumes "KvServer_ctor N C K rnd me maxraftstate nodeInfoFile rf sf now h = Inr st"
  shows "\<exists>r. raft_init C (length (st_peers st)) me (Persister_ctor rf sf) newLockQueue now = Inr r \<and>
    st_server st = \<lparr>kv_me = me, m_raftNode = r, m_maxRaftState = maxraftstate, m_serializedKVData = [],
      m_skipList = SkipList_ctor 6 [] [] rnd, waitApplyCh = Map.empty, channels = Map.empty, next_channel = 0,
      m_lastRequestId = Map.empty, m_lastSnapshotRaftLogIndex = 0\<rparr>"
proof -
  from assms obtain cfg where cfg: "LoadConfigFile nodeInfoFile Map.empty = Inr cfg" by (auto simp: KvServer_ctor_def res_simps)
  obtain servers h1 where c: "connect_nodes N me 0 (node_loop cfg 0) h = (servers, h1)" by (cases "connect_nodes N me 0 (node_loop cfg 0) h")
  show ?thesis using assms by (auto simp: KvServer_ctor_def cfg c raft_init_fresh ReadSnapshot_fresh Let_def)
qed

lemma seat_ok_started:
  assumes "started_seat N C K n i s" "i < n"
  shows "seat_ok C K n i s"
proof -
  from assms(1) obtain rnd maxraftstate nodeInfoFile rf sf now h st where s: "fair rnd"
    "KvServer_ctor N C K rnd (int i) maxraftstate nodeInfoFile rf sf now h = Inr st" "length (st_peers st) = n" "s = new_seat (st_server st)"
    by (auto simp: started_seat_def)
  from KvServer_ctor_server [OF s(2)] obtain r where r: "raft_init C n (int i) (Persister_ctor rf sf) newLockQueue now = Inr r"
    "st_server st = \<lparr>kv_me = int i, m_raftNode = r, m_maxRaftState = maxraftstate, m_serializedKVData = [],
      m_skipList = SkipList_ctor 6 [] [] rnd, waitApplyCh = Map.empty, channels = Map.empty, next_channel = 0,
      m_lastRequestId = Map.empty, m_lastSnapshotRaftLogIndex = 0\<rparr>" unfolding s(3) by blast
  have "raft_wf r" by (rule raft_wf_init [OF r(1)]) (use assms(2) in simp_all)
  moreover have "m_me r = int i" "m_peers_size r = n" using r(1) by (auto simp: raft_init_fresh)
  ultimately show ?thesis using hands_ok_init [OF r(1)] sl_ok_ctor [OF s(1), of 6 "[] :: string" "[] :: string"]
      sl_abs_ctor [OF s(1), of 6 "[] :: string" "[] :: string"]
    by (simp add: s(4) r(2) new_seat_def seat_ok_def data_ok_def node_typed_def kv_abs_def queued_def)
qed

definition cluster_ok :: "raft_codec \<Rightarrow> kv_codec \<Rightarrow> nat \<Rightarrow> Cluster \<Rightarrow> bool" where
  "cluster_ok C K n c \<longleftrightarrow> (\<forall>i < n. seat_ok C K n i (seats c i)) \<and> (\<forall>p \<in> air c. packet_typed p)"

lemma cluster_ok_raft:
  assumes "net_act C n (raft_view c) w" "cluster_ok C K n c"
  shows "cluster_ok C K n (put_view w c)"
proof -
  have "all_hand_ok (\<lambda>i. took (seats c i)) n (raft_view c)"
    using assms(2) by (auto simp: all_hand_ok_def net_typed_def cluster_ok_def seat_ok_def raft_view_def)
  from all_hand_ok_act [OF assms(1) this] have w: "\<forall>i < n. node_typed n i (members w i) \<and> hands_ok (took (seats c i)) (members w i)"
    "\<forall>p \<in> soup w. packet_typed p" by (simp_all add: all_hand_ok_def net_typed_def)
  have "queued (s\<lparr>m_raftNode := r\<rparr>) = queued s" for s :: KvServer and r by (rule queued_same) simp
  with w assms(2) show ?thesis
    by (auto simp: cluster_ok_def seat_ok_def put_view_def data_ok_def kv_abs_def node_typed_wf)
qed

lemma cluster_ok_step: "cluster_step N C K n c c' \<Longrightarrow> cluster_ok C K n c \<Longrightarrow> cluster_ok C K n c'"
proof (induction rule: cluster_step.induct)
  case (raft c w)
  then show ?case by (rule cluster_ok_raft)
next
  case (serve i c s)
  then show ?case using seat_ok_seat_step by (auto simp: cluster_ok_def)
next
  case (again i s c)
  then show ?case by (auto simp: cluster_ok_def intro: seat_ok_started)
qed

interpretation served: step_invariant "cluster_start N C K n" "cluster_step N C K n" "cluster_ok C K n"
    for N :: "'w net" and C K n
proof unfold_locales
  show "cluster_ok C K n c" if "cluster_start N C K n c" for c
    using that by (auto simp: cluster_start_def cluster_ok_def intro: seat_ok_started)
qed (rule cluster_ok_step)

lemma cluster_ok_reach: "cluster_reach N C K n c \<Longrightarrow> cluster_ok C K n c"
  unfolding cluster_reach_def by (rule served.always)

end
