(* ===== verification/Embedding.thy ===== *)
theory Embedding
  imports Cluster
begin

text \<open>
  The raft nodes inside the servers (theory Cluster) behave as the nodes of theory Network, where nobody takes the
  messages out of the channels: put back what a server has taken, and every step of the service is a step of
  the network or none. So what holds of every run of the network holds of the nodes of every run of the service.
\<close>

subsection \<open>A node with its channel filled up again\<close>

definition fill :: "'a list \<Rightarrow> 'a LockQueue \<Rightarrow> 'a LockQueue" where
  "fill h q = q\<lparr>m_queue := h @ m_queue q\<rparr>"

definition refill :: "ApplyMsg list \<Rightarrow> Raft \<Rightarrow> Raft" where
  "refill h s = s\<lparr>applyChan := fill h (applyChan s)\<rparr>"

named_theorems refill_simps "an operation does not look at the channel"

lemma refill_fields [refill_simps]:
  "m_peers_size (refill h s) = m_peers_size s" "m_persister (refill h s) = m_persister s" "m_me (refill h s) = m_me s"
  "m_currentTerm (refill h s) = m_currentTerm s" "m_votedFor (refill h s) = m_votedFor s" "m_logs (refill h s) = m_logs s"
  "m_commitIndex (refill h s) = m_commitIndex s" "m_lastApplied (refill h s) = m_lastApplied s"
  "m_nextIndex (refill h s) = m_nextIndex s" "m_matchIndex (refill h s) = m_matchIndex s" "m_status (refill h s) = m_status s"
  "m_lastResetElectionTime (refill h s) = m_lastResetElectionTime s"
  "m_lastResetHeartBeatTime (refill h s) = m_lastResetHeartBeatTime s"
  "m_lastSnapshotIncludeIndex (refill h s) = m_lastSnapshotIncludeIndex s"
  "m_lastSnapshotIncludeTerm (refill h s) = m_lastSnapshotIncludeTerm s" "applyChan (refill h s) = fill h (applyChan s)"
  by (simp_all add: refill_def)

lemma refill_updates [refill_simps]:
  "(refill h s)\<lparr>m_persister := p\<rparr> = refill h (s\<lparr>m_persister := p\<rparr>)" "(refill h s)\<lparr>m_currentTerm := x\<rparr> = refill h (s\<lparr>m_currentTerm := x\<rparr>)"
  "(refill h s)\<lparr>m_votedFor := x\<rparr> = refill h (s\<lparr>m_votedFor := x\<rparr>)" "(refill h s)\<lparr>m_logs := ls\<rparr> = refill h (s\<lparr>m_logs := ls\<rparr>)"
  "(refill h s)\<lparr>m_commitIndex := x\<rparr> = refill h (s\<lparr>m_commitIndex := x\<rparr>)" "(refill h s)\<lparr>m_lastApplied := x\<rparr> = refill h (s\<lparr>m_lastApplied := x\<rparr>)"
  "(refill h s)\<lparr>m_nextIndex := v\<rparr> = refill h (s\<lparr>m_nextIndex := v\<rparr>)" "(refill h s)\<lparr>m_matchIndex := v\<rparr> = refill h (s\<lparr>m_matchIndex := v\<rparr>)"
  "(refill h s)\<lparr>m_status := st\<rparr> = refill h (s\<lparr>m_status := st\<rparr>)"
  "(refill h s)\<lparr>m_lastResetElectionTime := x\<rparr> = refill h (s\<lparr>m_lastResetElectionTime := x\<rparr>)"
  "(refill h s)\<lparr>m_lastResetHeartBeatTime := x\<rparr> = refill h (s\<lparr>m_lastResetHeartBeatTime := x\<rparr>)"
  "(refill h s)\<lparr>m_lastSnapshotIncludeIndex := x\<rparr> = refill h (s\<lparr>m_lastSnapshotIncludeIndex := x\<rparr>)"
  "(refill h s)\<lparr>m_lastSnapshotIncludeTerm := x\<rparr> = refill h (s\<lparr>m_lastSnapshotIncludeTerm := x\<rparr>)"
  "(refill h s)\<lparr>applyChan := fill h q\<rparr> = refill h (s\<lparr>applyChan := q\<rparr>)" "Push m (fill h q) = fill h (Push m q)"
  by (simp_all add: refill_def fill_def Push_def)

lemma refill_queries [refill_simps]:
  "getLastLogIndexAndTerm (refill h s) = getLastLogIndexAndTerm s" "persistData C (refill h s) = persistData C s"
  "persist C (refill h s) = refill h (persist C s)" "peers_but_me (refill h s) = peers_but_me s" "majority (refill h s) = majority s"
  by (simp_all add: getLastLogIndexAndTerm_def persistData_def persist_def peers_but_me_def majority_def refill_fields refill_updates)

lemma refill_last [refill_simps]:
  "getLastLogIndex (refill h s) = getLastLogIndex s" "getLastLogTerm (refill h s) = getLastLogTerm s"
  "getNewCommandIndex (refill h s) = getNewCommandIndex s" "UpToDate (refill h s) = UpToDate s"
  by (simp_all add: getLastLogIndex_def getLastLogTerm_def getNewCommandIndex_def UpToDate_def refill_simps fun_eq_iff)

lemma refill_slices [refill_simps]: "getSlicesIndexFromLogIndex (refill h s) = getSlicesIndexFromLogIndex s"
  by (simp add: getSlicesIndexFromLogIndex_def refill_simps fun_eq_iff)

lemma refill_terms [refill_simps]: "getLogTermFromLogIndex (refill h s) = getLogTermFromLogIndex s"
  by (simp add: getLogTermFromLogIndex_def refill_simps fun_eq_iff cong: if_cong)

lemma refill_match [refill_simps]: "matchLog (refill h s) = matchLog s" "getPrevLogInfo (refill h s) = getPrevLogInfo s"
  by (simp_all add: matchLog_def getPrevLogInfo_def refill_simps fun_eq_iff cong: if_cong)

lemma refill_hb_peer [refill_simps]: "hb_peer (refill h s) = hb_peer s"
  by (simp add: hb_peer_def refill_simps fun_eq_iff cong: if_cong)

text \<open>How the filling passes through results.\<close>

definition okR :: "('a \<Rightarrow> 'b) \<Rightarrow> 'a res \<Rightarrow> 'b res" where
  "okR g m = bindR m (\<lambda>x. Inr (g x))"

lemma okR_simps [simp]: "okR g (Inr x) = Inr (g x)" "okR g (Inl e) = Inl e"
  by (simp_all add: okR_def)

lemma okR_bind [refill_simps]: "okR g (bindR m f) = bindR m (\<lambda>x. okR g (f x))"
  by (cases m) simp_all

lemma bind_okR [refill_simps]: "bindR (okR g m) f = bindR m (\<lambda>x. f (g x))"
  by (cases m) simp_all

lemma okR_if [refill_simps]: "okR g (if c then a else b) = (if c then okR g a else okR g b)"
  by simp

lemma okR_split [refill_simps]: "okR g (case p of (a, b) \<Rightarrow> f a b) = (case p of (a, b) \<Rightarrow> okR g (f a b))"
  by (cases p) simp

lemma split_apsnd [refill_simps]: "(case apsnd g p of (a, b) \<Rightarrow> f a b) = (case p of (a, b) \<Rightarrow> f a (g b))"
  by (cases p) simp

lemma refill_if [refill_simps]: "(if c then refill h s else refill h t) = refill h (if c then s else t)"
  by simp

abbreviation keeps_refill :: "(Raft \<Rightarrow> ('a \<times> Raft) res) \<Rightarrow> bool" where
  "keeps_refill f \<equiv> \<forall>h s. f (refill h s) = okR (apsnd (refill h)) (f s)"

lemma keeps_refill: "keeps_refill f \<Longrightarrow> f s = Inr (r, t) \<Longrightarrow> f (refill h s) = Inr (r, refill h t)"
  by simp

subsection \<open>The operations\<close>

lemma refill_doElection: "doElection C now s = (cs, t) \<Longrightarrow> doElection C now (refill h s) = (cs, refill h t)"
  by (auto simp: doElection_def Let_def refill_simps split: if_splits)

lemma refill_RequestVote: "keeps_refill (RequestVote C now a r0)"
  by (simp add: RequestVote_def Let_def refill_simps cong: if_cong)

lemma refill_voted: "sendRequestVote_reply C ok r v (refill h s) = okR (apsnd (apsnd (refill h))) (sendRequestVote_reply C ok r v s)"
  by (simp add: sendRequestVote_reply_def becomeLeader_def Let_def refill_simps cong: if_cong)

lemma refill_doHeartBeat: "keeps_refill (doHeartBeat now)"
  by (simp add: doHeartBeat_def refill_simps cong: if_cong)

lemma refill_ae_entry: "ae_entry e (refill h s) = okR (refill h) (ae_entry e s)"
  by (simp add: ae_entry_def refill_simps cong: if_cong)

lemma refill_ae_entries: "foldR ae_entry es (refill h s) = okR (refill h) (foldR ae_entry es s)"
  by (induction es arbitrary: s) (simp_all add: refill_ae_entry refill_simps)

lemma refill_conflict_scan: "conflict_scan (refill h s) p i u = conflict_scan s p i u"
proof (induction s p i u rule: conflict_scan.induct)
  case (1 s p i u)
  show ?case
    by (subst conflict_scan.simps, subst (2) conflict_scan.simps) (auto simp: refill_simps intro!: bindR_cong 1)
qed

lemma refill_ae_log: "keeps_refill (ae_log a r0)"
  by (simp add: ae_log_def Let_def refill_simps refill_conflict_scan refill_ae_entries cong: if_cong)

lemma refill_AppendEntries1: "keeps_refill (AppendEntries1 C now a r0)"
  by (simp add: AppendEntries1_def Let_def refill_simps refill_ae_log cong: if_cong)

lemma refill_appended: "keeps_refill (sendAppendEntries_reply ok k a r num)"
  by (simp add: sendAppendEntries_reply_def Let_def refill_simps cong: if_cong)

lemma refill_snap_args: "leaderSendSnapShot_args s = (a, t) \<Longrightarrow> leaderSendSnapShot_args (refill h s) = (a, refill h t)"
  by (auto simp: leaderSendSnapShot_args_def refill_simps split: prod.splits)

lemma refill_installed: "leaderSendSnapShot_reply C now ok k a r (refill h s) = okR (refill h) (leaderSendSnapShot_reply C now ok k a r s)"
  by (simp add: leaderSendSnapShot_reply_def refill_simps cong: if_cong)

lemma refill_InstallSnapshot: "keeps_refill (InstallSnapshot C now a r0)"
  by (simp add: InstallSnapshot_def Let_def refill_simps cong: if_cong)

lemma refill_Start: "Start C op s = (i, tm, l, t) \<Longrightarrow> Start C op (refill h s) = (i, tm, l, refill h t)"
  by (auto simp: Start_def Let_def refill_simps split: if_splits)

lemma refill_Snapshot: "Snapshot C i data (refill h s) = okR (refill h) (Snapshot C i data s)"
  by (simp add: Snapshot_def Let_def refill_simps cong: if_cong)

lemma refill_apply_loop: "apply_loop (refill h s) = okR (apsnd (refill h)) (apply_loop s)"
proof (induction s rule: apply_loop.induct)
  case (1 s)
  let ?s = "s\<lparr>m_lastApplied := m_lastApplied s + 1\<rparr>"
  show ?case
  proof (cases "m_lastApplied s < m_commitIndex s")
    case False
    then show ?thesis by (simp add: apply_loop.simps [of s] apply_loop.simps [of "refill h s"] refill_simps)
  next
    case True
    have "bindR (apply_loop (refill h ?s)) f = bindR (apply_loop ?s) (\<lambda>x. f (apsnd (refill h) x))"
      if "getSlicesIndexFromLogIndex ?s (m_lastApplied ?s) = Inr j" "vec_at (m_logs ?s) j = Inr e" "logindex e = m_lastApplied ?s"
      for j e and f :: "ApplyMsg list \<times> Raft \<Rightarrow> (ApplyMsg list \<times> Raft) res"
      using 1 [OF True refl that(1,2) _] that(3) by (simp add: refill_simps)
    with True show ?thesis
      by (simp add: apply_loop.simps [of s] apply_loop.simps [of "refill h s"] refill_simps Let_def)
        (auto simp: refill_simps intro!: bindR_cong)
  qed
qed

lemma refill_pushes: "fold pushMsgToKvServer ms (refill h s) = refill h (fold pushMsgToKvServer ms s)"
  by (induction ms arbitrary: s) (simp_all add: pushMsgToKvServer_def refill_simps)

lemma refill_round: "applierTicker_round (refill h s) = okR (refill h) (applierTicker_round s)"
  by (simp add: applierTicker_round_def getApplyLogs_def refill_simps refill_pushes refill_apply_loop)


subsection \<open>A step of the nodes\<close>

definition filled :: "nat \<Rightarrow> (nat \<Rightarrow> ApplyMsg list) \<Rightarrow> Network \<Rightarrow> Network \<Rightarrow> bool" where
  "filled n hs v w \<longleftrightarrow> soup w = soup v \<and> (\<forall>i < n. members w i = refill (hs i) (members v i))"

lemma filled_goes: "filled n hs v w \<Longrightarrow> filled n hs (goes i t ps v) (goes i (refill (hs i) t) ps w)"
  by (simp add: filled_def goes_def)

lemma filled_member: "filled n hs v w \<Longrightarrow> i < n \<Longrightarrow> members w i = refill (hs i) (members v i)"
  by (simp add: filled_def)

text \<open>What a node does, it does with its channel filled up.\<close>

lemma filled_act:
  assumes "net_act C n v v'" "filled n hs v w"
  shows "\<exists>w'. net_act C n w w' \<and> filled n hs v' w'"
proof -
  have s: "soup w = soup v" and m: "\<And>i. i < n \<Longrightarrow> members w i = refill (hs i) (members v i)"
    using assms(2) by (simp_all add: filled_def)
  have go: "\<exists>w'. net_act C n w w' \<and> filled n hs (goes i t ps v) w'" if "net_act C n w (goes i (refill (hs i) t) ps w)" for i t ps
    using that filled_goes [OF assms(2)] by blast
  from assms(1) show ?thesis
  proof (cases rule: net_act.cases)
    case (elect i now cs t)
    then show ?thesis using m by (auto intro!: go net_act.elect refill_doElection)
  next
    case (vote i k a now r t)
    then show ?thesis using m s by (auto intro!: go net_act.vote [where now = now] simp: refill_RequestVote)
  next
    case (voted i r votes vs hb t)
    then show ?thesis using m s by (auto intro!: go net_act.voted [where votes = votes] simp: refill_voted)
  next
    case (heartbeat i now cs t)
    then show ?thesis using m by (auto intro!: go net_act.heartbeat [where now = now] simp: refill_doHeartBeat)
  next
    case (append i k a now r t)
    then show ?thesis using m s by (auto intro!: go net_act.append [where now = now] simp: refill_AppendEntries1)
  next
    case (appended i k a r num num' t)
    then show ?thesis using m s by (auto intro!: go net_act.appended [where num = num] simp: refill_appended)
  next
    case (send_snapshot i a t k)
    then show ?thesis using m by (auto intro!: go net_act.send_snapshot refill_snap_args)
  next
    case (install i k a now r t)
    then show ?thesis using m s by (auto intro!: go net_act.install [where now = now] simp: refill_InstallSnapshot)
  next
    case (installed i k a r now t)
    then show ?thesis using m s by (auto intro!: go net_act.installed [where now = now] simp: refill_installed)
  next
    case (apply_logs i t)
    then show ?thesis using m by (auto intro!: go net_act.apply_logs simp: refill_round)
  qed
qed

subsection \<open>A step of a server\<close>

text \<open>What a server's step does to its node: nothing; a command is started; or the front of the channel is
  taken and perhaps a snapshot made.\<close>

lemma refill_pop: "apply_queue s = m # ms \<Longrightarrow> refill h (m_raftNode s) = refill (h @ [m]) (m_raftNode (set_queue ms s))"
  by (simp add: refill_def fill_def set_queue_def apply_queue_def)

lemma seat_step_raft:
  assumes "seat_step C K s s'" "data_ok (server s)"
  shows "(m_raftNode (server s') = m_raftNode (server s) \<and> took s' = took s) \<or>
    (\<exists>op i tm l. Start C op (m_raftNode (server s)) = (i, tm, l, m_raftNode (server s')) \<and> took s' = took s) \<or>
    (\<exists>m ms i. apply_queue (server s) = m # ms \<and> took s' = took s @ taken_now m \<and>
       may_snapshot C i (set_queue ms (server s)) (server s'))"
  using assms
proof (induction rule: seat_step.induct)
  case (turn s m ms t)
  from apply_turn_turned [OF turn.prems turn.hyps(2)] turn.hyps(1) show ?case by (auto simp: turned_def)
next
  case (put_answer s op i popped ts r t)
  then show ?case by (auto simp: PutAppend_end_def Let_def drop_channel_def subscript_def split: option.splits)
next
  case (get_answer s op i popped ts r t)
  from Get_end_answer [OF get_answer.prems get_answer.hyps(2)] show ?case by simp
next
  case (put_wait s op i ch ts timedout popped t)
  then show ?case by (auto simp: wait_channel_def split: option.splits)
next
  case (get_wait s op i ch ts timedout popped t)
  then show ?case by (auto simp: wait_channel_def split: option.splits)
qed (auto simp: PutAppend_begin_def Get_begin_def submit_def put_channel_def get_channel_def new_channel_def emplace_def
      subscript_def Let_def split: prod.splits if_splits option.splits)

lemma seat_step_filled:
  assumes "seat_step C K s s'" "data_ok (server s)" "i < n" "members w i = refill h (m_raftNode (server s))"
  shows "\<exists>h' w'. (net_step C n)\<^sup>*\<^sup>* w w' \<and> w' = goes i (refill h' (m_raftNode (server s'))) {} w \<and>
    (concat (map taken_now h) = took s \<longrightarrow> concat (map taken_now h') = took s')"
  using seat_step_raft [OF assms(1,2)]
proof (elim disjE exE conjE)
  assume "m_raftNode (server s') = m_raftNode (server s)" "took s' = took s"
  moreover have "goes i (refill h (m_raftNode (server s))) {} w = w" using assms(4) by (simp add: goes_def fun_upd_idem)
  ultimately show ?thesis by (metis rtranclp.rtrancl_refl)
next
  fix op j tm l
  assume st: "Start C op (m_raftNode (server s)) = (j, tm, l, m_raftNode (server s'))" and "took s' = took s"
  from refill_Start [OF st, of h] have "net_step C n w (goes i (refill h (m_raftNode (server s'))) {} w)"
    unfolding assms(4) [symmetric] by (rule net_step.command [OF assms(3)])
  with \<open>took s' = took s\<close> show ?thesis by auto
next
  fix m ms j
  assume q: "apply_queue (server s) = m # ms" "took s' = took s @ taken_now m" "may_snapshot C j (set_queue ms (server s)) (server s')"
  let ?r = "m_raftNode (set_queue ms (server s))"
  have w: "members w i = refill (h @ [m]) ?r" using assms(4) refill_pop [OF q(1)] by simp
  have tk: "concat (map taken_now h) = took s \<longrightarrow> concat (map taken_now (h @ [m])) = took s'" using q(2) by simp
  from q(3) consider "m_raftNode (server s') = ?r" | snap where "Snapshot C j snap ?r = Inr (m_raftNode (server s'))"
    by (auto simp: may_snapshot_def)
  then have "(net_step C n)\<^sup>*\<^sup>* w (goes i (refill (h @ [m]) (m_raftNode (server s'))) {} w)"
  proof cases
    case 1
    with w have "goes i (refill (h @ [m]) (m_raftNode (server s'))) {} w = w" by (simp add: goes_def fun_upd_idem)
    then show ?thesis by simp
  next
    case 2
    then have "Snapshot C j snap (members w i) = Inr (refill (h @ [m]) (m_raftNode (server s')))" by (simp add: w refill_Snapshot)
    from net_step.snapshot [OF assms(3) this] show ?thesis by blast
  qed
  with tk show ?thesis by blast
qed

subsection \<open>The service refines the network\<close>

text \<open>A state of the service stands for a state of the network: the same messages, each node with the messages its server has taken
  put back, whose commands are what the server took.\<close>

definition stands_for :: "nat \<Rightarrow> Cluster \<Rightarrow> Network \<Rightarrow> bool" where
  "stands_for n c w \<longleftrightarrow> (\<exists>hs. filled n hs (raft_view c) w \<and> (\<forall>i < n. concat (map taken_now (hs i)) = took (seats c i)))"

lemma stands_for_start:
  assumes "cluster_start N C K n c"
  shows "\<exists>w. reached (\<lambda>w. w = net_init n) (net_step C n) w \<and> stands_for n c w"
proof -
  have r: "\<exists>rf sf now. raft_init C n (int i) (Persister_ctor rf sf) newLockQueue now = Inr (m_raftNode (server (seats c i))) \<and>
      took (seats c i) = []" if "i < n" for i
  proof -
    from assms that obtain rnd mx cfg rf sf now h st where "KvServer_ctor N C K rnd (int i) mx cfg rf sf now h = Inr st"
      "length (st_peers st) = n" "seats c i = new_seat (st_server st)" by (auto simp: cluster_start_def started_seat_def)
    with KvServer_ctor_server show ?thesis by (fastforce simp: new_seat_def)
  qed
  have "\<exists>w. net_reach C n w \<and> soup w = {} \<and> (\<forall>i < k. members w i = m_raftNode (server (seats c i)))" if "k \<le> n" for k
    using that
  proof (induction k)
    case 0
    then show ?case using net_reach_init by (auto simp: net_init_def intro!: exI [of _ "net_init n"])
  next
    case (Suc k)
    then obtain w where w: "net_reach C n w" "soup w = {}" "\<forall>i < k. members w i = m_raftNode (server (seats c i))" by auto
    from Suc.prems have k: "k < n" by simp
    from r [OF k] obtain rf sf now where
      i: "raft_init C n (int k) (Persister_ctor rf sf) newLockQueue now = Inr (m_raftNode (server (seats c k)))" by blast
    have "net_reach C n (goes k (m_raftNode (server (seats c k))) {} w)"
      by (rule net_reach_step [OF w(1) net_step.restart [OF k i]])
    with w(2,3) show ?case by (intro exI [of _ "goes k (m_raftNode (server (seats c k))) {} w"]) (auto simp: goes_def less_Suc_eq)
  qed
  then obtain w where w: "net_reach C n w" "soup w = {}" "\<forall>i < n. members w i = m_raftNode (server (seats c i))" by blast
  have "refill [] s = s" for s by (simp add: refill_def fill_def)
  with w(2,3) assms r have "stands_for n c w"
    unfolding stands_for_def filled_def by (intro exI [of _ "\<lambda>i. []"]) (auto simp: raft_view_def cluster_start_def)
  with w(1) show ?thesis unfolding net_reach_def by blast
qed

lemma stands_for_seat:
  assumes "stands_for n c w" "i < n"
    and "\<And>h. members w i = refill h (m_raftNode (server (seats c i))) \<Longrightarrow> concat (map taken_now h) = took (seats c i) \<Longrightarrow>
      \<exists>h'. (net_step C n)\<^sup>*\<^sup>* w (goes i (refill h' (m_raftNode (server s))) {} w) \<and> concat (map taken_now h') = took s"
  shows "\<exists>w'. (net_step C n)\<^sup>*\<^sup>* w w' \<and> stands_for n (c\<lparr>seats := (seats c)(i := s)\<rparr>) w'"
proof -
  from assms(1) obtain hs where h: "filled n hs (raft_view c) w" "\<forall>i < n. concat (map taken_now (hs i)) = took (seats c i)"
    by (auto simp: stands_for_def)
  have "members w i = refill (hs i) (m_raftNode (server (seats c i)))" using filled_member [OF h(1) assms(2)] by (simp add: raft_view_def)
  from assms(3) [OF this] h(2) assms(2) obtain h' where
    h': "(net_step C n)\<^sup>*\<^sup>* w (goes i (refill h' (m_raftNode (server s))) {} w)" "concat (map taken_now h') = took s" by blast
  let ?hs = "hs(i := h')"
  have "filled n ?hs (raft_view (c\<lparr>seats := (seats c)(i := s)\<rparr>)) (goes i (refill h' (m_raftNode (server s))) {} w)"
    using h(1) by (auto simp: filled_def goes_def raft_view_def)
  moreover have "\<forall>j < n. concat (map taken_now (?hs j)) = took ((seats (c\<lparr>seats := (seats c)(i := s)\<rparr>)) j)"
    using h(2) h'(2) by auto
  ultimately have "stands_for n (c\<lparr>seats := (seats c)(i := s)\<rparr>) (goes i (refill h' (m_raftNode (server s))) {} w)"
    unfolding stands_for_def by blast
  with h'(1) show ?thesis by blast
qed

lemma stands_for_step:
  assumes "cluster_step N C K n c c'" "cluster_ok C K n c" "stands_for n c w"
  shows "\<exists>w'. (net_step C n)\<^sup>*\<^sup>* w w' \<and> stands_for n c' w'"
  using assms
proof (induction rule: cluster_step.induct)
  case (raft c v)
  from raft.prems(2) obtain hs where h: "filled n hs (raft_view c) w" "\<forall>i < n. concat (map taken_now (hs i)) = took (seats c i)"
    by (auto simp: stands_for_def)
  from filled_act [OF raft.hyps h(1)] obtain w' where w': "net_act C n w w'" "filled n hs v w'" by blast
  have "raft_view (put_view v c) = v" by (simp add: raft_view_def put_view_def)
  with w'(2) h(2) have "stands_for n (put_view v c) w'" unfolding stands_for_def by (intro exI [of _ hs]) (simp add: put_view_def)
  with net_step.act [OF w'(1)] show ?case by blast
next
  case (serve i c s)
  from serve.prems(1) serve.hyps(1) have ok: "data_ok (server (seats c i))" by (simp add: cluster_ok_def seat_ok_def)
  show ?case
  proof (rule stands_for_seat [OF serve.prems(2) serve.hyps(1)])
    fix h assume h: "members w i = refill h (m_raftNode (server (seats c i)))" "concat (map taken_now h) = took (seats c i)"
    from seat_step_filled [OF serve.hyps(2) ok serve.hyps(1) h(1)] h(2)
    show "\<exists>h'. (net_step C n)\<^sup>*\<^sup>* w (goes i (refill h' (m_raftNode (server s))) {} w) \<and> concat (map taken_now h') = took s" by blast
  qed
next
  case (again i s c)
  from again.hyps(2) obtain rnd mx cfg rf sf now h st where s: "KvServer_ctor N C K rnd (int i) mx cfg rf sf now h = Inr st"
    "length (st_peers st) = n" "s = new_seat (st_server st)" by (auto simp: started_seat_def)
  from KvServer_ctor_server [OF s(1)] s(2,3) have
    t: "raft_init C n (int i) (Persister_ctor rf sf) newLockQueue now = Inr (m_raftNode (server s))" "took s = []"
    by (auto simp: new_seat_def)
  have "refill [] (m_raftNode (server s)) = m_raftNode (server s)" by (simp add: refill_def fill_def)
  with net_step.restart [OF again.hyps(1) t(1), of w] t(2) show ?case
    by (intro stands_for_seat [OF again.prems(2) again.hyps(1)] exI [of _ "[]"]) auto
qed

interpretation network: simulation "cluster_start N C K n" "cluster_step N C K n" "cluster_ok C K n" "\<lambda>w. w = net_init n"
    "net_step C n" "stands_for n" for N :: "'w net" and C K n
  by unfold_locales (auto intro: stands_for_start stands_for_step)

end
