(* ===== verification/ClusterRuns.thy ===== *)
theory ClusterRuns
  imports Embedding
begin

text \<open>
  Runs of the whole service (theory Cluster) and what holds in them: the service refines the network, and every
  calm run of the network is one of the service; two servers come to hold different contents; and what a server
  holds and answers comes from its deeds.
\<close>

subsection \<open>Runs of the raft nodes under their servers\<close>

text \<open>Every calm run of the raft nodes is a run of the cluster, in which the servers hand over the commands and
  take nothing yet.\<close>

definition same_seat :: "Seat \<Rightarrow> Seat \<Rightarrow> bool" where
  "same_seat s s' \<longleftrightarrow> server s' = (server s)\<lparr>m_raftNode := m_raftNode (server s')\<rparr> \<and> tasks s \<subseteq># tasks s' \<and>
     took s' = took s \<and> deeds s' = deeds s \<and> answers s' = answers s"

lemma same_seat_refl [simp]: "same_seat s s"
  by (simp add: same_seat_def)

lemma same_seat_trans:
  assumes "same_seat s t" "same_seat t u"
  shows "same_seat s u"
proof -
  from assms have "server u = ((server s)\<lparr>m_raftNode := m_raftNode (server t)\<rparr>)\<lparr>m_raftNode := m_raftNode (server u)\<rparr>"
    unfolding same_seat_def by metis
  then have "server u = (server s)\<lparr>m_raftNode := m_raftNode (server u)\<rparr>" by simp
  with assms show ?thesis unfolding same_seat_def using subset_mset.order_trans by metis
qed

lemma put_op_surj: "\<exists>args. put_op args = op"
  by (intro exI [of _ "\<lparr>pa_key = key op, pa_value = opvalue op, pa_op = operation op, pa_clientid = clientId op,
      pa_requestid = requestId op\<rparr>"]) (simp add: put_op_def)

lemma raft_view_put [simp]: "raft_view (put_view w c) = w"
  by (simp add: raft_view_def put_view_def)

lemma calm_served:
  assumes "net_calm C n v w" "cluster_reach N C K n c" "raft_view c = v"
  shows "\<exists>c'. cluster_reach N C K n c' \<and> raft_view c' = w \<and> (\<forall>i. same_seat (seats c i) (seats c' i))"
  using assms(1)
proof (induction rule: net_calm.induct)
  case init
  with assms(2,3) show ?case by (intro exI [of _ c]) simp
next
  case (act w w')
  then obtain d where d: "cluster_reach N C K n d" "raft_view d = w" "\<forall>i. same_seat (seats c i) (seats d i)" by blast
  have "cluster_reach N C K n (put_view w' d)"
    by (rule cluster_reach_step [OF d(1)], rule cluster_step.raft) (use act.hyps(2) d(2) in simp)
  moreover have "same_seat (seats d i) (seats (put_view w' d) i)" for i by (simp add: put_view_def same_seat_def)
  with d(3) have "\<forall>i. same_seat (seats c i) (seats (put_view w' d) i)" using same_seat_trans by blast
  ultimately show ?case using raft_view_put by blast
next
  case (command w i cmd index tm leader t)
  then obtain d where d: "cluster_reach N C K n d" "raft_view d = w" "\<forall>i. same_seat (seats c i) (seats d i)" by blast
  have m: "members w i = m_raftNode (server (seats d i))" "soup w = air d" using d(2) by (auto simp: raft_view_def)
  show ?case
  proof (cases leader)
    case False
    then have "goes i t {} w = w" using command.hyps(3) by (auto simp: Start_def Let_def goes_def split: if_splits)
    with d show ?thesis by auto
  next
    case True
    obtain args where a: "put_op args = cmd" using put_op_surj by blast
    let ?s = "(seats d i)\<lparr>server := (server (seats d i))\<lparr>m_raftNode := t\<rparr>,
        tasks := add_mset (PutStarted (put_op args) index) (tasks (seats d i))\<rparr>"
    let ?d = "d\<lparr>seats := (seats d)(i := ?s)\<rparr>"
    have "submit C (put_op args) (server (seats d i)) = (index, True, (server (seats d i))\<lparr>m_raftNode := t\<rparr>)"
      using command.hyps(3) True by (simp add: submit_def a m(1))
    then have "cluster_reach N C K n ?d"
      by (intro cluster_reach_step [OF d(1)] cluster_step.serve [OF command.hyps(2)] seat_step.put_start)
    moreover have "raft_view ?d = goes i t {} w" using d(2) m(2) by (auto simp: raft_view_def goes_def fun_eq_iff)
    moreover have "same_seat (seats d j) (seats ?d j)" for j by (simp add: same_seat_def)
    with d(3) have "\<forall>j. same_seat (seats c j) (seats ?d j)" using same_seat_trans by blast
    ultimately show ?thesis by blast
  qed
qed

text \<open>A cluster of three that has just been started.\<close>

definition base_server :: "nat \<Rightarrow> nat \<Rightarrow> KvServer" where
  "base_server n i = \<lparr>kv_me = int i, m_raftNode = node0 n (int i), m_maxRaftState = -1, m_serializedKVData = [],
     m_skipList = SkipList_ctor 6 [] [] (\<lambda>p. Suc p mod 2), waitApplyCh = Map.empty, channels = Map.empty,
     next_channel = 0, m_lastRequestId = Map.empty, m_lastSnapshotRaftLogIndex = 0\<rparr>"

definition base_cluster :: "nat \<Rightarrow> Cluster" where
  "base_cluster n = \<lparr>seats = (\<lambda>i. new_seat (base_server n i)), air = {}\<rparr>"

definition three_nodes :: "registration list" where
  "three_nodes = [(0, ''10.0.0.1'', 27000), (1, ''10.0.0.2'', 27001), (2, ''10.0.0.3'', 27002)]"

lemma base_cluster_reach: "cluster_reach N C K 3 (base_cluster 3)"
proof (rule cluster_reach_start)
  have "\<forall>i < 3. started_seat N C K 3 i (seats (base_cluster 3) i)"
  proof (intro allI impI)
    fix i :: nat assume i: "i < 3"
    have r: "\<forall>g \<in> set three_nodes. reg_ok g"
      by (simp add: three_nodes_def reg_ok_def plain_def NL_def node_name_def to_string_def dec.simps)
    have s: "{0..<3} \<subseteq> fst ` set three_nodes" "3 \<notin> fst ` set three_nodes" "(3::int) < INT_MAX" "(0::int) \<le> int i" "int i < 3"
      using i by (auto simp: three_nodes_def INT_MAX_def)
    from node_starts_peers [OF r s fair_alternating, of N C K "-1" None None 0 undefined] obtain st where
      st: "KvServer_ctor N C K (\<lambda>p. Suc p mod 2) (int i) (-1) (Some (registrations three_nodes)) None None 0 undefined = Inr st"
      "length (st_peers st) = 3" by auto
    have "st_server st = base_server 3 i"
      using KvServer_ctor_server [OF st(1)] by (simp add: st(2) node0_init base_server_def)
    with st show "started_seat N C K 3 i (seats (base_cluster 3) i)"
      using fair_alternating unfolding started_seat_def base_cluster_def by fastforce
  qed
  then show "cluster_start N C K 3 (base_cluster 3)" by (simp add: cluster_start_def) (simp add: base_cluster_def)
qed

lemma base_cluster_view: "raft_view (base_cluster n) = net_init n"
  by (simp add: raft_view_def base_cluster_def new_seat_def base_server_def net_init_def)


text \<open>A server of this cluster takes the first command of its node.\<close>

definition sample_op :: "string \<Rightarrow> Op" where
  "sample_op k = \<lparr>operation = ''Put'', key = k, opvalue = ''v'', clientId = ''c'', requestId = 1\<rparr>"

lemma codec0_iaOp [simp]: "iaOp codec0 k = Some (sample_op k)"
  by (simp add: codec0_def sample_op_def)

lemma base_takes:
  assumes "server s = t\<lparr>m_raftNode := r\<rparr>" "kv_ok t" "kv_abs t = (Map.empty, Map.empty)" "m_lastSnapshotRaftLogIndex t = 0"
    and "raft_wf r" "m_queue (applyChan r) = [cmd_msg k 1]"
  shows "\<exists>u. seat_step codec0 K s (s\<lparr>server := u, took := took s @ [(1, k)], deeds := deeds s @ [Ran (sample_op k)]\<rparr>) \<and>
    kv_ok u \<and> kv_abs u = ([k \<mapsto> ''v''], [''c'' \<mapsto> 1]) \<and> waitApplyCh u = waitApplyCh t \<and>
    (\<forall>a. channels u a = (if waitApplyCh t 1 = Some (Some a) then map_option (Push (sample_op k)) (channels t a) else channels t a))"
proof -
  let ?s = "set_queue [] (server s)"
  have q: "apply_queue (server s) = [cmd_msg k 1]" using assms(6) by (simp add: apply_queue_def assms(1))
  have ok: "kv_ok ?s" "kv_abs ?s = (Map.empty, Map.empty)" "m_lastSnapshotRaftLogIndex ?s = 0" "waitApplyCh ?s = waitApplyCh t"
    "channels ?s = channels t"
  proof -
    have "kv_ok (t\<lparr>m_raftNode := r\<rparr>)" "kv_abs (t\<lparr>m_raftNode := r\<rparr>) = (Map.empty, Map.empty)"
      using assms(2,3,5) by (simp_all add: kv_ok_def kv_abs_def)
    then show "kv_ok ?s" "kv_abs ?s = (Map.empty, Map.empty)" "m_lastSnapshotRaftLogIndex ?s = 0" "waitApplyCh ?s = waitApplyCh t"
      "channels ?s = channels t" using assms(4) by (simp_all add: assms(1))
  qed
  from GetCommandFromRaft_result [OF ok(1) codec0_iaOp, of "cmd_msg k 1" K] ok obtain u where
    u: "GetCommandFromRaft codec0 K (cmd_msg k 1) ?s = Inr u" "kv_ok u" "kv_abs u = kv_apply (sample_op k) (Map.empty, Map.empty)"
    "kv_frame ?s u" "\<forall>a. channels u a = (if waitApplyCh t 1 = Some (Some a) then map_option (Push (sample_op k)) (channels t a) else channels t a)"
    by auto
  have l: "m_lastSnapshotRaftLogIndex (server s) = 0" using assms(4) by (simp add: assms(1))
  have "apply_turn codec0 K (server s) = Some (Inr u)" using apply_turn_command [OF q] u(1) by simp
  from seat_step.turn [OF q this] have
    "seat_step codec0 K s (s\<lparr>server := u, took := took s @ [(1, k)], deeds := deeds s @ [Ran (sample_op k)]\<rparr>)"
    by (simp add: taken_now_def deeds_now_def l)
  moreover have "kv_abs u = ([k \<mapsto> ''v''], [''c'' \<mapsto> 1])" using u(3) by (simp add: kv_apply_def duplicate_def sample_op_def)
  moreover have "waitApplyCh u = waitApplyCh t" using u(4) ok(4) by (simp add: kv_frame_def)
  ultimately show ?thesis using u(2,5) by blast
qed

lemma base_server_ok:
  assumes "i < n"
  shows "kv_ok (base_server n i)" "kv_abs (base_server n i) = (Map.empty, Map.empty)"
    "m_lastSnapshotRaftLogIndex (base_server n i) = 0"
  using assms sl_ok_ctor [OF fair_alternating, of 6 "[] :: string" "[] :: string"]
    sl_abs_ctor [OF fair_alternating, of 6 "[] :: string" "[] :: string"]
  by (simp_all add: base_server_def kv_ok_def wait_ok_def kv_abs_def raft_wf_node0)

subsection \<open>Two servers with different contents\<close>

lemma split_cluster:
  "\<exists>c. cluster_reach N codec0 K 3 c \<and> took (seats c 0) = [(1, ''a'')] \<and> took (seats c 1) = [(1, ''b'')] \<and>
     kv_abs (server (seats c 0)) = ([''a'' \<mapsto> ''v''], [''c'' \<mapsto> 1]) \<and>
     kv_abs (server (seats c 1)) = ([''b'' \<mapsto> ''v''], [''c'' \<mapsto> 1])"
proof -
  obtain w where w: "net_calm codec0 3 (net_init 3) w"
    "m_queue (applyChan (members w 0)) = [cmd_msg ''a'' 1]" "m_queue (applyChan (members w 1)) = [cmd_msg ''b'' 1]"
    by (rule split_run)
  obtain c where c: "cluster_reach N codec0 K 3 c" "raft_view c = w" "\<And>i. same_seat (seats (base_cluster 3) i) (seats c i)"
    using calm_served [OF w(1) base_cluster_reach base_cluster_view, of N K] by blast
  have s: "server (seats c i) = (base_server 3 i)\<lparr>m_raftNode := members w i\<rparr>" "took (seats c i) = []" for i
    using c(3) [of i] c(2) by (auto simp: same_seat_def raft_view_def base_cluster_def new_seat_def)
  have wf: "raft_wf (members w i)" if "i < 3" for i
    using cluster_ok_reach [OF c(1)] that s(1) [of i] by (auto simp: cluster_ok_def seat_ok_def data_ok_def)
  have i: "0 < (3::nat)" "1 < (3::nat)" by simp_all
  from base_takes [OF s(1) base_server_ok [OF i(1)] wf [OF i(1)] w(2), of K] s(2) obtain u where
    u: "seat_step codec0 K (seats c 0) u" "took u = [(1, ''a'')]" "kv_abs (server u) = ([''a'' \<mapsto> ''v''], [''c'' \<mapsto> 1])"
    by fastforce
  let ?c = "c\<lparr>seats := (seats c)(0 := u)\<rparr>"
  have c1: "cluster_reach N codec0 K 3 ?c" by (rule cluster_reach_step [OF c(1) cluster_step.serve [OF i(1) u(1)]])
  from base_takes [OF s(1) base_server_ok [OF i(2)] wf [OF i(2)] w(3), of K] s(2) obtain v where
    v: "seat_step codec0 K (seats ?c 1) v" "took v = [(1, ''b'')]" "kv_abs (server v) = ([''b'' \<mapsto> ''v''], [''c'' \<mapsto> 1])"
    by fastforce
  have "cluster_reach N codec0 K 3 (?c\<lparr>seats := (seats ?c)(1 := v)\<rparr>)"
    by (rule cluster_reach_step [OF c1 cluster_step.serve [OF i(2) v(1)]])
  with u(2,3) v(2,3) show ?thesis by (intro exI [of _ "?c\<lparr>seats := (seats ?c)(1 := v)\<rparr>"]) simp
qed



subsection \<open>The service and the network\<close>



subsection \<open>What a reached server holds\<close>

text \<open>C14. In every run of the service, with messages delayed, lost, doubled and reordered, requests in any
  interleaving, snapshots taken and installed and nodes started again: what a server holds is what its deeds
  make of the empty map and nothing else; the commands among them were taken from its node's channel, in that
  order; what it took and what still waits in the channel has strictly increasing log indices, so no command is
  taken twice; and a command it has taken stays in its node's log at that index until a snapshot covers it.\<close>

theorem servers_follow_their_deeds:
  assumes "cluster_reach N C K n c" "i < n"
  shows "let s = seats c i; r = m_raftNode (server s) in
    kv_abs (server s) = contents K (deeds s) \<and>
    subseq (runs (deeds s)) (map (\<lambda>p. the (iaOp C (snd p))) (took s)) \<and>
    sorted_wrt (<) (map fst (took s @ handed r)) \<and>
    (\<forall>p \<in> set (took s). m_lastSnapshotIncludeIndex r < fst p \<longrightarrow>
       fst p \<le> getLastLogIndex r \<and> command (entry_at r (fst p)) = snd p)"
proof -
  from cluster_ok_reach [OF assms(1)] assms(2) have s: "seat_ok C K n i (seats c i)" by (simp add: cluster_ok_def)
  then have h: "raft_wf (m_raftNode (server (seats c i)))" "hands_ok (took (seats c i)) (m_raftNode (server (seats c i)))"
    by (simp_all add: seat_ok_def data_ok_def)
  have "fst p \<le> getLastLogIndex (m_raftNode (server (seats c i))) \<and> command (entry_at (m_raftNode (server (seats c i))) (fst p)) = snd p"
    if "p \<in> set (took (seats c i))" "m_lastSnapshotIncludeIndex (m_raftNode (server (seats c i))) < fst p" for p
    using handed_inside(2) [OF h, of p] h(2) that by (simp add: hands_ok_def handed_kept_def)
  with s h(2) show ?thesis unfolding Let_def by (simp add: seat_ok_def hands_ok_def)
qed

theorem servers_follow_their_deeds_witness:
  "\<exists>c. cluster_reach (net0 []) codec0 kv_codec0 3 c \<and> took (seats c 0) = [(1, ''a'')] \<and>
     contents kv_codec0 (deeds (seats c 0)) = ([''a'' \<mapsto> ''v''], [''c'' \<mapsto> 1]) \<and>
     (\<forall>p \<in> set (took (seats c 0)). m_lastSnapshotIncludeIndex (m_raftNode (server (seats c 0))) < fst p \<longrightarrow>
        command (entry_at (m_raftNode (server (seats c 0))) (fst p)) = snd p)"
proof -
  from split_cluster [of "net0 []" kv_codec0] obtain c where c: "cluster_reach (net0 []) codec0 kv_codec0 3 c"
    "took (seats c 0) = [(1, ''a'')]" "kv_abs (server (seats c 0)) = ([''a'' \<mapsto> ''v''], [''c'' \<mapsto> 1])" by blast
  from servers_follow_their_deeds [OF c(1), of 0] c show ?thesis by (intro exI [of _ c]) (simp add: Let_def)
qed

subsection \<open>What an answer means\<close>


text \<open>A request that is answered with \<open>OK\<close>: node 0 is elected, takes the command, sends it, commits it with the
  answer of node 1 and hands it to its server.\<close>

definition elect_schedule :: "happening list" where
  "elect_schedule = [Elects 0, Arrives 0 1, Arrives 2 1]"

definition commit_schedule :: "happening list" where
  "commit_schedule = [Beats 0, Arrives 3 1, Arrives 5 1, Applies 0]"

lemma commit_run:
  "case play elect_schedule start_table of Inl _ \<Rightarrow> False | Inr (xs, ps) \<Rightarrow>
     (case Start codec0 (sample_op ''a'') (xs ! 0) of (index, tm, leader, t) \<Rightarrow> index = 1 \<and> leader \<and>
       (case play commit_schedule (xs[0 := t], ps) of Inl _ \<Rightarrow> False
        | Inr (ys, qs) \<Rightarrow> m_queue (applyChan (ys ! 0)) = [cmd_msg ''a'' 1]))"
  by code_simp


lemma commit_tables:
  obtains xs ps tm t ys qs where "play elect_schedule start_table = Inr (xs, ps)"
    "Start codec0 (sample_op ''a'') (xs ! 0) = (1, tm, True, t)"
    "play commit_schedule (xs[0 := t], ps) = Inr (ys, qs)" "m_queue (applyChan (ys ! 0)) = [cmd_msg ''a'' 1]"
proof -
  from commit_run obtain xs ps where x: "play elect_schedule start_table = Inr (xs, ps)"
    by (cases "play elect_schedule start_table") auto
  obtain i tm l t where t: "Start codec0 (sample_op ''a'') (xs ! 0) = (i, tm, l, t)" by (cases "Start codec0 (sample_op ''a'') (xs ! 0)")
  from commit_run x t obtain ys qs where y: "play commit_schedule (xs[0 := t], ps) = Inr (ys, qs)"
    by (cases "play commit_schedule (xs[0 := t], ps)") auto
  from commit_run x t y that show ?thesis by simp
qed

text \<open>The server with the request waiting on its channel.\<close>

definition waiting_server :: "Raft \<Rightarrow> KvServer" where
  "waiting_server r = (base_server 3 0)\<lparr>m_raftNode := r, channels := [0 \<mapsto> newLockQueue], next_channel := 1,
     waitApplyCh := [1 \<mapsto> Some 0]\<rparr>"

lemma waiting_server_ok: "raft_wf r \<Longrightarrow> kv_ok (waiting_server r)" "kv_abs (waiting_server r) = (Map.empty, Map.empty)"
  "m_lastSnapshotRaftLogIndex (waiting_server r) = 0"
  using base_server_ok [of 0 3] by (simp_all add: waiting_server_def kv_ok_def kv_abs_def wait_ok_def)

lemma waiting_server_answers:
  assumes "server s = waiting_server r" "raft_wf r" "m_queue (applyChan r) = [cmd_msg ''a'' 1]"
    and "tasks s = add_mset (PutWaits (sample_op ''a'') 1 (Some 0)) ts"
  shows "\<exists>s1 s2 s3. seat_step codec0 K s s1 \<and> seat_step codec0 K s1 s2 \<and> seat_step codec0 K s2 s3 \<and>
    answers s3 = answers s @ [PutAnswer (sample_op ''a'') \<lparr>pr_err = OK\<rparr>] \<and> deeds s3 = deeds s @ [Ran (sample_op ''a'')]"
proof -
  let ?op = "sample_op ''a''"
  have r: "server s = (waiting_server r)\<lparr>m_raftNode := r\<rparr>" using assms(1) by (simp add: waiting_server_def)
  from base_takes [OF r waiting_server_ok(1) [OF assms(2)] waiting_server_ok(2,3) assms(2,3), of K] obtain u where
    u: "seat_step codec0 K s (s\<lparr>server := u, took := took s @ [(1, ''a'')], deeds := deeds s @ [Ran ?op]\<rparr>)"
    "waitApplyCh u = [1 \<mapsto> Some 0]" "channels u 0 = Some (Push ?op newLockQueue)"
    by (auto simp: waiting_server_def)
  let ?s1 = "s\<lparr>server := u, took := took s @ [(1, ''a'')], deeds := deeds s @ [Ran ?op]\<rparr>"
  let ?v = "u\<lparr>channels := (channels u)(0 \<mapsto> newLockQueue)\<rparr>"
  have w: "wait_channel (Some 0) False (server ?s1) = Inr (Some (Some ?op), ?v)"
    using u(3) by (simp add: wait_channel_def timeoutPop.simps Push_def newLockQueue_def)
  have t1: "tasks ?s1 = add_mset (PutWaits ?op 1 (Some 0)) ts" using assms(4) by simp
  from seat_step.put_wait [OF t1 w] have s2: "seat_step codec0 K ?s1 (?s1\<lparr>server := ?v, tasks := add_mset (PutWoken ?op 1 (Some ?op)) ts\<rparr>)" .
  let ?s2 = "?s1\<lparr>server := ?v, tasks := add_mset (PutWoken ?op 1 (Some ?op)) ts\<rparr>"
  obtain v' where v': "PutAppend_end ?op 1 (Some ?op) \<lparr>pr_err = []\<rparr> (server ?s2) = (\<lparr>pr_err = OK\<rparr>, v')"
    by (simp add: PutAppend_end_def)
  have t2: "tasks ?s2 = add_mset (PutWoken ?op 1 (Some ?op)) ts" by simp
  from seat_step.put_answer [OF t2 v'] have "seat_step codec0 K ?s2
    (?s2\<lparr>server := v', tasks := ts, answers := answers ?s2 @ [PutAnswer ?op \<lparr>pr_err = OK\<rparr>]\<rparr>)" .
  with u(1) s2 show ?thesis
    by (intro exI [of _ ?s1] exI [of _ ?s2] exI [of _ "?s2\<lparr>server := v', tasks := ts, answers := answers ?s2 @ [PutAnswer ?op \<lparr>pr_err = OK\<rparr>]\<rparr>"]) simp
qed

lemma answered_cluster:
  "\<exists>c. cluster_reach N codec0 K 3 c \<and> answers (seats c 0) = [PutAnswer (sample_op ''a'') \<lparr>pr_err = OK\<rparr>] \<and>
     deeds (seats c 0) = [Ran (sample_op ''a'')]"
proof -
  obtain xs ps tm t ys qs where p: "play elect_schedule start_table = Inr (xs, ps)"
    "Start codec0 (sample_op ''a'') (xs ! 0) = (1, tm, True, t)"
    "play commit_schedule (xs[0 := t], ps) = Inr (ys, qs)" "m_queue (applyChan (ys ! 0)) = [cmd_msg ''a'' 1]"
    by (rule commit_tables)
  obtain w1 where w1: "net_calm codec0 3 (net_init 3) w1" "length xs = 3" "\<forall>i < 3. members w1 i = xs ! i" "set ps \<subseteq> soup w1"
    by (rule start_table_plays [OF p(1)])
  obtain c1 where c1: "cluster_reach N codec0 K 3 c1" "raft_view c1 = w1" "same_seat (seats (base_cluster 3) 0) (seats c1 0)"
    using calm_served [OF w1(1) base_cluster_reach base_cluster_view, of N K] by blast
  have m1: "m_raftNode (server (seats c1 0)) = xs ! 0" using c1(2) w1(3) by (auto simp: raft_view_def)
  have s1: "server (seats c1 0) = (base_server 3 0)\<lparr>m_raftNode := xs ! 0\<rparr>" "deeds (seats c1 0) = []" "answers (seats c1 0) = []"
    using c1(3) m1 by (simp_all add: same_seat_def base_cluster_def new_seat_def)
  obtain args where a: "put_op args = sample_op ''a''" using put_op_surj by blast
  let ?s2 = "(seats c1 0)\<lparr>server := (base_server 3 0)\<lparr>m_raftNode := t\<rparr>,
      tasks := add_mset (PutStarted (sample_op ''a'') 1) (tasks (seats c1 0))\<rparr>"
  have st: "seat_step codec0 K (seats c1 0) ?s2"
    unfolding a [symmetric] by (rule seat_step.put_start) (simp add: s1(1) submit_def a p(2))
  let ?s3 = "?s2\<lparr>server := waiting_server t, tasks := add_mset (PutWaits (sample_op ''a'') 1 (Some 0)) (tasks (seats c1 0))\<rparr>"
  have "put_channel 1 (server ?s2) = (Some 0, waiting_server t)"
    by (simp add: put_channel_def new_channel_def emplace_def subscript_def waiting_server_def base_server_def)
  then have rg: "seat_step codec0 K ?s2 ?s3" by (intro seat_step.put_register) simp_all
  let ?c2 = "c1\<lparr>seats := (seats c1)(0 := ?s2)\<rparr>" and ?c3 = "c1\<lparr>seats := (seats c1)(0 := ?s3)\<rparr>"
  have z: "0 < (3::nat)" by simp
  have c2: "cluster_reach N codec0 K 3 ?c2" by (rule cluster_reach_step [OF c1(1) cluster_step.serve [OF z st]])
  have "cluster_reach N codec0 K 3 (?c2\<lparr>seats := (seats ?c2)(0 := ?s3)\<rparr>)"
    by (rule cluster_reach_step [OF c2 cluster_step.serve [OF z]]) (use rg in simp)
  then have c3: "cluster_reach N codec0 K 3 ?c3" by simp
  have "on_table 3 (raft_view ?c3) (xs[0 := t], ps)"
  proof (rule on_table_start)
    fix i :: nat assume "i < 3"
    then show "members (raft_view ?c3) i = xs[0 := t] ! i"
      using w1(2,3) c1(2) by (auto simp: raft_view_def waiting_server_def nth_list_update)
  qed (use w1(2,4) c1(2) in \<open>auto simp: raft_view_def\<close>)
  then obtain w4 where w4: "net_calm codec0 3 (raft_view ?c3) w4" "length ys = 3" "\<forall>i < 3. members w4 i = ys ! i" "set qs \<subseteq> soup w4"
    by (rule table_plays [OF p(3)])
  obtain c4 where c4: "cluster_reach N codec0 K 3 c4" "raft_view c4 = w4" "same_seat (seats ?c3 0) (seats c4 0)"
    using calm_served [OF w4(1) c3 refl] by blast
  have m4: "m_raftNode (server (seats c4 0)) = ys ! 0" using c4(2) w4(3) by (auto simp: raft_view_def)
  have s4: "server (seats c4 0) = waiting_server (ys ! 0)" "deeds (seats c4 0) = []" "answers (seats c4 0) = []"
    using c4(3) m4 s1 by (simp_all add: same_seat_def waiting_server_def)
  have "tasks (seats ?c3 0) \<subseteq># tasks (seats c4 0)" using c4(3) by (simp add: same_seat_def)
  from mset_subset_eqD [OF this] have "PutWaits (sample_op ''a'') 1 (Some 0) \<in># tasks (seats c4 0)" by simp
  then obtain ts where ts: "tasks (seats c4 0) = add_mset (PutWaits (sample_op ''a'') 1 (Some 0)) ts"
    by (rule mset_add)
  have "seat_ok codec0 K 3 0 (seats c4 0)" using cluster_ok_reach [OF c4(1)] by (simp add: cluster_ok_def)
  then have wf: "raft_wf (ys ! 0)" unfolding m4 [symmetric] by (simp add: seat_ok_def data_ok_def)
  from waiting_server_answers [OF s4(1) wf p(4) ts, of K] obtain s5 s6 s7 where s:
    "seat_step codec0 K (seats c4 0) s5" "seat_step codec0 K s5 s6" "seat_step codec0 K s6 s7"
    "answers s7 = [PutAnswer (sample_op ''a'') \<lparr>pr_err = OK\<rparr>]" "deeds s7 = [Ran (sample_op ''a'')]"
    unfolding s4 by auto
  have c5: "cluster_reach N codec0 K 3 (c4\<lparr>seats := (seats c4)(0 := s5)\<rparr>)"
    by (rule cluster_reach_step [OF c4(1) cluster_step.serve [OF z s(1)]])
  have c6: "cluster_reach N codec0 K 3 (c4\<lparr>seats := (seats c4)(0 := s6)\<rparr>)"
    using cluster_reach_step [OF c5 cluster_step.serve [OF z, of _ _ _ s6]] s(2) by simp
  have "cluster_reach N codec0 K 3 (c4\<lparr>seats := (seats c4)(0 := s7)\<rparr>)"
    using cluster_reach_step [OF c6 cluster_step.serve [OF z, of _ _ _ s7]] s(3) by simp
  with s(4,5) show ?thesis by (intro exI [of _ "c4\<lparr>seats := (seats c4)(0 := s7)\<rparr>"]) simp
qed


end
