(* ===== verification/Service.thy ===== *)
theory Service
  imports KvServer RpcProvider
begin

text \<open>
  The services a node registers with its provider: the methods of \<open>Raft\<close> and \<open>KvServer\<close> that take a
  closure (src/raftCore/raft.cpp, src/raftCore/KvServer.cpp), which run the handler and then the closure,
  and the service the provider calls for a message of another node. The parsers and serializers of the
  protobuf messages are parameters. At the end, the path of a call from one node to another:
  \<open>RaftRpcUtil\<close>, the channel, the provider, the service, the handler.
\<close>

subsection \<open>The methods with a closure\<close>

text \<open>The closure is a function of the answer; a handler that does not come to its end does not run it.\<close>

definition Raft_AppendEntries ::
  "raft_codec \<Rightarrow> int \<Rightarrow> AppendEntriesArgs \<Rightarrow> AppendEntriesReply \<Rightarrow> (AppendEntriesReply \<Rightarrow> 'd) \<Rightarrow> Raft \<Rightarrow> ('d \<times> Raft) res" where
  "Raft_AppendEntries C now request response done s =
     bindR (AppendEntries1 C now request response s) (\<lambda>(r, s1). Inr (done r, s1))"

definition Raft_InstallSnapShot ::
  "raft_codec \<Rightarrow> int \<Rightarrow> InstallSnapshotRequest \<Rightarrow> InstallSnapShotResponse \<Rightarrow> (InstallSnapShotResponse \<Rightarrow> 'd) \<Rightarrow> Raft
   \<Rightarrow> ('d \<times> Raft) res" where
  "Raft_InstallSnapShot C now request response done s =
     bindR (InstallSnapshot C now request response s) (\<lambda>(r, s1). Inr (done r, s1))"

definition Raft_RequestVote ::
  "raft_codec \<Rightarrow> int \<Rightarrow> RequestVoteArgs \<Rightarrow> RequestVoteReply \<Rightarrow> (RequestVoteReply \<Rightarrow> 'd) \<Rightarrow> Raft \<Rightarrow> ('d \<times> Raft) res" where
  "Raft_RequestVote C now request response done s =
     bindR (RequestVote C now request response s) (\<lambda>(r, s1). Inr (done r, s1))"

text \<open>The handlers of the server wait for the apply loop; the closure runs when they answer, at once or
  after the wait.\<close>

definition when_replied :: "('r \<Rightarrow> 'd) \<Rightarrow> 'r pending \<Rightarrow> 'd pending" where
  "when_replied done p = (case p of Replied r \<Rightarrow> Replied (done r) | Waiting op i ch \<Rightarrow> Waiting op i ch)"

definition KvServer_PutAppend_begin ::
  "raft_codec \<Rightarrow> PutAppendArgs \<Rightarrow> PutAppendReply \<Rightarrow> (PutAppendReply \<Rightarrow> 'd) \<Rightarrow> KvServer \<Rightarrow> 'd pending \<times> KvServer" where
  "KvServer_PutAppend_begin C request response done s =
     (case PutAppend_begin C request response s of (p, s1) \<Rightarrow> (when_replied done p, s1))"

definition KvServer_PutAppend_end ::
  "Op \<Rightarrow> int \<Rightarrow> Op option \<Rightarrow> PutAppendReply \<Rightarrow> (PutAppendReply \<Rightarrow> 'd) \<Rightarrow> KvServer \<Rightarrow> 'd \<times> KvServer" where
  "KvServer_PutAppend_end op raftIndex popped response done s =
     (case PutAppend_end op raftIndex popped response s of (r, s1) \<Rightarrow> (done r, s1))"

definition KvServer_Get_begin ::
  "raft_codec \<Rightarrow> GetArgs \<Rightarrow> GetReply \<Rightarrow> (GetReply \<Rightarrow> 'd) \<Rightarrow> KvServer \<Rightarrow> 'd pending \<times> KvServer" where
  "KvServer_Get_begin C request response done s =
     (case Get_begin C request response s of (p, s1) \<Rightarrow> (when_replied done p, s1))"

definition KvServer_Get_end ::
  "Op \<Rightarrow> int \<Rightarrow> Op option \<Rightarrow> GetReply \<Rightarrow> (GetReply \<Rightarrow> 'd) \<Rightarrow> KvServer \<Rightarrow> ('d \<times> KvServer) res" where
  "KvServer_Get_end op raftIndex popped response done s =
     bindR (Get_end op raftIndex popped response s) (\<lambda>(r, s1). Inr (done r, s1))"

subsection \<open>The service of a raft node\<close>

datatype raft_request = AppendReq AppendEntriesArgs | SnapReq InstallSnapshotRequest | VoteReq RequestVoteArgs
datatype raft_response = AppendRsp AppendEntriesReply | SnapRsp InstallSnapShotResponse | VoteRsp RequestVoteReply

record raft_messages =
  par_append :: "string \<Rightarrow> AppendEntriesArgs option"
  par_snap :: "string \<Rightarrow> InstallSnapshotRequest option"
  par_vote :: "string \<Rightarrow> RequestVoteArgs option"
  ser_rsp :: "raft_response \<Rightarrow> string option"

definition raft_methods :: "string list" where
  "raft_methods = [''AppendEntries'', ''InstallSnapShot'', ''RequestVote'']"

definition raft_parse :: "raft_messages \<Rightarrow> nat \<Rightarrow> string \<Rightarrow> raft_request option" where
  "raft_parse M i str =
     (if i = 0 then map_option AppendReq (par_append M str)
      else if i = 1 then map_option SnapReq (par_snap M str) else map_option VoteReq (par_vote M str))"

definition raft_handle :: "raft_codec \<Rightarrow> int \<Rightarrow> raft_request \<Rightarrow> Raft \<Rightarrow> (raft_response \<times> Raft) res" where
  "raft_handle C now req s =
     (case req of
        AppendReq a \<Rightarrow> Raft_AppendEntries C now a newAppendEntriesReply AppendRsp s
      | SnapReq a \<Rightarrow> Raft_InstallSnapShot C now a newInstallSnapShotResponse SnapRsp s
      | VoteReq a \<Rightarrow> Raft_RequestVote C now a newRequestVoteReply VoteRsp s)"

text \<open>The process of the node: its state, or how it ended. A process that has ended answers nothing.\<close>

definition raft_service :: "raft_codec \<Rightarrow> raft_messages \<Rightarrow> int \<Rightarrow> (Raft res, raft_request, raft_response option) service" where
  "raft_service C M now =
     \<lparr>sv_name = ''raftRpc'', sv_methods = raft_methods, sv_parse = raft_parse M,
      sv_call = (\<lambda>i req w. case bindR w (raft_handle C now req) of Inl e \<Rightarrow> (None, Inl e) | Inr (r, s) \<Rightarrow> (Some r, Inr s)),
      sv_ser = (\<lambda>i rsp. case rsp of None \<Rightarrow> None | Some r \<Rightarrow> ser_rsp M r)\<rparr>"

subsection \<open>From node to node\<close>

text \<open>A call of any of the three methods between two nodes, with nothing pending on the connection: the
  handler of the other node runs once, on the request its parser reads, and the caller gets its answer.\<close>

theorem raft_call_over_the_wire:
  assumes "wire_ok W" "coded_ok K" "i < length raft_methods" "length args < 2 ^ 31"
    "SerializeToString W (request_header ''raftRpc'' (raft_methods ! i) args) = Some hdr"
    "raft_parse M i args = Some req" "raft_handle C now req s = Inr (rsp, t)" "ser_rsp M rsp = Some answer"
    "length answer \<le> 1024" "parse answer = Some r" "m_clientFd c \<noteq> -1" "sent cn = []"
  shows "\<exists>cn'. stub_call (rpc_net W K (NotifyService (raft_service C M now) Map.empty)) W K ''raftRpc'' (raft_methods ! i)
      (Some args) parse (c, \<lparr>os = (Inr s, cn), open_fds = fds\<rparr>) =
    Some (Inr (True, Some r, c, \<lparr>os = (Inr t, cn'), open_fds = fds\<rparr>)) \<and> sent cn' = []"
proof -
  have f: "sv_name (raft_service C M now) = ''raftRpc''" "sv_methods (raft_service C M now) = raft_methods"
    "sv_parse (raft_service C M now) i args = Some req" "sv_call (raft_service C M now) i req (Inr s) = (Some rsp, Inr t)"
    "sv_ser (raft_service C M now) i (Some rsp) = Some answer"
    using assms(6-8) by (simp_all add: raft_service_def)
  have m: "length (raft_methods ! i) < 2 ^ 31" "distinct raft_methods"
    using assms(3) by (auto simp: raft_methods_def less_Suc_eq)
  have "take 1024 answer = answer" using assms(9) by simp
  with remote_call [where sm = Map.empty and service = "raft_service C M now" and i = i and cn = cn, OF assms(1,2) _ _ assms(4) _ refl]
    assms(3,5,9-12) f m
  show ?thesis unfolding stub_call_def by fastforce
qed

subsection \<open>The end of a peer\<close>

text \<open>C27. The end of a peer is taken for its answer. When the process at the other end of a connection ends, the
  next \<open>recv\<close> returns 0 bytes; the channel tests for -1 only and parses them, and no bytes are a valid
  message with all fields at their defaults. A leader that sends its snapshot to a peer that ends before
  it answers therefore sees success, and records that the peer has everything the snapshot covers.\<close>

theorem peer_that_ended_counts_as_snapshotted:
  assumes "m_clientFd c \<noteq> -1" "SerializeToString W (request_header ''raftRpc'' ''InstallSnapShot'' args) = Some hdr"
    and "n_send N (nat (m_clientFd c)) (rpc_frame K hdr args) (os h) = (True, w1)"
    and "n_recv N (nat (m_clientFd c)) 1024 w1 = (Some [], w2)" "parse [] = Some newInstallSnapShotResponse"
    and "raft_wf l" "m_status l = Leader" "0 \<le> m_currentTerm l" "leaderSendSnapShot_args l = (a, l1)" "0 \<le> k" "k < int (m_peers_size l)"
  shows "\<exists>s l2. RaftRpcUtil_InstallSnapShot N W K (Some args) parse (c, h) = Some (Inr (True, Some newInstallSnapShotResponse, s)) \<and>
    leaderSendSnapShot_reply C now True k a newInstallSnapShotResponse l1 = Inr l2 \<and>
    m_matchIndex l2 ! nat k = m_lastSnapshotIncludeIndex l \<and> m_nextIndex l2 ! nat k = m_lastSnapshotIncludeIndex l + 1"
proof -
  have send: "send_loop N (rpc_frame K hdr args) (c, h) = Some (Inr (), (c, h\<lparr>os := w1\<rparr>))"
    by (subst send_loop.simps) (simp add: assms(3))
  have call: "RaftRpcUtil_InstallSnapShot N W K (Some args) parse (c, h) =
      Some (Inr (True, Some newInstallSnapShotResponse, (c, h\<lparr>os := w2\<rparr>)))"
    using assms(1,2,4,5)
    by (simp add: RaftRpcUtil_InstallSnapShot_def stub_call_def CallMethod_def send recv_reply_def)
  have "length (m_matchIndex l) = m_peers_size l" "length (m_nextIndex l) = m_peers_size l"
    using assms(6) by (simp_all add: raft_wf_def)
  then show ?thesis using assms(7-11) call
    by (auto simp: leaderSendSnapShot_reply_def leaderSendSnapShot_args_def newInstallSnapShotResponse_def vec_put_def Let_def
        split: prod.splits)
qed


theorem peer_that_ended_counts_as_snapshotted_witness:
  "\<exists>s l2. RaftRpcUtil_InstallSnapShot (net0 []) varint_wire coded0 (Some ''ab'') (\<lambda>_. Some newInstallSnapShotResponse)
      (\<lparr>m_clientFd = 3, m_ip = ''10.0.0.1'', m_port = 27000\<rparr>, \<lparr>os = (), open_fds = [3]\<rparr>) =
      Some (Inr (True, Some newInstallSnapShotResponse, s)) \<and>
    leaderSendSnapShot_reply codec0 0 True 1 (fst (leaderSendSnapShot_args sample_leader)) newInstallSnapShotResponse
      (snd (leaderSendSnapShot_args sample_leader)) = Inr l2 \<and> m_nextIndex l2 ! 1 = m_lastSnapshotIncludeIndex sample_leader + 1"
proof -
  obtain hdr where hdr: "SerializeToString varint_wire (request_header ''raftRpc'' ''InstallSnapShot'' ''ab'') = Some hdr"
    by (simp add: SerializeToString_def ByteSizeLong_def request_header_def SharedCtor_def varint_wire_def
        put_varint.simps split: if_splits)
  have l: "m_status sample_leader = Leader" "0 \<le> m_currentTerm sample_leader" "(1 :: int) < int (m_peers_size sample_leader)"
    by code_simp+
  have "leaderSendSnapShot_args sample_leader =
      (fst (leaderSendSnapShot_args sample_leader), snd (leaderSendSnapShot_args sample_leader))" by simp
  from peer_that_ended_counts_as_snapshotted [where c = "\<lparr>m_clientFd = 3, m_ip = ''10.0.0.1'', m_port = 27000\<rparr>" and N = "net0 []" and
      h = "\<lparr>os = (), open_fds = [3]\<rparr>" and parse = "\<lambda>_. Some newInstallSnapShotResponse" and K = coded0 and C = codec0 and now = 0,
      OF _ hdr _ _ _ sample_leader_wf(1) l(1,2) this _ l(3)]
  show ?thesis by (auto simp: net0_def)
qed

end
