(* ===== verification/Launcher.thy ===== *)
theory Launcher
  imports Node
begin

text \<open>
  The program that starts a cluster (src/example/raftCoreExample/raftKvDB.cpp). It reads its options, empties
  the configuration file, and forks one process for each node, one a second; each process constructs its
  \<open>KvServer\<close>, which registers itself, sleeps for six seconds and reads the file. The results of \<open>getopt\<close>,
  of opening the file and of \<open>fork\<close> are arguments, and so is the random port of the first node.
\<close>

subsection \<open>The program\<close>

fun main_options :: "(char \<times> string) list \<Rightarrow> int \<Rightarrow> string \<Rightarrow> (int \<times> string) option" where
  "main_options [] nodeNum configFileName = Some (nodeNum, configFileName)"
| "main_options ((c, optarg) # opts) nodeNum configFileName =
     (if c = CHR ''n'' then main_options opts (atoi optarg) configFileName
      else if c = CHR ''f'' then main_options opts nodeNum optarg
      else None)"

type_synonym files = "string \<Rightarrow> string option"

definition empty_file :: "(string \<Rightarrow> bool) \<Rightarrow> string \<Rightarrow> files \<Rightarrow> files option" where
  "empty_file opens name fs = (if opens name then Some (fs(name \<mapsto> [])) else None)"

text \<open>The processes forked, each with its number and port, and whether every \<open>fork\<close> succeeded.\<close>

function launch :: "(int \<Rightarrow> bool) \<Rightarrow> int \<Rightarrow> int \<Rightarrow> int \<Rightarrow> (int \<times> int) list \<times> bool" where
  "launch forked startPort nodeNum i =
     (if i < nodeNum then
        let port = to_short (startPort + to_short i) in
        if forked i then (case launch forked startPort nodeNum (i + 1) of (cs, ok) \<Rightarrow> ((i, port) # cs, ok))
        else ([], False)
      else ([], True))"
  by pat_completeness auto
termination
  by (relation "measure (\<lambda>(forked, startPort, nodeNum, i). nat (nodeNum - i))") auto

declare launch.simps [simp del]

text \<open>\<open>None\<close> is an exit with an error before any process is forked.\<close>

definition launcher_main ::
  "int \<Rightarrow> (char \<times> string) list \<Rightarrow> (string \<Rightarrow> bool) \<Rightarrow> (int \<Rightarrow> bool) \<Rightarrow> int \<Rightarrow> files
   \<Rightarrow> (string \<times> (int \<times> int) list \<times> bool \<times> files) option" where
  "launcher_main argc opts opens forked startPort fs =
     (if argc < 2 then None
      else case main_options opts 0 [] of None \<Rightarrow> None
      | Some (nodeNum, configFileName) \<Rightarrow>
         (case empty_file opens configFileName fs of None \<Rightarrow> None
          | Some fs1 \<Rightarrow> (case launch forked startPort nodeNum 0 of (cs, ok) \<Rightarrow> Some (configFileName, cs, ok, fs1))))"

subsection \<open>What the processes read\<close>

text \<open>The files \<open>T\<close> seconds after the first \<open>fork\<close>: process \<open>j\<close> is forked after \<open>j\<close> seconds and has registered
  itself \<open>delay\<close> seconds later, in \<open>test.conf\<close>, the name \<open>RpcProvider::Run\<close> uses.\<close>

definition files_at :: "(int \<times> int) list \<Rightarrow> string \<Rightarrow> int \<Rightarrow> int \<Rightarrow> files \<Rightarrow> files" where
  "files_at cs ip delay T fs =
     (let rs = map (\<lambda>(j, port). (j, ip, port)) (filter (\<lambda>(j, port). j + delay \<le> T) cs)
      in if rs = [] then fs
         else fs(''test.conf'' \<mapsto> (case fs ''test.conf'' of None \<Rightarrow> [] | Some old \<Rightarrow> old) @ registrations rs))"

lemma launch_all:
  assumes "\<And>j. i \<le> j \<Longrightarrow> j < n \<Longrightarrow> forked j" "0 \<le> i" "n \<le> 32768"
  shows "launch forked startPort n i = (map (\<lambda>j. (j, to_short (startPort + j))) [i..n - 1], True)"
  using assms
proof (induction "nat (n - i)" arbitrary: i)
  case 0
  then show ?case by (subst launch.simps) simp
next
  case (Suc k)
  then have i: "i < n" "forked i" by simp_all
  from Suc have r: "launch forked startPort n (i + 1) = (map (\<lambda>j. (j, to_short (startPort + j))) [i + 1..n - 1], True)" by simp
  have "[i..n - 1] = i # [i + 1..n - 1]" using i(1) by (simp add: upto_rec1)
  with i r Suc.prems(2,3) show ?case by (subst launch.simps) (simp add: to_short_id Let_def)
qed

lemma dec_length: "n < 10 ^ Suc k \<Longrightarrow> length (dec n) \<le> Suc k"
proof (induction k arbitrary: n)
  case 0
  then show ?case by (simp add: dec.simps)
next
  case (Suc k)
  then have "n div 10 < 10 ^ Suc k" by (simp add: less_mult_imp_div_less mult.commute)
  from Suc.IH [OF this] show ?case by (subst dec.simps) simp
qed

lemma filter_upto: "filter (\<lambda>j. j \<le> b) [a..c] = [a..min b c :: int]"
proof (induction "nat (c - a + 1)" arbitrary: a)
  case 0
  then show ?case by simp
next
  case (Suc k)
  then have "[a..c] = a # [a + 1..c]" "filter (\<lambda>j. j \<le> b) [a + 1..c] = [a + 1..min b c]" by (simp_all add: upto_rec1)
  then show ?case using Suc.hyps(2) by (cases "a \<le> b") (simp_all add: upto_rec1)
qed

definition launched :: "int \<Rightarrow> int \<Rightarrow> (int \<times> int) list" where
  "launched startPort n = map (\<lambda>j. (j, startPort + j)) [0..n - 1]"

lemma launch_result:
  assumes "\<And>j. 0 \<le> j \<Longrightarrow> j < n \<Longrightarrow> forked j" "10000 \<le> startPort" "startPort < 30000" "n \<le> 2000"
  shows "launch forked startPort n 0 = (launched startPort n, True)"
proof -
  have "launch forked startPort n 0 = (map (\<lambda>j. (j, to_short (startPort + j))) [0..n - 1], True)"
    using assms by (intro launch_all) simp_all
  also have "map (\<lambda>j. (j, to_short (startPort + j))) [0..n - 1] = launched startPort n"
    unfolding launched_def using assms by (intro map_cong) (auto simp: to_short_id)
  finally show ?thesis .
qed

text \<open>What is registered after \<open>T\<close> seconds.\<close>

lemma files_at_launched:
  assumes "0 \<le> n" "delay \<le> T"  "0 < n"
  shows "files_at (launched startPort n) ip delay T fs =
    fs(''test.conf'' \<mapsto> (case fs ''test.conf'' of None \<Rightarrow> [] | Some old \<Rightarrow> old) @
         registrations (map (\<lambda>j. (j, ip, startPort + j)) [0..min (T - delay) (n - 1)]))"
proof -
  have "filter (\<lambda>(j, port). j + delay \<le> T) (launched startPort n) = map (\<lambda>j. (j, startPort + j)) [0..min (T - delay) (n - 1)]"
    by (simp add: launched_def filter_map o_def le_diff_eq [symmetric] filter_upto)
  moreover have "[0..min (T - delay) (n - 1)] \<noteq> []" using assms by simp
  ultimately show ?thesis by (simp add: files_at_def o_def Let_def)
qed

lemma launched_reg_ok:
  assumes "0 \<le> j" "j < 2000" "10000 \<le> startPort" "startPort < 30000" "plain ip" "length ip < 400"
  shows "reg_ok (j, ip, startPort + j)"
proof -
  have "length (to_string j) \<le> 4" "length (to_string (startPort + j)) \<le> 5"
    using assms dec_length [of "nat j" 3] dec_length [of "nat (startPort + j)" 4] by (simp_all add: to_string_def)
  then show ?thesis using assms by (simp add: reg_ok_def node_name_def)
qed

subsection \<open>How large the nodes think the cluster is\<close>




end
