(* ===== verification/Spec2Isabelle.thy ===== *)
theory Spec2Isabelle
  imports Safety Config RpcProvider Clerk Scheduler RaftTicker Sync IORace IOTickle ClusterRuns Service Launcher
begin

text \<open>
  \<^bold>\<open>Distrib-KVstorage: a key-value store replicated with Raft, over its own RPC library and fiber runtime.\<close>

  \<^bold>\<open>The program.\<close> A process of the cluster is a \<open>KvServer\<close> (src/raftCore/KvServer.cpp) on top of a \<open>Raft\<close>
  node (raft.cpp). A \<open>Clerk\<close> (src/raftClerk/clerk.cpp) sends \<open>Get\<close>, \<open>Put\<close> and \<open>Append\<close> to the servers until
  one answers as the leader. The leader appends the command to its log (\<open>Raft::Start\<close>), sends the log to
  the other nodes with its heartbeats, and commits what a majority holds; every node hands the committed
  commands to its server through a channel (\<open>LockQueue\<close>), the server's loop applies them to a skip list and
  wakes the handler that waits for the log index. Persisted state and snapshots go through \<open>Persister\<close>.
  Nodes call each other through the RPC library (src/rpc): a channel frames a request with the message
  \<open>RpcHeader\<close>, the provider of the other node decodes it and calls the registered service. The tickers of a
  raft node run as fibers of the runtime in src/fiber: fibers and a scheduler, timers, an I/O manager over
  \<open>epoll\<close>, and system calls replaced by versions that yield.

  \<^bold>\<open>The theories and what they model.\<close>
  \<^item> Prelude: faults (\<open>AssertFailed\<close>, \<open>OutOfBounds\<close>, \<open>NullDeref\<close>, ...), the type \<open>'a res\<close> of every operation that
    can fail, its sequencing \<open>bindR\<close>, checked access to vectors.
  \<^item> Common: src/common, the command \<open>Op\<close>, the channel \<open>LockQueue\<close>, the search for a free port.
  \<^item> Persist: Persister.cpp, the two files and their streams.
  \<^item> RaftState: raft.h and the messages of raftRPC.proto; the queries of the log; \<open>persistData\<close>, \<open>readPersist\<close>,
    \<open>init\<close>. RaftFollower: \<open>AppendEntries1\<close>, \<open>InstallSnapshot\<close>, \<open>RequestVote\<close>. RaftLeader: \<open>doElection\<close>,
    \<open>doHeartBeat\<close>, \<open>leaderSendSnapShot\<close>, what follows an answer to each of their calls, \<open>Start\<close>, \<open>Snapshot\<close>,
    \<open>getApplyLogs\<close>, \<open>applierTicker\<close>, the commit index. RaftRecovery: a restart. RaftTicker: the two loops that
    sleep, \<open>electionTimeOutTicker\<close> and \<open>leaderHearBeatTicker\<close>, over the hooked \<open>usleep\<close>.
  \<^item> Election, Safety: a cluster in which elections are counted call by call. Network: a cluster in which every
    call and answer of the three RPCs is a message that may be late, doubled, reordered or lost, and nodes
    start again. Handover: what its nodes hand to their servers. Divergence: runs of it computed from a schedule.
  \<^item> Cluster: the whole service, servers with their nodes and the requests of their handlers over that network.
    Embedding: its nodes and messages as those of theory Network. ClusterRuns: its runs, and what its servers hold
    and answer.
  \<^item> SkipHeap, SkipList: skipList.h, the nodes and pointers as a heap of addresses, and the class.
  \<^item> KvServer: the handlers (split at their blocking call), the apply loop, snapshots. Node: the constructor.
    Service: the methods that run a closure, and the raft service the provider calls. Launcher: the program
    that forks the nodes of a cluster (src/example/raftCoreExample/raftKvDB.cpp).
  \<^item> Config: mprpcconfig.cpp, the lines \<open>RpcProvider::Run\<close> writes, the addresses the nodes and clients read.
  \<^item> RpcHeader: the generated code of the header message. RpcChannel: controller, channel, stub wrappers.
    RpcProvider: registration, decoding, dispatch, answer; and both sides together. Clerk: the client.
  \<^item> Timer: timer.cpp. FdManager: fd_manager.cpp. Hook: hook.cpp. Scheduler: fiber.cpp, scheduler.cpp.
    IOManager: iomanager.cpp, the operations on events; IORace: \<open>addEvent\<close> as its two critical sections;
    IOTickle: the pipe that wakes idle threads, and the destructor. Sync: mutex.hpp and thread.cpp.

  \<^bold>\<open>State and operations.\<close> A class is a record with the names of its members, an operation a function from the
  state before to the result and the state after, with one branch for every return, assertion and unchecked
  access. Code under a mutex is one step; code that gives a mutex up is split there. Shared pointers and
  objects whose identity matters (skip list nodes, timers, fibers, wait channels) are addresses in a heap. A
  handler that waits is two functions, before and after the wait, and what the rest of the program does in
  between is arbitrary. The indices and terms of raft are \<open>int\<close>s, the code's 32-bit integers without their
  overflow; times, counters of threads and the sizes in the header are words of the code's width, because
  there the wrap-around matters.

  \<^bold>\<open>What the lemmas show.\<close>
  \<^item> Raft, one node: the invariant \<open>raft_wf\<close> (consecutive log, indices in range, complete bookkeeping of the
    peers) is kept by every operation; each handler's result on every branch; the applied commands come
    in order and once; the faults of the conflict handling and of the restart.
  \<^item> Raft, the cluster: at most one leader in a term while nodes do not restart and the branch that steps down
    without persisting is not taken (Safety), and that the branch breaks it; the types of all nodes and
    messages are kept in every run (Network); a node hands over its commands in order, none twice, and keeps
    them (Handover); a refused call can end a leader; and a run in which two nodes
    hand different commands for one index to their servers (Divergence): the code does not keep Raft's main promise.
  \<^item> The service: in every run what a server holds is what its deeds, the commands it took from its node, the
    snapshots it loaded and the numbers its reads recorded, make of the empty map, and what it answers is
    justified by them (Cluster); its nodes and messages are those of a run of the network (Embedding); and a run
    in which two servers hold different contents (ClusterRuns). One turn
    of the server's loop is one step there, a handler is the sections between its locks and its wait.
  \<^item> The server: the apply loop refines a map with the last request of each client, and applies each request
    at most once; a waiting request is answered once its command is applied. The skip list refines a map.
    How a node starts, and how large the nodes of a launched cluster think it is.
  \<^item> RPC: a header parses back to itself; a remote call is the local call; a channel holds at most one socket;
    a client finds the leader; and where the framing loses requests or takes the end of a peer for an answer.
  \<^item> Fibers: a fiber runs on one thread at a time and no task is lost; a scheduler that stops is done; timers
    fire when due; the waiters of descriptors are conserved, except in the two cases that lose one; idle
    threads are counted exactly, and whom a new task wakes; the guards exclude each other.
  The interfaces are locales, interpreted where the code provides them: \<open>fifo_channel\<close> (Common), \<open>quorum_system\<close>
  (Election), \<open>kv_store\<close> (SkipList), \<open>guarded_lock\<close> (Sync, for \<open>Mutex\<close> and for \<open>RWMutex\<close>). The proofs about runs
  share two more, \<open>step_invariant\<close> and its extension \<open>simulation\<close> (Prelude), interpreted on the network (Network,
  Handover) and on the service over it (Cluster, Embedding).

  \<^bold>\<open>Loops.\<close> Loops with a bound are \<open>fun\<close> or \<open>function\<close> with a measure. Loops that may run for ever are
  \<open>partial_function (option)\<close>, where not to return is \<open>None\<close>: the resending of a request and the client's retries
  (returning is proved where the network lets them), the walks of the skip list (the invariant gives their
  result), the parser of the header, \<open>fcntl\<close> with \<open>F_GETFL\<close> (which never returns). No definition uses fuel.
  Endless loops are modelled by one turn, or by the list of the turns done so far.

  \<^bold>\<open>Parameters.\<close> The boost archives, the protobuf messages and wire primitives, the streams of protobuf, sockets,
  \<open>epoll\<close>, the original system calls, muduo's server, the clock and \<open>rand\<close> are arguments; what is assumed of
  them (\<open>wire_ok\<close>, \<open>coded_ok\<close>, ...) is what they document, and samples of the theories satisfy it.

  \<^bold>\<open>Not modelled.\<close> The generated files for raftRPC.proto and KvServerRPC.proto (only their messages appear, as
  records); the other examples under src/example; output and logging; the assembly of a context switch (the place
  a thread is in stands for its stack) and the allocation of stacks; the lookup of the original system calls;
  the join of the threads at the end of \<open>Scheduler::stop\<close>; \<open>Semaphore\<close>, which is declared and never defined;
  the singleton and the class without copies, which have no state.
  The memory model of C++ is not modelled: an access without a lock is a step of its own or part of one.
\<close>

end
